(* ===== verification/Hadron_Prelude.thy ===== *)
theory Hadron_Prelude
  imports Main "HOL-Library.Word" "HOL-Library.Monad_Syntax"
begin

text \<open>
  Shared vocabulary of the development: the machine types of the kernel, the arithmetic and
  slice primitives of Rust as the kernel's default build profile executes them, and the lemmas
  on words, lists and options that the component theories share.

  \<^item> An integer type of the source with a fixed width is a word; \<open>usize\<close> values that are only
    ever counts, indices or lengths are \<^typ>\<open>nat\<close>, with the 64-bit bound written out by the
    \<open>us_\<close> operations wherever the source computes with them.
  \<^item> The default profile (\<^verbatim>\<open>opt_level(0)\<close> in \<^verbatim>\<open>gluon.rhai\<close>) has overflow checks and debug
    assertions switched on: an overflowing \<open>+\<close>, \<open>-\<close> or \<open>*\<close>, a failed assertion and an index out
    of range panic. A panic is the value \<^const>\<open>None\<close> of the option monad, so a theorem that an
    operation returns \<^const>\<open>Some\<close> says that it does not panic; on such inputs no overflow
    happens, so the release profile computes the same value.
\<close>

unbundle bit_operations_syntax

type_synonym u8 = "8 word"
type_synonym u16 = "16 word"
type_synonym u32 = "32 word"
type_synonym u64 = "64 word"
type_synonym usize = nat

named_theorems hadron_simps \<open>equations that unfold the model's small operations\<close>
named_theorems panic_free \<open>conditions under which a primitive does not panic\<close>

section \<open>Checked arithmetic\<close>

text \<open>Rust's \<open>+\<close>, \<open>-\<close> and \<open>*\<close> on a fixed-width unsigned type: overflow panics.\<close>

definition chk_add :: "'a::len word \<Rightarrow> 'a word \<Rightarrow> 'a word option" where
  "chk_add x y = (if unat x + unat y < 2 ^ LENGTH('a) then Some (x + y) else None)"

definition chk_sub :: "'a::len word \<Rightarrow> 'a word \<Rightarrow> 'a word option" where
  "chk_sub x y = (if y \<le> x then Some (x - y) else None)"

definition chk_mul :: "'a::len word \<Rightarrow> 'a word \<Rightarrow> 'a word option" where
  "chk_mul x y = (if unat x * unat y < 2 ^ LENGTH('a) then Some (x * y) else None)"

text \<open>The same on \<open>usize\<close> values kept as natural numbers.\<close>

definition us_add :: "usize \<Rightarrow> usize \<Rightarrow> usize option" where
  "us_add a b = (if a + b < 2 ^ 64 then Some (a + b) else None)"

definition us_sub :: "usize \<Rightarrow> usize \<Rightarrow> usize option" where
  "us_sub a b = (if b \<le> a then Some (a - b) else None)"

definition us_mul :: "usize \<Rightarrow> usize \<Rightarrow> usize option" where
  "us_mul a b = (if a * b < 2 ^ 64 then Some (a * b) else None)"

definition assert_that :: "bool \<Rightarrow> unit option" where
  "assert_that b = (if b then Some () else None)"

lemma chk_add_Some_iff [hadron_simps]:
  "chk_add x y = Some z \<longleftrightarrow> unat z = unat x + unat y"
proof
  assume "chk_add x y = Some z"
  then show "unat z = unat x + unat y"
    by (auto simp: chk_add_def unat_word_ariths split: if_splits)
next
  assume a: "unat z = unat x + unat y"
  have "unat x + unat y < 2 ^ LENGTH('a)"
    using unsigned_less [of z, where ?'a = nat] by (simp add: a)
  then have "unat (x + y) = unat z"
    by (simp add: a unat_word_ariths)
  then have "x + y = z" by (simp add: word_unat_eq_iff)
  then show "chk_add x y = Some z"
    using \<open>unat x + unat y < 2 ^ LENGTH('a)\<close> by (simp add: chk_add_def)
qed

lemma chk_sub_Some_iff [hadron_simps]:
  "chk_sub x y = Some z \<longleftrightarrow> unat x = unat z + unat y"
proof
  assume "chk_sub x y = Some z"
  then show "unat x = unat z + unat y"
    by (auto simp: chk_sub_def unat_sub word_le_nat_alt split: if_splits)
next
  assume a: "unat x = unat z + unat y"
  then have le: "y \<le> x" by (simp add: word_le_nat_alt)
  then have "unat (x - y) = unat z" using a by (simp add: unat_sub)
  then have "x - y = z" by (simp add: word_unat_eq_iff)
  with le show "chk_sub x y = Some z" by (simp add: chk_sub_def)
qed

lemma chk_mul_Some_iff [hadron_simps]:
  "chk_mul x y = Some z \<longleftrightarrow> unat z = unat x * unat y"
proof
  assume "chk_mul x y = Some z"
  then show "unat z = unat x * unat y"
    by (auto simp: chk_mul_def unat_word_ariths split: if_splits)
next
  assume a: "unat z = unat x * unat y"
  have lt: "unat x * unat y < 2 ^ LENGTH('a)"
    using unsigned_less [of z, where ?'a = nat] by (simp add: a)
  then have "unat (x * y) = unat z" by (simp add: a unat_word_ariths)
  then have "x * y = z" by (simp add: word_unat_eq_iff)
  with lt show "chk_mul x y = Some z" by (simp add: chk_mul_def)
qed

lemma chk_add_None_iff: "chk_add x (y :: 'a::len word) = None \<longleftrightarrow> 2 ^ LENGTH('a) \<le> unat x + unat y"
  by (simp add: chk_add_def)

lemma us_add_Some_iff [simp]: "us_add a b = Some c \<longleftrightarrow> c = a + b \<and> a + b < 2 ^ 64"
  by (auto simp: us_add_def)

lemma us_sub_Some_iff [simp]: "us_sub a b = Some c \<longleftrightarrow> c = a - b \<and> b \<le> a"
  by (auto simp: us_sub_def)

lemma us_mul_Some_iff [simp]: "us_mul a b = Some c \<longleftrightarrow> c = a * b \<and> a * b < 2 ^ 64"
  by (auto simp: us_mul_def)

lemma assert_that_Some_iff [simp]: "assert_that b = Some u \<longleftrightarrow> b"
  by (simp add: assert_that_def)

lemma assert_that_simps [simp]: "assert_that True = Some ()" "assert_that False = None"
  by (simp_all add: assert_that_def)

lemma us_sub_le [simp, panic_free]: "b \<le> a \<Longrightarrow> us_sub a b = Some (a - b)"
  by (simp add: us_sub_def)

lemma us_add_lt [simp, panic_free]: "a + b < 2 ^ 64 \<Longrightarrow> us_add a b = Some (a + b)"
  by (simp add: us_add_def)

lemma us_mul_lt [simp, panic_free]: "a * b < 2 ^ 64 \<Longrightarrow> us_mul a b = Some (a * b)"
  by (simp add: us_mul_def)

section \<open>Slices and arrays\<close>

text \<open>
  \<open>xs[i]\<close>, \<open>xs[i] = v\<close>, \<open>&xs[a..b]\<close> and \<open>xs[a..b].copy_from_slice(ys)\<close>; each panics out of
  range, and \<open>copy_from_slice\<close> also when the lengths differ.
\<close>

definition idx :: "'a list \<Rightarrow> nat \<Rightarrow> 'a option" where
  "idx xs i = (if i < length xs then Some (xs ! i) else None)"

definition upd_idx :: "'a list \<Rightarrow> nat \<Rightarrow> 'a \<Rightarrow> 'a list option" where
  "upd_idx xs i v = (if i < length xs then Some (xs[i := v]) else None)"

definition slice :: "'a list \<Rightarrow> nat \<Rightarrow> nat \<Rightarrow> 'a list option" where
  "slice xs a b = (if a \<le> b \<and> b \<le> length xs then Some (take (b - a) (drop a xs)) else None)"

definition copy_slice :: "'a list \<Rightarrow> nat \<Rightarrow> nat \<Rightarrow> 'a list \<Rightarrow> 'a list option" where
  "copy_slice xs a b ys =
     (if a \<le> b \<and> b \<le> length xs \<and> length ys = b - a
      then Some (take a xs @ ys @ drop b xs) else None)"

lemma idx_Some_iff [simp]: "idx xs i = Some v \<longleftrightarrow> i < length xs \<and> v = xs ! i"
  by (auto simp: idx_def)

lemma idx_lt [simp, panic_free]: "i < length xs \<Longrightarrow> idx xs i = Some (xs ! i)"
  by simp

lemma upd_idx_Some_iff [simp]: "upd_idx xs i v = Some ys \<longleftrightarrow> i < length xs \<and> ys = xs[i := v]"
  by (auto simp: upd_idx_def)

lemma upd_idx_lt [simp, panic_free]: "i < length xs \<Longrightarrow> upd_idx xs i v = Some (xs[i := v])"
  by simp

lemma slice_length: "slice xs a b = Some ys \<Longrightarrow> length ys = b - a"
  by (auto simp: slice_def split: if_splits)

lemma slice_in_range [simp, panic_free]:
  "a \<le> b \<Longrightarrow> b \<le> length xs \<Longrightarrow> slice xs a b = Some (take (b - a) (drop a xs))"
  by (simp add: slice_def)

lemma copy_slice_length: "copy_slice xs a b ys = Some zs \<Longrightarrow> length zs = length xs"
  by (auto simp: copy_slice_def split: if_splits)

lemma copy_slice_in_range [simp, panic_free]:
  "a \<le> b \<Longrightarrow> b \<le> length xs \<Longrightarrow> length ys = b - a \<Longrightarrow>
   copy_slice xs a b ys = Some (take a xs @ ys @ drop b xs)"
  by (simp add: copy_slice_def)

section \<open>Alignment masks\<close>

lemma unat_and_mask: "unat (x AND mask n :: 'a::len word) = unat x mod 2 ^ n"
  by (simp add: unsigned_take_bit_eq flip: take_bit_eq_mask take_bit_eq_mod)

lemma and_not_mask_eq: "x AND NOT (mask n) = x - take_bit n x" for x :: "'a::len word"
proof -
  have "NOT x AND take_bit n x = 0"
    by (auto simp: bit_eq_iff bit_simps)
  then have "x - take_bit n x = x AND NOT (take_bit n x)"
    by (rule disjunctive_diff_eq_and_not)
  also have "\<dots> = x AND NOT (mask n)"
    by (auto simp: bit_eq_iff bit_simps)
  finally show ?thesis by simp
qed

lemma mod_eq_self_iff_less: "0 < n \<Longrightarrow> a mod n = a \<longleftrightarrow> a < n" for a n :: nat
  by (metis mod_less mod_less_divisor)

lemma unat_power_lower:
  assumes "n < LENGTH('a)" shows "unat (2 ^ n :: 'a::len word) = 2 ^ n"
proof -
  have "unat (of_nat (2 ^ n) :: 'a word) = 2 ^ n"
    using assms by (simp only: unsigned_of_nat take_bit_nat_eq_self power_strict_increasing_iff) simp
  then show ?thesis by simp
qed

lemma unat_add_below:
  fixes x y z :: "'a::len word"
  assumes "unat x + unat y \<le> unat z" shows "unat (x + y) = unat x + unat y"
  by (rule unat_add_lem [THEN iffD1, OF le_less_trans [OF assms unsigned_less]])

lemma chk_mul_1 [simp]: "chk_mul 1 x = Some x"
  by (simp add: chk_mul_Some_iff)

lemma bind_Some_eq_map: "Option.bind x (\<lambda>y. Some (f y)) = map_option f x"
  by (cases x) simp_all

lemma unat_drop_bit: "unat (drop_bit n (x :: 'a::len word)) = unat x div 2 ^ n"
  by (simp add: unsigned_drop_bit_eq take_bit_nat_eq_self flip: drop_bit_eq_div)

lemma unat_NOT: "unat (NOT (x :: 'a::len word)) = 2 ^ LENGTH('a) - 1 - unat x"
proof -
  have c: "NOT x = - 1 - x" unfolding not_eq_complement by (rule minus_diff_commute)
  have "x \<le> - 1" by (rule word_order.extremum)
  then have "unat (- 1 - x) = unat (- 1 :: 'a word) - unat x" by (rule unat_sub)
  then show ?thesis unfolding c by (simp only: unsigned_minus_1_eq_mask mask_eq_exp_minus_1)
qed

lemma unat_and_not_mask: "unat (x AND NOT (mask n) :: 'a::len word) = unat x - unat x mod 2 ^ n"
proof -
  have "take_bit n x \<le> x"
    by (simp add: word_le_nat_alt unsigned_take_bit_eq)
  then show ?thesis
    by (simp add: and_not_mask_eq unat_sub unsigned_take_bit_eq flip: take_bit_eq_mod)
qed

lemma mod_dvd_sub: "(2 :: nat) ^ n dvd a - a mod 2 ^ n"
  by (simp add: minus_mod_eq_mult_div)


lemma bit_or_exp:
  "bit (w OR 2 ^ b) n \<longleftrightarrow> bit w n \<or> n = b \<and> b < LENGTH('a)" for w :: "'a::len word"
  by (auto simp: bit_or_iff bit_exp_iff dest: bit_imp_le_length)

lemma bit_and_not_exp:
  "bit (w AND NOT (2 ^ b)) n \<longleftrightarrow> bit w n \<and> n \<noteq> b" for w :: "'a::len word"
  by (auto simp: bit_and_iff bit_not_iff bit_exp_iff dest: bit_imp_le_length)

lemma unat_of_nat_lt: "n < 2 ^ LENGTH('a) \<Longrightarrow> unat (of_nat n :: 'a::len word) = n"
  by (simp add: unsigned_of_nat take_bit_nat_eq_self)

lemma div_mod_inj: "i div n = j div n \<Longrightarrow> i mod n = j mod n \<Longrightarrow> i = j" for i j n :: nat
  by (metis div_mult_mod_eq)

lemma word_all_ones_iff: "w = - 1 \<longleftrightarrow> (\<forall>n < LENGTH('a). bit w n)" for w :: "'a::len word"
  by (auto simp: bit_eq_iff)

lemma word_zero_iff: "w = 0 \<longleftrightarrow> (\<forall>n < LENGTH('a). \<not> bit w n)" for w :: "'a::len word"
  by (auto simp: bit_eq_iff dest: bit_imp_le_length)

end
