(* ===== verification/Heap.thy ===== *)
theory Heap
  imports Hadron_Prelude
begin

text \<open>
  The kernel heap of \<^verbatim>\<open>kernel/mm/src/heap.rs\<close>: a first-fit allocator on an address-sorted linked list of
  free blocks whose headers live in the free memory itself. \<open>heap\<close> is the allocator's state together
  with the headers in memory, a function from addresses to headers; the null pointer is address 0.
  Every operation runs under the allocator's spin lock, and calls are not interleaved. The model is of the default configuration,
  without red zones and allocation statistics. The lemmas show that the list operations refine
  operations on a list of intervals, that allocations are aligned, come out of free memory and
  lose a bounded number of bytes to alignment, and that deallocation gives back exactly its bytes.
\<close>

section \<open>The code\<close>

definition MIN_BLOCK_SIZE :: usize where "MIN_BLOCK_SIZE = 32"
definition BLOCK_ALIGN :: usize where "BLOCK_ALIGN = 16"

record free_block =
  fb_size :: usize
  fb_next :: usize

record heap =
  head :: usize
  heap_start :: usize
  heap_end :: usize
  allocated_bytes :: usize
  headers :: "usize \<Rightarrow> free_block"

definition heap_new :: "(usize \<Rightarrow> free_block) \<Rightarrow> heap" where
  "heap_new m = \<lparr>head = 0, heap_start = 0, heap_end = 0, allocated_bytes = 0, headers = m\<rparr>"

definition set_block :: "usize \<Rightarrow> usize \<Rightarrow> usize \<Rightarrow> heap \<Rightarrow> heap" where
  "set_block a n nx h = h\<lparr>headers := (headers h)(a := \<lparr>fb_size = n, fb_next = nx\<rparr>)\<rparr>"

definition set_next :: "usize \<Rightarrow> usize \<Rightarrow> heap \<Rightarrow> heap" where
  "set_next a nx h = set_block a (fb_size (headers h a)) nx h"

definition heap_init :: "heap \<Rightarrow> usize \<Rightarrow> usize \<Rightarrow> heap option" where
  "heap_init h start n =
     do { assert_that (head h = 0);
          assert_that (MIN_BLOCK_SIZE \<le> n);
          e \<leftarrow> us_add start n;
          Some ((set_block start n 0 h)\<lparr>head := start, heap_start := start, heap_end := e\<rparr>) }"

definition heap_align_up :: "usize \<Rightarrow> usize \<Rightarrow> usize option" where
  "heap_align_up addr align =
     do { t \<leftarrow> us_add addr align;
          t \<leftarrow> us_sub t 1;
          m \<leftarrow> us_sub align 1;
          Some (unat ((of_nat t :: u64) AND NOT (of_nat m))) }"

text \<open>The search for the insertion point: \<open>prev\<close> and \<open>current\<close> of the source.\<close>

partial_function (option) insert_find :: "heap \<Rightarrow> usize \<Rightarrow> usize \<Rightarrow> usize \<Rightarrow> (usize \<times> usize) option" where
  "insert_find h a prev cur =
     (if cur \<noteq> 0 \<and> cur < a then insert_find h a cur (fb_next (headers h cur)) else Some (prev, cur))"

text \<open>The part of \<^verbatim>\<open>insert_and_coalesce\<close> for a block that does not touch its predecessor.\<close>

definition link_block :: "heap \<Rightarrow> usize \<Rightarrow> usize \<Rightarrow> usize \<Rightarrow> heap option" where
  "link_block h block prev cur =
     do { let n = fb_size (headers h block);
          h \<leftarrow> (if cur \<noteq> 0
                 then do {
                   e \<leftarrow> us_add block n;
                   if e = cur
                   then do { n \<leftarrow> us_add n (fb_size (headers h cur));
                             Some (set_block block n (fb_next (headers h cur)) h) }
                   else Some (set_next block cur h) }
                 else Some (set_next block 0 h));
          Some (if prev = 0 then h\<lparr>head := block\<rparr> else set_next prev block h) }"

definition insert_and_coalesce :: "heap \<Rightarrow> usize \<Rightarrow> heap option" where
  "insert_and_coalesce h block =
     do { let n = fb_size (headers h block);
          (prev, cur) \<leftarrow> insert_find h block 0 (head h);
          if prev \<noteq> 0
          then do {
            prev_end \<leftarrow> us_add prev (fb_size (headers h prev));
            if prev_end = block
            then do {
              k \<leftarrow> us_add (fb_size (headers h prev)) n;
              let h = set_block prev k (fb_next (headers h prev)) h;
              merged_end \<leftarrow> us_add prev k;
              if cur \<noteq> 0 \<and> merged_end = cur
              then do { k \<leftarrow> us_add k (fb_size (headers h cur));
                        Some (set_block prev k (fb_next (headers h cur)) h) }
              else Some h }
            else link_block h block prev cur }
          else link_block h block prev cur }"

definition add_free_region :: "heap \<Rightarrow> usize \<Rightarrow> usize \<Rightarrow> heap option" where
  "add_free_region h addr n =
     do { assert_that (MIN_BLOCK_SIZE \<le> n);
          assert_that (addr mod BLOCK_ALIGN = 0);
          insert_and_coalesce (set_block addr n 0 h) addr }"

text \<open>The part of \<^verbatim>\<open>find_first_fit\<close> for a block that is large enough.\<close>

definition take_block :: "heap \<Rightarrow> usize \<Rightarrow> usize \<Rightarrow> usize \<Rightarrow> usize \<Rightarrow> heap option" where
  "take_block h prev cur alloc_start n =
     do { let block_size = fb_size (headers h cur);
          let next = fb_next (headers h cur);
          let h = (if prev = 0 then h\<lparr>head := next\<rparr> else set_next prev next h);
          front_padding \<leftarrow> us_sub alloc_start cur;
          h \<leftarrow> (if MIN_BLOCK_SIZE \<le> front_padding
                 then insert_and_coalesce (set_block cur front_padding 0 h) cur else Some h);
          used_size \<leftarrow> us_add front_padding n;
          remainder \<leftarrow> us_sub block_size used_size;
          if MIN_BLOCK_SIZE \<le> remainder
          then do {
            rem_addr \<leftarrow> us_add alloc_start n;
            rem_aligned \<leftarrow> heap_align_up rem_addr BLOCK_ALIGN;
            e \<leftarrow> us_add cur block_size;
            rem_size \<leftarrow> us_sub e rem_aligned;
            if MIN_BLOCK_SIZE \<le> rem_size then add_free_region h rem_aligned rem_size else Some h }
          else Some h }"

partial_function (option) first_fit_loop ::
  "heap \<Rightarrow> usize \<Rightarrow> usize \<Rightarrow> usize \<Rightarrow> usize \<Rightarrow> ((usize \<times> usize) option \<times> heap) option" where
  "first_fit_loop h n align prev cur =
     (if cur = 0 then Some (None, h)
      else do {
        alloc_start \<leftarrow> heap_align_up cur align;
        if 2 ^ 64 \<le> alloc_start + n then Some (None, h)
        else do {
          block_end \<leftarrow> us_add cur (fb_size (headers h cur));
          if alloc_start + n \<le> block_end
          then do { h \<leftarrow> take_block h prev cur alloc_start n; Some (Some (alloc_start, n), h) }
          else first_fit_loop h n align cur (fb_next (headers h cur)) } })"

definition find_first_fit :: "heap \<Rightarrow> usize \<Rightarrow> usize \<Rightarrow> ((usize \<times> usize) option \<times> heap) option" where
  "find_first_fit h n align = first_fit_loop h n align 0 (head h)"

text \<open>
  \<^verbatim>\<open>GlobalAlloc::alloc\<close>; the null pointer is 0. \<open>grow\<close> is the registered callback, if any. The code
  releases the heap lock while the callback runs; here no other CPU uses the heap in that window.
\<close>

definition heap_alloc ::
  "(usize \<Rightarrow> (usize \<times> usize) option) option \<Rightarrow> heap \<Rightarrow> usize \<Rightarrow> usize \<Rightarrow> (usize \<times> heap) option" where
  "heap_alloc grow h layout_size layout_align =
     do { let n = max layout_size MIN_BLOCK_SIZE;
          let align = max layout_align BLOCK_ALIGN;
          (r, h) \<leftarrow> find_first_fit h n align;
          case r of
            Some (addr, k) \<Rightarrow>
              do { b \<leftarrow> us_add (allocated_bytes h) k; Some (addr, h\<lparr>allocated_bytes := b\<rparr>) }
          | None \<Rightarrow>
              (case grow of
                 None \<Rightarrow> Some (0, h)
               | Some f \<Rightarrow>
                   (case f (max n (64 * 1024)) of
                      None \<Rightarrow> Some (0, h)
                    | Some (p, actual) \<Rightarrow> do {
                        h \<leftarrow> add_free_region h p actual;
                        e \<leftarrow> us_add p actual;
                        let h = h\<lparr>heap_end := max (heap_end h) e\<rparr>;
                        (r, h) \<leftarrow> find_first_fit h n align;
                        case r of
                          Some (addr, k) \<Rightarrow>
                            do { b \<leftarrow> us_add (allocated_bytes h) k; Some (addr, h\<lparr>allocated_bytes := b\<rparr>) }
                        | None \<Rightarrow> Some (0, h) })) }"

definition heap_dealloc :: "heap \<Rightarrow> usize \<Rightarrow> usize \<Rightarrow> heap option" where
  "heap_dealloc h p layout_size =
     do { let n = max layout_size MIN_BLOCK_SIZE;
          b \<leftarrow> us_sub (allocated_bytes h) n;
          add_free_region (h\<lparr>allocated_bytes := b\<rparr>) p n }"

section \<open>Free lists as lists of intervals\<close>

type_synonym blocks = "(nat \<times> nat) list"

text \<open>\<open>segment m p bs q\<close>: following the headers from \<open>p\<close> visits the blocks \<open>bs\<close> and arrives at \<open>q\<close>.\<close>

fun segment :: "(usize \<Rightarrow> free_block) \<Rightarrow> usize \<Rightarrow> blocks \<Rightarrow> usize \<Rightarrow> bool" where
  "segment m p [] q \<longleftrightarrow> p = q"
| "segment m p ((a, n) # bs) q \<longleftrightarrow> p = a \<and> a \<noteq> 0 \<and> fb_size (m a) = n \<and> segment m (fb_next (m a)) bs q"

text \<open>Aligned blocks of at least 32 bytes above \<open>lo\<close>, in order, no two of them adjacent.\<close>

fun blocks_ok :: "nat \<Rightarrow> blocks \<Rightarrow> bool" where
  "blocks_ok lo [] \<longleftrightarrow> True"
| "blocks_ok lo ((a, n) # bs) \<longleftrightarrow> lo < a \<and> 16 dvd a \<and> 32 \<le> n \<and> a + n < 2 ^ 64 \<and> blocks_ok (a + n) bs"

definition span :: "blocks \<Rightarrow> nat set" where
  "span bs = (\<Union>(a, n) \<in> set bs. {a..<a + n})"

definition ptr :: "blocks \<Rightarrow> usize" where
  "ptr bs = (case bs of [] \<Rightarrow> 0 | (a, n) # _ \<Rightarrow> a)"

fun block_end :: "nat \<Rightarrow> blocks \<Rightarrow> nat" where
  "block_end lo [] = lo"
| "block_end lo ((a, n) # bs) = block_end (a + n) bs"

definition heap_inv :: "heap \<Rightarrow> blocks \<Rightarrow> bool" where
  "heap_inv h bs \<longleftrightarrow> segment (headers h) (head h) bs 0 \<and> blocks_ok 0 bs"

lemma span_simps [simp]:
  "span [] = {}" "span ((a, n) # bs) = {a..<a + n} \<union> span bs" "span (ps @ qs) = span ps \<union> span qs"
  by (auto simp: span_def)

lemma ptr_simps [simp]: "ptr [] = 0" "ptr ((a, n) # bs) = a"
  by (simp_all add: ptr_def)

lemma segment_append: "segment m p (ps @ qs) r \<longleftrightarrow> (\<exists>q. segment m p ps q \<and> segment m q qs r)"
  by (induction m p ps r rule: segment.induct) auto

lemma segment_ptr: "segment m p bs 0 \<Longrightarrow> p = ptr bs"
  by (cases bs) auto

lemma segment_upd: "a \<notin> fst ` set bs \<Longrightarrow> segment (m(a := b)) p bs q = segment m p bs q"
  by (induction m p bs q rule: segment.induct) auto

lemma blocks_ok_append: "blocks_ok lo (ps @ qs) \<longleftrightarrow> blocks_ok lo ps \<and> blocks_ok (block_end lo ps) qs"
  by (induction lo ps rule: blocks_ok.induct) auto

lemma blocks_ok_weaken: "blocks_ok lo bs \<Longrightarrow> lo' \<le> lo \<Longrightarrow> blocks_ok lo' bs"
  by (cases bs) auto

lemma block_end_append [simp]: "block_end lo (ps @ qs) = block_end (block_end lo ps) qs"
  by (induction lo ps rule: block_end.induct) auto

lemma blocks_above: "blocks_ok lo bs \<Longrightarrow> (a, n) \<in> set bs \<Longrightarrow> lo < a \<and> a + n < 2 ^ 64 \<and> 32 \<le> n \<and> 16 dvd a"
  by (induction lo bs rule: blocks_ok.induct) auto

lemma block_end_ge: "blocks_ok lo bs \<Longrightarrow> lo \<le> block_end lo bs"
  by (induction lo bs rule: blocks_ok.induct) auto

lemma blocks_below: "blocks_ok lo bs \<Longrightarrow> (a, n) \<in> set bs \<Longrightarrow> a + n \<le> block_end lo bs"
proof (induction lo bs rule: blocks_ok.induct)
  case (2 lo b k bs)
  then show ?case using block_end_ge [of "b + k" bs] by auto
qed simp

text \<open>The place of a block that overlaps no free block.\<close>

lemma insertion_point:
  assumes "blocks_ok lo bs" "{a..<a + n} \<inter> span bs = {}" "0 < n" "lo \<le> a"
  obtains ps qs where "bs = ps @ qs" "blocks_ok lo ps" "block_end lo ps \<le> a"
    "\<And>b k. (b, k) \<in> set ps \<Longrightarrow> b < a" "qs = [] \<or> a + n \<le> ptr qs"
proof -
  have "\<exists>ps qs. bs = ps @ qs \<and> blocks_ok lo ps \<and> block_end lo ps \<le> a \<and>
    (\<forall>(b, k) \<in> set ps. b < a) \<and> (qs = [] \<or> a + n \<le> ptr qs)"
    using assms
  proof (induction lo bs rule: blocks_ok.induct)
    case (2 lo b k bs)
    show ?case
    proof (cases "b < a")
      case True
      have "b + k \<le> a"
      proof (rule ccontr)
        assume "\<not> b + k \<le> a"
        then have "a \<in> {a..<a + n} \<inter> span ((b, k) # bs)" using True 2(4) by simp
        then show False using 2(3) by blast
      qed
      moreover have "{a..<a + n} \<inter> span bs = {}" using 2(3) by auto
      ultimately obtain ps qs where "bs = ps @ qs" "blocks_ok (b + k) ps" "block_end (b + k) ps \<le> a"
        "\<forall>(b, k) \<in> set ps. b < a" "qs = [] \<or> a + n \<le> ptr qs"
        using 2(1,2,4) by auto
      then show ?thesis using True 2(2) by (intro exI [of _ "(b, k) # ps"] exI [of _ qs]) auto
    next
      case False
      have "a + n \<le> b"
      proof (rule ccontr)
        assume "\<not> a + n \<le> b"
        then have "b \<in> {a..<a + n} \<inter> span ((b, k) # bs)" using False 2(2) by simp
        then show False using 2(3) by blast
      qed
      then show ?thesis using 2(5) by (intro exI [of _ "[]"] exI [of _ "(b, k) # bs"]) simp
    qed
  qed simp
  then show ?thesis using that by blast
qed

lemma insert_find_split:
  assumes "segment (headers h) p (ps @ qs) 0" "\<And>b k. (b, k) \<in> set ps \<Longrightarrow> b < a" "qs = [] \<or> a \<le> ptr qs"
  shows "insert_find h a prev p = Some (if ps = [] then prev else fst (last ps), ptr qs)"
  using assms(1,2)
proof (induction ps arbitrary: p prev)
  case Nil
  then have "p = ptr qs" using segment_ptr by simp
  then show ?case using assms(3) by (subst insert_find.simps) auto
next
  case (Cons x ps)
  obtain b k where x: "x = (b, k)" by (cases x)
  have b: "b < a" "b \<noteq> 0" "p = b" and seg: "segment (headers h) (fb_next (headers h b)) (ps @ qs) 0"
    using Cons(2,3) x by auto
  have "insert_find h a b (fb_next (headers h b)) = Some (if ps = [] then b else fst (last ps), ptr qs)"
    by (rule Cons(1) [OF seg]) (use Cons(3) in auto)
  then show ?case using b x by (subst insert_find.simps) simp
qed

lemma blocks_distinct: "blocks_ok lo bs \<Longrightarrow> distinct (map fst bs)"
proof (induction lo bs rule: blocks_ok.induct)
  case (2 lo a n bs)
  have "a \<notin> fst ` set bs" using blocks_above [of "a + n" bs] 2(2) by fastforce
  then show ?case using 2 by simp
qed simp

lemma blocks_after: "blocks_ok lo bs \<Longrightarrow> (b, k) \<in> set bs \<Longrightarrow> ptr bs \<le> b"
  using blocks_above [of _ "tl bs" b k] by (cases bs) fastforce+

lemma last_block_nonnull: "blocks_ok 0 bs \<Longrightarrow> (if bs = [] then 0 else fst (last bs)) = 0 \<longleftrightarrow> bs = []"
  using blocks_above [of 0 bs "fst (last bs)" "snd (last bs)"] by auto

text \<open>Rewriting the header of a block in the middle of a list, and linking a new tail to a prefix.\<close>

lemma segment_relink:
  assumes "segment m p (ps @ (b, k) # qs) 0" "segment m q rest 0" "b \<notin> fst ` set (ps @ rest)"
  shows "segment (m(b := \<lparr>fb_size = k', fb_next = q\<rparr>)) p (ps @ (b, k') # rest) 0"
  using assms by (auto simp: segment_append segment_upd image_Un)

lemma link_tail:
  assumes "segment (headers h) (head h) (ps @ qs) 0" "segment (headers h) a rest 0"
    and "distinct (map fst (ps @ rest))"
  defines "h' \<equiv> if ps = [] then h\<lparr>head := a\<rparr> else set_next (fst (last ps)) a h"
  shows "segment (headers h') (head h') (ps @ rest) 0"
proof (cases ps rule: rev_cases)
  case Nil
  then show ?thesis using assms(2) by (simp add: h'_def)
next
  case (snoc ps' x)
  obtain b k where x: "x = (b, k)" by (cases x)
  have "fb_size (headers h b) = k" using assms(1) snoc x by (auto simp: segment_append)
  then have h': "headers h' = (headers h)(b := \<lparr>fb_size = k, fb_next = a\<rparr>)" "head h' = head h"
    using snoc x by (simp_all add: h'_def set_next_def set_block_def)
  have "b \<notin> fst ` set (ps' @ rest)" using assms(3) snoc x by auto
  then show ?thesis
    using segment_relink [of "headers h" "head h" ps' b k qs a rest k] assms(1,2) snoc x
    unfolding h' by simp
qed

text \<open>What insertion leaves alone.\<close>

definition same_region :: "heap \<Rightarrow> heap \<Rightarrow> bool" where
  "same_region h h' \<longleftrightarrow> heap_start h' = heap_start h \<and> heap_end h' = heap_end h \<and>
     allocated_bytes h' = allocated_bytes h"

lemma set_block_simps [simp]:
  "headers (set_block a n q h) = (headers h)(a := \<lparr>fb_size = n, fb_next = q\<rparr>)" "head (set_block a n q h) = head h"
  "same_region h (set_block a n q h)" "same_region h (set_next a q h)" "same_region h (h\<lparr>head := p\<rparr>)"
  by (simp_all add: set_block_def set_next_def same_region_def)

lemma same_region_trans: "same_region h h1 \<Longrightarrow> same_region h1 h2 \<Longrightarrow> same_region h h2"
  by (simp add: same_region_def)

text \<open>Writing a block between a prefix and a tail and linking it to the prefix.\<close>

lemma place_block:
  assumes "segment (headers h) (head h) (ps @ qs) 0" "segment (headers h) q rest 0"
    and "blocks_ok 0 ps" "block_end 0 ps < a" "16 dvd a" "32 \<le> k" "a + k < 2 ^ 64" "blocks_ok (a + k) rest"
    and "a \<notin> fst ` set qs"
  defines "prev \<equiv> if ps = [] then 0 else fst (last ps)" and "h1 \<equiv> set_block a k q h"
  defines "h' \<equiv> if prev = 0 then h1\<lparr>head := a\<rparr> else set_next prev a h1"
  shows "segment (headers h') (head h') (ps @ (a, k) # rest) 0 \<and> blocks_ok 0 (ps @ (a, k) # rest) \<and> same_region h h'"
proof -
  have ok: "blocks_ok 0 (ps @ (a, k) # rest)" using assms(3-8) by (simp add: blocks_ok_append)
  then have d: "distinct (map fst (ps @ (a, k) # rest))" by (rule blocks_distinct)
  have "segment (headers h1) (head h1) (ps @ qs) 0"
    using assms(1,9) d by (auto simp: h1_def segment_upd image_Un)
  moreover have "segment (headers h1) a ((a, k) # rest) 0"
    using assms(2,4) d by (auto simp: h1_def segment_upd)
  ultimately have "segment (headers (if ps = [] then h1\<lparr>head := a\<rparr> else set_next (fst (last ps)) a h1))
      (head (if ps = [] then h1\<lparr>head := a\<rparr> else set_next (fst (last ps)) a h1)) (ps @ (a, k) # rest) 0"
    using d by (rule link_tail)
  moreover have "prev = 0 \<longleftrightarrow> ps = []"
    unfolding prev_def by (rule last_block_nonnull [OF assms(3)])
  ultimately have "segment (headers h') (head h') (ps @ (a, k) # rest) 0"
    unfolding h'_def prev_def by (simp split: if_splits)
  moreover have "same_region h h'"
    unfolding h'_def h1_def by (auto intro: same_region_trans [of h "set_block a k q h"])
  ultimately show ?thesis using ok by simp
qed

lemma link_block_spec:
  assumes "segment (headers h) (head h) (ps @ qs) 0" "blocks_ok 0 (ps @ qs)"
    and "fb_size (headers h a) = n" "16 dvd a" "32 \<le> n" "a + n < 2 ^ 64" "block_end 0 ps < a"
    and "qs = [] \<or> a + n \<le> ptr qs"
  obtains h' bs' where "link_block h a (if ps = [] then 0 else fst (last ps)) (ptr qs) = Some h'"
    "heap_inv h' bs'" "span bs' = span (ps @ qs) \<union> {a..<a + n}" "same_region h h'"
proof -
  have ok: "blocks_ok 0 ps" "blocks_ok (block_end 0 ps) qs" using assms(2) by (simp_all add: blocks_ok_append)
  have a: "a \<notin> fst ` set qs"
    using assms(5,8) blocks_after [OF ok(2)] by fastforce
  have seg: "segment (headers h) (ptr qs) qs 0"
    using assms(1) segment_ptr by (auto simp: segment_append)
  show ?thesis
  proof (cases "qs \<noteq> [] \<and> a + n = ptr qs")
    case True
    then obtain c j qs' where qs: "qs = (c, j) # qs'" "a + n = c" by (cases qs) auto
    let ?q = "fb_next (headers h c)"
    have c: "fb_size (headers h c) = j" "segment (headers h) ?q qs' 0" "c \<noteq> 0" using seg qs by auto
    have j: "c + j < 2 ^ 64" "blocks_ok (c + j) qs'" using ok(2) qs by auto
    have e: "c + j = a + (n + j)" using qs(2) by simp
    note p = place_block [OF assms(1) c(2) ok(1) assms(7,4) _ _ _ a, of "n + j"]
    show ?thesis
      by (rule that) (use p assms(3,5,6) qs c j e in \<open>auto simp: link_block_def heap_inv_def\<close>)
  next
    case False
    have b: "blocks_ok (a + n) qs" "qs \<noteq> [] \<Longrightarrow> ptr qs \<noteq> 0 \<and> a + n \<noteq> ptr qs"
      using False assms(8) ok(2) by (cases qs; force)+
    have "set_next a (ptr qs) h = set_block a n (ptr qs) h" using assms(3) by (simp add: set_next_def)
    then have l: "link_block h a (if ps = [] then 0 else fst (last ps)) (ptr qs) =
      Some (let h1 = set_block a n (ptr qs) h; prev = (if ps = [] then 0 else fst (last ps)) in
        if prev = 0 then h1\<lparr>head := a\<rparr> else set_next prev a h1)"
      using b(2) assms(3,6) by (cases "qs = []") (simp_all add: link_block_def Let_def)
    show ?thesis
      by (rule that [OF l, of "ps @ (a, n) # qs"]) (use place_block [OF assms(1) seg ok(1) assms(7,4,5,6) b(1) a] in
        \<open>auto simp: heap_inv_def Let_def\<close>)
  qed
qed

text \<open>Inserting a region adds exactly its addresses to the free list and keeps it sorted and coalesced.\<close>

lemma merge_prev:
  assumes "heap_inv h (ps @ (p, k) # qs)" "p + k = a" "fb_size (headers h a) = n" "32 \<le> n" "a + n < 2 ^ 64"
    and "qs = [] \<or> a + n \<le> ptr qs"
    and find: "insert_find h a 0 (head h) = Some (p, ptr qs)"
  obtains h' bs' where "insert_and_coalesce h a = Some h'" "heap_inv h' bs'"
    "span bs' = span (ps @ (p, k) # qs) \<union> {a..<a + n}" "same_region h h'"
proof -
  have ok: "blocks_ok 0 ps" "block_end 0 ps < p" "16 dvd p" "32 \<le> k" "blocks_ok (p + k) qs"
    using assms(1) by (simp_all add: heap_inv_def blocks_ok_append)
  have seg: "segment (headers h) (ptr qs) qs 0" "fb_size (headers h p) = k" "fb_next (headers h p) = ptr qs" "p \<noteq> 0"
    using assms(1) segment_ptr by (auto simp: heap_inv_def segment_append)
  have d: "distinct (map fst (ps @ (p, k) # qs))" using assms(1) unfolding heap_inv_def by (blast intro: blocks_distinct)
  have pre: "segment (headers h) (head h) (ps @ (p, k) # qs) 0" using assms(1) by (simp add: heap_inv_def)
  show ?thesis
  proof (cases "qs \<noteq> [] \<and> a + n = ptr qs")
    case True
    then obtain c j qs' where qs: "qs = (c, j) # qs'" "a + n = c" by (cases qs) auto
    let ?q = "fb_next (headers h c)"
    let ?h' = "set_block p (k + n + j) ?q (set_block p (k + n) (ptr qs) h)"
    have c: "fb_size (headers h c) = j" "segment (headers h) ?q qs' 0" "c \<noteq> 0" "c \<noteq> p" using seg qs ok(4) assms(2) by auto
    have j: "c + j < 2 ^ 64" "blocks_ok (c + j) qs'" using ok(5) qs by auto
    have e: "p + (k + n + j) = c + j" using qs(2) assms(2) by simp
    have run: "insert_and_coalesce h a = Some ?h'"
      using find seg assms(2,3,5) c qs j e by (simp add: insert_and_coalesce_def)
    have "segment (headers ?h') (head ?h') (ps @ (p, k + n + j) # qs') 0"
      using segment_relink [OF pre c(2), of "k + n + j"] d qs by auto
    moreover have "blocks_ok 0 (ps @ (p, k + n + j) # qs')"
      using ok j unfolding blocks_ok_append blocks_ok.simps e by simp
    ultimately show ?thesis
      by (intro that [OF run, of "ps @ (p, k + n + j) # qs'"]) (use qs assms(2) in \<open>auto simp: heap_inv_def same_region_def set_block_def\<close>)
  next
    case False
    let ?h' = "set_block p (k + n) (ptr qs) h"
    have run: "insert_and_coalesce h a = Some ?h'"
      using find seg assms(2,3,5) False ok(5) by (cases qs) (auto simp: insert_and_coalesce_def)
    have "segment (headers ?h') (head ?h') (ps @ (p, k + n) # qs) 0"
      using segment_relink [OF pre seg(1), of "k + n"] d by auto
    moreover have "blocks_ok 0 (ps @ (p, k + n) # qs)"
      using ok assms(2,5,6) False by (cases qs) (auto simp: blocks_ok_append)
    ultimately show ?thesis
      by (intro that [OF run, of "ps @ (p, k + n) # qs"]) (use assms(2) in \<open>auto simp: heap_inv_def\<close>)
  qed
qed

lemma insert_and_coalesce_spec:
  assumes "heap_inv h bs" "fb_size (headers h a) = n" "16 dvd a" "0 < a" "32 \<le> n" "a + n < 2 ^ 64"
    and "{a..<a + n} \<inter> span bs = {}"
  obtains h' bs' where "insert_and_coalesce h a = Some h'" "heap_inv h' bs'"
    "span bs' = span bs \<union> {a..<a + n}" "same_region h h'"
proof -
  have inv: "segment (headers h) (head h) bs 0" "blocks_ok 0 bs" using assms(1) by (simp_all add: heap_inv_def)
  obtain ps qs where bs: "bs = ps @ qs" and ps: "blocks_ok 0 ps" "block_end 0 ps \<le> a"
      "\<And>b k. (b, k) \<in> set ps \<Longrightarrow> b < a" and qs: "qs = [] \<or> a + n \<le> ptr qs"
    by (rule insertion_point [OF inv(2) assms(7)]) (use assms(4,5) in auto)
  have find: "insert_find h a 0 (head h) = Some (if ps = [] then 0 else fst (last ps), ptr qs)"
    by (rule insert_find_split) (use inv(1) bs ps(3) qs in auto)
  show ?thesis
  proof (cases "block_end 0 ps = a")
    case True
    then obtain ps' p k where p: "ps = ps' @ [(p, k)]" using assms(4) by (cases ps rule: rev_cases) auto
    have pk: "p + k = a" using True p by simp
    have inv': "heap_inv h (ps' @ (p, k) # qs)" using assms(1) bs p by simp
    have find': "insert_find h a 0 (head h) = Some (p, ptr qs)" using find p by simp
    show ?thesis
      by (rule merge_prev [OF inv' pk assms(2,5,6) qs find'], rule that) (simp_all add: bs p)
  next
    case False
    then have lt: "block_end 0 ps < a" using ps(2) by simp
    have "\<And>p k ps'. ps = ps' @ [(p, k)] \<Longrightarrow> p \<noteq> 0 \<and> fb_size (headers h p) = k \<and> p + k < a"
      using lt inv(1) bs by (auto simp: segment_append)
    then have run: "insert_and_coalesce h a = link_block h a (if ps = [] then 0 else fst (last ps)) (ptr qs)"
      using find assms(6) by (cases ps rule: rev_cases) (auto simp: insert_and_coalesce_def)
    note l = link_block_spec [OF inv [unfolded bs] assms(2,3,5,6) lt qs]
    show ?thesis by (rule l, rule that) (simp_all add: run bs)
  qed
qed

lemma heap_inv_outside:
  assumes "heap_inv h bs" "{a..<a + n} \<inter> span bs = {}" "0 < n"
  shows "heap_inv (set_block a n q h) bs"
proof -
  have "a \<notin> fst ` set bs"
  proof
    assume "a \<in> fst ` set bs"
    then obtain k where k: "(a, k) \<in> set bs" by auto
    then have "32 \<le> k" using assms(1) blocks_above [of 0 bs a k] by (simp add: heap_inv_def)
    then have "a \<in> {a..<a + n} \<inter> span bs" using k assms(3) by (auto simp: span_def intro!: bexI [of _ "(a, k)"])
    then show False using assms(2) by blast
  qed
  then show ?thesis using assms(1) by (simp add: heap_inv_def segment_upd)
qed

lemma insert_region:
  assumes "heap_inv h bs" "16 dvd a" "0 < a" "32 \<le> n" "a + n < 2 ^ 64" "{a..<a + n} \<inter> span bs = {}"
  obtains h' bs' where "insert_and_coalesce (set_block a n 0 h) a = Some h'" "heap_inv h' bs'"
    "span bs' = span bs \<union> {a..<a + n}" "same_region h h'"
proof -
  have inv: "heap_inv (set_block a n 0 h) bs" using assms by (intro heap_inv_outside) auto
  have "fb_size (headers (set_block a n 0 h) a) = n" by simp
  note ins = insert_and_coalesce_spec [OF inv this assms(2-6)]
  show ?thesis
    by (rule ins, rule that) (auto intro: same_region_trans [of h "set_block a n 0 h"])
qed

lemma add_free_region_spec:
  assumes "heap_inv h bs" "16 dvd a" "0 < a" "32 \<le> n" "a + n < 2 ^ 64" "{a..<a + n} \<inter> span bs = {}"
  obtains h' bs' where "add_free_region h a n = Some h'" "heap_inv h' bs'"
    "span bs' = span bs \<union> {a..<a + n}" "same_region h h'"
  by (rule insert_region [OF assms], rule that)
    (use assms(2,4) in \<open>simp_all add: add_free_region_def MIN_BLOCK_SIZE_def BLOCK_ALIGN_def mod_eq_0_iff_dvd\<close>)

lemma heap_init_inv:
  assumes "16 dvd start" "0 < start" "32 \<le> n" "start + n < 2 ^ 64"
  shows "\<exists>h. heap_init (heap_new m) start n = Some h \<and> heap_inv h [(start, n)]"
  using assms by (simp add: heap_init_def heap_new_def heap_inv_def set_block_def MIN_BLOCK_SIZE_def)

section \<open>First fit\<close>

definition round_up :: "nat \<Rightarrow> nat \<Rightarrow> nat" where
  "round_up a m = (a + m - 1) - (a + m - 1) mod m"

lemma round_up_bounds: "0 < m \<Longrightarrow> a \<le> round_up a m \<and> round_up a m < a + m \<and> m dvd round_up a m"
proof -
  assume m: "0 < m"
  have "(a + m - 1) mod m < m" "(a + m - 1) mod m \<le> a + m - 1" using m by simp_all
  then show ?thesis unfolding round_up_def using m dvd_minus_mod [of m "a + m - 1"] by linarith
qed

lemma round_up_least: "0 < m \<Longrightarrow> m dvd x \<Longrightarrow> a \<le> x \<Longrightarrow> round_up a m \<le> x"
proof (rule ccontr)
  assume m: "0 < m" and x: "m dvd x" "a \<le> x" and "\<not> round_up a m \<le> x"
  then have "0 < round_up a m - x" "round_up a m - x < m" "m dvd round_up a m - x"
    using round_up_bounds [OF m, of a] by (simp_all add: less_diff_conv2 dvd_diff_nat)
  then show False by (simp add: dvd_imp_le leD)
qed

lemma round_up_mono: "0 < m \<Longrightarrow> a \<le> b \<Longrightarrow> round_up a m \<le> round_up b m"
  using round_up_bounds [of m b] by (intro round_up_least) auto

lemma heap_align_up_spec:
  assumes "a + 2 ^ j < 2 ^ 64" shows "heap_align_up a (2 ^ j) = Some (round_up a (2 ^ j))"
proof -
  define t where "t = a + 2 ^ j - 1"
  have j: "(1::nat) \<le> 2 ^ j" "t < 2 ^ 64" using assms by (simp_all add: t_def)
  have m: "(of_nat (2 ^ j - 1) :: u64) = mask j" by (simp add: mask_eq_exp_minus_1 of_nat_diff)
  have "unat (of_nat t :: u64) = t" using j(2) by (simp add: unat_of_nat)
  then have "unat ((of_nat t :: u64) AND NOT (of_nat (2 ^ j - 1))) = t - t mod 2 ^ j"
    unfolding m unat_and_not_mask by simp
  then show ?thesis
    using assms j unfolding heap_align_up_def
    by (simp only: us_add_lt us_sub_le t_def bind.bind_lunit trans_le_add2 round_up_def)
qed

lemma blocks_disjoint: "blocks_ok lo (ps @ (c, k) # qs) \<Longrightarrow> {c..<c + k} \<inter> span (ps @ qs) = {}"
  using blocks_below [of lo ps] blocks_above [of "c + k" qs]
  by (fastforce simp: blocks_ok_append span_def)

text \<open>Unlinking a block and giving back what the allocation leaves of it.\<close>

lemma unlink_block:
  assumes "heap_inv h (ps @ (c, k) # qs)"
  defines "prev \<equiv> if ps = [] then 0 else fst (last ps)" and "nx \<equiv> fb_next (headers h c)"
  defines "h' \<equiv> if prev = 0 then h\<lparr>head := nx\<rparr> else set_next prev nx h"
  shows "heap_inv h' (ps @ qs) \<and> same_region h h'"
proof -
  have inv: "segment (headers h) (head h) (ps @ (c, k) # qs) 0" "blocks_ok 0 (ps @ (c, k) # qs)"
    using assms(1) by (simp_all add: heap_inv_def)
  have ok: "blocks_ok 0 (ps @ qs)" using inv(2) by (auto simp: blocks_ok_append intro: blocks_ok_weaken)
  have "segment (headers h) nx qs 0" using inv(1) by (auto simp: segment_append nx_def)
  moreover have "prev = 0 \<longleftrightarrow> ps = []"
    unfolding prev_def using ok by (intro last_block_nonnull) (simp add: blocks_ok_append)
  ultimately show ?thesis
    using link_tail [OF inv(1) _ blocks_distinct [OF ok], of nx] ok
    by (auto simp: h'_def prev_def heap_inv_def)
qed

text \<open>
  Of the block \<open>[c, c + k)\<close> in which \<open>[s, s + n)\<close> is allocated, at most 16 bytes before and 46
  bytes after the allocation are lost.
\<close>

lemma front_part:
  assumes "heap_inv h bs" "16 dvd c" "0 < c" "16 dvd s" "c \<le> s" "s < 2 ^ 64" "{c..<s} \<inter> span bs = {}"
  obtains h' bs' where
    "(if MIN_BLOCK_SIZE \<le> s - c then insert_and_coalesce (set_block c (s - c) 0 h) c else Some h) = Some h'"
    "heap_inv h' bs'" "span bs \<subseteq> span bs'" "span bs' \<subseteq> span bs \<union> {c..<s}" "{c..<s} \<subseteq> span bs' \<union> {s - 16..<s}"
    "same_region h h'"
proof (cases "32 \<le> s - c")
  case True
  have e: "c + (s - c) < 2 ^ 64" "c + (s - c) = s" using assms(5,6) by simp_all
  then have dis: "{c..<c + (s - c)} \<inter> span bs = {}" using assms(7) by simp
  show ?thesis
    by (rule insert_region [OF assms(1-3) True _ dis], use e in simp, rule that)
      (use True e in \<open>auto simp: MIN_BLOCK_SIZE_def\<close>)
next
  case False
  have "16 dvd s - c" using assms(2,4) by (rule dvd_diff_nat [rotated])
  then obtain i where "s - c = 16 * i" by (elim dvdE)
  then have "s - c \<le> 16" using False by simp
  then show ?thesis
    by (intro that [of h bs]) (use assms(1) False in \<open>auto simp: MIN_BLOCK_SIZE_def same_region_def\<close>)
qed

lemma rear_part:
  assumes "heap_inv h bs" "0 < s" "e + 16 < 2 ^ 64" "s + n \<le> e" "{s + n..<e} \<inter> span bs = {}"
  obtains h' bs' where
    "(if MIN_BLOCK_SIZE \<le> e - (s + n)
      then do { rem_addr \<leftarrow> us_add s n; rem_aligned \<leftarrow> heap_align_up rem_addr BLOCK_ALIGN;
                rem_size \<leftarrow> us_sub e rem_aligned;
                if MIN_BLOCK_SIZE \<le> rem_size then add_free_region h rem_aligned rem_size else Some h }
      else Some h) = Some h'"
    "heap_inv h' bs'" "span bs \<subseteq> span bs'" "span bs' \<subseteq> span bs \<union> {s + n..<e}"
    "{s + n..<e} \<subseteq> span bs' \<union> {s + n..<s + n + 46}" "same_region h h'"
proof -
  let ?rear = "if MIN_BLOCK_SIZE \<le> e - (s + n)
      then do { rem_addr \<leftarrow> us_add s n; rem_aligned \<leftarrow> heap_align_up rem_addr BLOCK_ALIGN;
                rem_size \<leftarrow> us_sub e rem_aligned;
                if MIN_BLOCK_SIZE \<le> rem_size then add_free_region h rem_aligned rem_size else Some h }
      else Some h"
  have "s + n + 2 ^ 4 < 2 ^ 64" using assms(3,4) by simp
  then obtain r where r: "heap_align_up (s + n) (2 ^ 4) = Some r" "s + n \<le> r" "r < s + n + 2 ^ 4" "2 ^ 4 dvd r"
    using heap_align_up_spec [of "s + n" 4] round_up_bounds [of "2 ^ 4" "s + n"] by simp
  show ?thesis
  proof (cases "32 \<le> e - (s + n) \<and> 32 \<le> e - r")
    case True
    have d: "16 dvd r" "0 < r" "{r..<r + (e - r)} \<subseteq> {s + n..<e}" "r + (e - r) < 2 ^ 64" "32 \<le> e - r"
      using r True assms(2,3) by auto
    have dis: "{r..<r + (e - r)} \<inter> span bs = {}" using d(3) assms(5) by blast
    obtain h' bs' where h': "add_free_region h r (e - r) = Some h'" "heap_inv h' bs'"
        "span bs' = span bs \<union> {r..<r + (e - r)}" "same_region h h'"
      by (rule add_free_region_spec [OF assms(1) d(1,2,5,4) dis])
    have e: "r + (e - r) = e" "r \<le> e" using True by linarith+
    have run: "?rear = Some h'" using h'(1) r True assms(3,4) e by (simp add: MIN_BLOCK_SIZE_def BLOCK_ALIGN_def)
    have "{s + n..<e} \<subseteq> {r..<e} \<union> {s + n..<s + n + 46}" using r(3) by auto
    then show ?thesis
      by (intro that [OF run h'(2)]) (use h'(3,4) d(3) e(1) in auto)
  next
    case False
    have lost: "{s + n..<e} \<subseteq> {s + n..<s + n + 46}" using False r(2,3) by auto
    have run: "?rear = Some h" using False r assms(3,4) by (auto simp: MIN_BLOCK_SIZE_def BLOCK_ALIGN_def)
    show ?thesis
      by (rule that [OF run assms(1)]) (use lost in \<open>auto simp: same_region_def\<close>)
  qed
qed

lemma take_block_spec:
  assumes "heap_inv h (ps @ (c, k) # qs)" "16 dvd s" "c \<le> s" "32 \<le> n" "s + n \<le> c + k" "c + k + 16 < 2 ^ 64"
  defines "bs \<equiv> ps @ (c, k) # qs"
  obtains h' bs' where "take_block h (if ps = [] then 0 else fst (last ps)) c s n = Some h'" "heap_inv h' bs'"
    "span bs' \<subseteq> span bs - {s..<s + n}" "span bs \<subseteq> span bs' \<union> {s - 16..<s + n + 46}" "same_region h h'"
proof -
  let ?prev = "if ps = [] then 0 else fst (last ps)" and ?nx = "fb_next (headers h c)"
  define h1 where "h1 = (if ?prev = 0 then h\<lparr>head := ?nx\<rparr> else set_next ?prev ?nx h)"
  have c: "16 dvd c" "0 < c" "fb_size (headers h c) = k"
    using assms(1) by (auto simp: heap_inv_def blocks_ok_append segment_append)
  have h1: "heap_inv h1 (ps @ qs)" "same_region h h1"
    using unlink_block [OF assms(1)] by (simp_all add: h1_def)
  have dis: "{c..<c + k} \<inter> span (ps @ qs) = {}" using assms(1) unfolding heap_inv_def by (intro blocks_disjoint) (rule conjunct2)
  have sub: "{c..<s} \<subseteq> {c..<c + k}" "{s + n..<c + k} \<subseteq> {c..<c + k}" using assms(3,5) by auto
  have s: "s < 2 ^ 64" "0 < s" using assms(3,5,6) c(2) by simp_all
  have dis1: "{c..<s} \<inter> span (ps @ qs) = {}" using dis sub(1) by blast
  obtain h2 bs2 where h2: "(if MIN_BLOCK_SIZE \<le> s - c then insert_and_coalesce (set_block c (s - c) 0 h1) c else Some h1) = Some h2"
      "heap_inv h2 bs2" "span (ps @ qs) \<subseteq> span bs2" "span bs2 \<subseteq> span (ps @ qs) \<union> {c..<s}"
      "{c..<s} \<subseteq> span bs2 \<union> {s - 16..<s}" "same_region h1 h2"
    by (rule front_part [OF h1(1) c(1,2) assms(2,3) s(1) dis1]) blast
  have "{s + n..<c + k} \<inter> {c..<s} = {}" using assms(3,5) by auto
  then have dis2: "{s + n..<c + k} \<inter> span bs2 = {}" using h2(4) dis sub(2) by blast
  obtain h3 bs3 where h3: "(if MIN_BLOCK_SIZE \<le> c + k - (s + n)
      then do { rem_addr \<leftarrow> us_add s n; rem_aligned \<leftarrow> heap_align_up rem_addr BLOCK_ALIGN;
                rem_size \<leftarrow> us_sub (c + k) rem_aligned;
                if MIN_BLOCK_SIZE \<le> rem_size then add_free_region h2 rem_aligned rem_size else Some h2 }
      else Some h2) = Some h3"
      "heap_inv h3 bs3" "span bs2 \<subseteq> span bs3" "span bs3 \<subseteq> span bs2 \<union> {s + n..<c + k}"
      "{s + n..<c + k} \<subseteq> span bs3 \<union> {s + n..<s + n + 46}" "same_region h2 h3"
    by (rule rear_part [OF h2(2) s(2) assms(6,5) dis2]) blast
  have e: "us_add (s - c) n = Some (s - c + n)" "us_sub k (s - c + n) = Some (c + k - (s + n))" "us_add c k = Some (c + k)"
    using assms(3,5,6) by simp_all
  have run: "take_block h ?prev c s n = Some h3"
    unfolding take_block_def Let_def c(3) h1_def [symmetric] us_sub_le [OF assms(3)] bind.bind_lunit h2(1) e
    by (rule h3(1))
  have sp: "span bs = span (ps @ qs) \<union> {c..<c + k}" by (auto simp: bs_def)
  have new: "{s..<s + n} \<inter> {c..<s} = {}" "{s..<s + n} \<inter> {s + n..<c + k} = {}" "{s..<s + n} \<subseteq> {c..<c + k}"
    "{c..<c + k} = {c..<s} \<union> {s..<s + n} \<union> {s + n..<c + k}" using assms(3,5) by auto
  have "span bs3 \<subseteq> span bs - {s..<s + n}" using h3(4) h2(4) new dis sp by blast
  moreover have "{s - 16..<s} \<subseteq> {s - 16..<s + n + 46}" "{s..<s + n} \<subseteq> {s - 16..<s + n + 46}"
    "{s + n..<s + n + 46} \<subseteq> {s - 16..<s + n + 46}" by auto
  then have "span bs \<subseteq> span bs3 \<union> {s - 16..<s + n + 46}" unfolding sp new(4) using h3(3,5) h2(3,5) by blast
  ultimately show ?thesis
    using that [OF run h3(2)] h1(2) h2(6) h3(6) by (blast intro: same_region_trans)
qed

text \<open>A block fits when it has room for \<open>n\<close> bytes from its first multiple of \<open>m\<close> on.\<close>

definition fits :: "nat \<Rightarrow> nat \<Rightarrow> nat \<times> nat \<Rightarrow> bool" where
  "fits n m b \<longleftrightarrow> round_up (fst b) m + n \<le> fst b + snd b"

definition headroom :: "nat \<Rightarrow> blocks \<Rightarrow> bool" where
  "headroom m bs \<longleftrightarrow> (\<forall>(a, k) \<in> set bs. a + k + m < 2 ^ 64)"

lemma fits_aligned: "0 < m \<Longrightarrow> m dvd x \<Longrightarrow> a \<le> x \<Longrightarrow> x + n \<le> a + k \<Longrightarrow> fits n m (a, k)"
  using round_up_least [of m x a] by (simp add: fits_def)

lemma first_fit_loop_none:
  assumes "segment (headers h) p bs 0" "blocks_ok lo bs" "headroom (2 ^ j) bs" "\<forall>b \<in> set bs. \<not> fits n (2 ^ j) b"
  shows "first_fit_loop h n (2 ^ j) prev p = Some (None, h)"
  using assms
proof (induction bs arbitrary: p prev lo)
  case Nil
  then show ?case by (subst first_fit_loop.simps) simp
next
  case (Cons b bs)
  obtain a k where b: "b = (a, k)" by (cases b)
  have p: "p = a" "a \<noteq> 0" "fb_size (headers h a) = k" "a + k + 2 ^ j < 2 ^ 64"
    and nf: "a + k < round_up a (2 ^ j) + n" using Cons.prems b by (auto simp: headroom_def fits_def)
  have "first_fit_loop h n (2 ^ j) a (fb_next (headers h a)) = Some (None, h)"
    by (rule Cons.IH [where lo = "a + k"]) (use Cons.prems b in \<open>auto simp: headroom_def\<close>)
  then show ?case
    using p nf heap_align_up_spec [of a j] by (subst first_fit_loop.simps) simp
qed

lemma first_fit_loop_some:
  assumes "segment (headers h) p (us @ (c, k) # vs) 0" "blocks_ok lo (us @ (c, k) # vs)"
    "headroom (2 ^ j) (us @ (c, k) # vs)" "\<forall>b \<in> set us. \<not> fits n (2 ^ j) b" "fits n (2 ^ j) (c, k)"
  shows "first_fit_loop h n (2 ^ j) prev p =
    do { h \<leftarrow> take_block h (if us = [] then prev else fst (last us)) c (round_up c (2 ^ j)) n;
         Some (Some (round_up c (2 ^ j), n), h) }"
  using assms
proof (induction us arbitrary: p prev lo)
  case Nil
  have p: "p = c" "c \<noteq> 0" "fb_size (headers h c) = k" "c + k + 2 ^ j < 2 ^ 64"
    and f: "round_up c (2 ^ j) + n \<le> c + k" using Nil.prems by (auto simp: headroom_def fits_def)
  then show ?case
    using heap_align_up_spec [of c j] by (subst first_fit_loop.simps) simp
next
  case (Cons b us)
  obtain a l where b: "b = (a, l)" by (cases b)
  have p: "p = a" "a \<noteq> 0" "fb_size (headers h a) = l" "a + l + 2 ^ j < 2 ^ 64"
    and nf: "a + l < round_up a (2 ^ j) + n" using Cons.prems b by (auto simp: headroom_def fits_def)
  have "a \<le> c" "c + k < 2 ^ 64"
    using Cons.prems(2) b blocks_above [of "a + l" "us @ (c, k) # vs" c k] by auto
  then have "round_up a (2 ^ j) + n < 2 ^ 64"
    using round_up_mono [of "2 ^ j" a c] Cons.prems(5) by (simp add: fits_def)
  moreover have "first_fit_loop h n (2 ^ j) a (fb_next (headers h a)) =
    do { h \<leftarrow> take_block h (if us = [] then a else fst (last us)) c (round_up c (2 ^ j)) n;
         Some (Some (round_up c (2 ^ j), n), h) }"
    by (rule Cons.IH [where lo = "a + l"]) (use Cons.prems b in \<open>auto simp: headroom_def\<close>)
  ultimately show ?case
    using p nf b heap_align_up_spec [of a j] by (subst first_fit_loop.simps) simp
qed

text \<open>\<^verbatim>\<open>find_first_fit\<close> takes the allocation from the first block of the list that fits.\<close>

lemma find_first_fit_none:
  assumes "heap_inv h bs" "headroom (2 ^ j) bs" "\<forall>b \<in> set bs. \<not> fits n (2 ^ j) b"
  shows "find_first_fit h n (2 ^ j) = Some (None, h)"
  using assms first_fit_loop_none [of h "head h" bs 0 j n] by (simp add: find_first_fit_def heap_inv_def)

lemma find_first_fit_some:
  assumes "heap_inv h bs" "headroom (2 ^ j) bs" "4 \<le> j" "32 \<le> n" "\<exists>b \<in> set bs. fits n (2 ^ j) b"
  obtains s h' bs' where "find_first_fit h n (2 ^ j) = Some (Some (s, n), h')" "0 < s" "2 ^ j dvd s"
    "heap_inv h' bs'" "{s..<s + n} \<subseteq> span bs" "span bs' \<subseteq> span bs - {s..<s + n}"
    "span bs \<subseteq> span bs' \<union> {s - 16..<s + n + 46}" "same_region h h'"
    "\<exists>us c k vs. bs = us @ (c, k) # vs \<and> (\<forall>b \<in> set us. \<not> fits n (2 ^ j) b) \<and> s = round_up c (2 ^ j) \<and> s + n \<le> c + k"
proof -
  obtain us b vs where split: "bs = us @ b # vs" "fits n (2 ^ j) b" "\<forall>b \<in> set us. \<not> fits n (2 ^ j) b"
    using split_list_first_prop [OF assms(5)] by blast
  obtain c k where b: "b = (c, k)" by (cases b)
  note bs = split(1) [unfolded b]
  define s where "s = round_up c (2 ^ j)"
  have inv: "segment (headers h) (head h) bs 0" "blocks_ok 0 bs" using assms(1) by (simp_all add: heap_inv_def)
  have c: "0 < c" using inv(2) bs blocks_above [of 0 bs c k] by auto
  have r: "c \<le> s" "2 ^ j dvd s" using round_up_bounds [of "2 ^ j" c] by (simp_all add: s_def)
  have d: "16 dvd s" using r(2) assms(3) le_imp_power_dvd [of 4 j "2 :: nat"] by (simp add: dvd_trans)
  have f: "s + n \<le> c + k" using split(2) b by (simp add: fits_def s_def)
  have "(16::nat) \<le> 2 ^ j" using power_increasing [of 4 j "2 :: nat"] assms(3) by simp
  then have hr: "c + k + 16 < 2 ^ 64" using assms(2) bs by (auto simp: headroom_def)
  obtain h' bs' where t: "take_block h (if us = [] then 0 else fst (last us)) c s n = Some h'" "heap_inv h' bs'"
    "span bs' \<subseteq> span bs - {s..<s + n}" "span bs \<subseteq> span bs' \<union> {s - 16..<s + n + 46}" "same_region h h'"
    using take_block_spec [OF assms(1) [unfolded bs] d r(1) assms(4) f hr] unfolding bs by metis
  have run: "find_first_fit h n (2 ^ j) = Some (Some (s, n), h')"
    using first_fit_loop_some [of h "head h" us c k vs 0 j n 0] inv assms(2) split(2,3) b bs t(1)
    by (simp add: find_first_fit_def s_def)
  have sub: "{s..<s + n} \<subseteq> span bs" using bs f r(1) by auto
  have "0 < s" using c r(1) by simp
  then show ?thesis
    by (rule that [OF run _ r(2) t(2) sub t(3-5)]) (use bs split(3) f s_def in blast)
qed

section \<open>Allocation and deallocation\<close>

text \<open>What the growth callback is asked for and returns: at least the requested bytes, in fresh pages.\<close>

definition grown :: "(usize \<Rightarrow> (usize \<times> usize) option) option \<Rightarrow> nat \<Rightarrow> (usize \<times> usize) option" where
  "grown grow n = (case grow of None \<Rightarrow> None | Some f \<Rightarrow> f (max n (64 * 1024)))"

definition grow_ok :: "(usize \<Rightarrow> (usize \<times> usize) option) option \<Rightarrow> nat \<Rightarrow> nat set \<Rightarrow> bool" where
  "grow_ok grow n F \<longleftrightarrow> (case grown grow n of None \<Rightarrow> True
     | Some (q, k) \<Rightarrow> 4096 dvd q \<and> 0 < q \<and> max n (64 * 1024) \<le> k \<and> q + k + 4096 < 2 ^ 64 \<and> {q..<q + k} \<inter> F = {})"

definition fresh_region :: "(usize \<Rightarrow> (usize \<times> usize) option) option \<Rightarrow> nat \<Rightarrow> nat \<Rightarrow> blocks \<Rightarrow> nat set" where
  "fresh_region grow n m bs = (if \<exists>b \<in> set bs. fits n m b then {}
     else case grown grow n of None \<Rightarrow> {} | Some (q, k) \<Rightarrow> {q..<q + k})"

lemma headroom_span:
  assumes "blocks_ok lo bs" shows "headroom m bs \<longleftrightarrow> (\<forall>x \<in> span bs. x + m + 1 < 2 ^ 64)"
proof
  show "headroom m bs \<Longrightarrow> \<forall>x \<in> span bs. x + m + 1 < 2 ^ 64" by (fastforce simp: headroom_def span_def)
  assume r: "\<forall>x \<in> span bs. x + m + 1 < 2 ^ 64"
  have "a + k + m < 2 ^ 64" if "(a, k) \<in> set bs" for a k
  proof -
    have "32 \<le> k" using blocks_above [OF assms that] by simp
    then have "a + k - 1 \<in> span bs" using that by (auto simp: span_def intro!: bexI [of _ "(a, k)"])
    then show ?thesis using r \<open>32 \<le> k\<close> by fastforce
  qed
  then show "headroom m bs" by (auto simp: headroom_def)
qed

lemma headroom_weaken: "headroom m bs \<Longrightarrow> m' \<le> m \<Longrightarrow> headroom m' bs"
  by (fastforce simp: headroom_def)

lemma headroom_less: "headroom m bs \<Longrightarrow> heap_inv h bs \<Longrightarrow> heap_inv h' bs' \<Longrightarrow> span bs' \<subseteq> span bs \<Longrightarrow> headroom m bs'"
  using headroom_span [of 0 bs m] headroom_span [of 0 bs' m] unfolding heap_inv_def by blast

lemma headroom_add:
  assumes "headroom m bs" "heap_inv h bs" "heap_inv h' bs'" "span bs' = span bs \<union> {q..<q + k}" "q + k + m < 2 ^ 64"
  shows "headroom m bs'"
proof -
  have "\<forall>x \<in> span bs. x + m + 1 < 2 ^ 64" using assms(1,2) headroom_span [of 0 bs m] unfolding heap_inv_def by blast
  moreover have "\<forall>x \<in> {q..<q + k}. x + m + 1 < 2 ^ 64" using assms(5) by auto
  ultimately have "\<forall>x \<in> span bs'. x + m + 1 < 2 ^ 64" unfolding assms(4) by blast
  then show ?thesis using assms(3) headroom_span [of 0 bs' m] unfolding heap_inv_def by blast
qed

lemma covering_block:
  assumes "blocks_ok lo bs" "{q..<q + k} \<subseteq> span bs" "0 < k"
  obtains a l where "(a, l) \<in> set bs" "a \<le> q" "q + k \<le> a + l"
proof -
  have "\<exists>(a, l) \<in> set bs. a \<le> q \<and> q + k \<le> a + l"
    using assms(1,2)
  proof (induction lo bs rule: blocks_ok.induct)
    case (2 lo a l bs)
    show ?case
    proof (cases "q \<in> {a..<a + l}")
      case True
      have "q + k \<le> a + l"
      proof (rule ccontr)
        assume "\<not> q + k \<le> a + l"
        then have "a + l \<in> span ((a, l) # bs)" using True by (intro subsetD [OF 2(3)]) simp
        then have "a + l \<in> span bs" by simp
        then show False using 2(2) blocks_above [of "a + l" bs] by (fastforce simp: span_def)
      qed
      then show ?thesis using True by auto
    next
      case False
      moreover have "q \<in> span ((a, l) # bs)" using assms(3) by (intro subsetD [OF 2(3)]) simp
      ultimately have "q \<in> span bs" by auto
      then have "a + l < q" using 2(2) blocks_above [of "a + l" bs] by (fastforce simp: span_def)
      then have "{q..<q + k} \<subseteq> span bs" using 2(3) by fastforce
      then show ?thesis using 2(1,2) by auto
    qed
  qed (use assms(3) in simp)
  then show ?thesis using that by blast
qed

lemma align_le_page: "j \<le> 12 \<Longrightarrow> (2::nat) ^ max j 4 \<le> 4096"
  using power_increasing [of "max j 4" 12 "2::nat"] by (simp del: power_increasing_iff)

text \<open>
  \<open>carved F n m p F'\<close>: \<open>n\<close> bytes at the multiple \<open>p\<close> of \<open>m\<close> are taken out of the free addresses
  \<open>F\<close>, which leaves \<open>F'\<close>; at most 62 further bytes around the allocation are lost.
\<close>

definition carved :: "nat set \<Rightarrow> nat \<Rightarrow> nat \<Rightarrow> nat \<Rightarrow> nat set \<Rightarrow> bool" where
  "carved F n m p F' \<longleftrightarrow> 0 < p \<and> m dvd p \<and> {p..<p + n} \<subseteq> F \<and> F' \<subseteq> F - {p..<p + n} \<and>
     F \<subseteq> F' \<union> {p - 16..<p + n + 46}"

lemma heap_alloc_fits:
  assumes "heap_inv h bs" "headroom 4096 bs" "j \<le> 12" "allocated_bytes h + n < 2 ^ 64" "32 \<le> n"
    and "\<exists>b \<in> set bs. fits n (2 ^ max j 4) b"
  obtains s h' bs' where "find_first_fit h n (2 ^ max j 4) = Some (Some (s, n), h')"
    "us_add (allocated_bytes h') n = Some (allocated_bytes h + n)" "heap_inv (h'\<lparr>allocated_bytes := b\<rparr>) bs'"
    "headroom 4096 bs'" "carved (span bs) n (2 ^ max j 4) s (span bs')"
proof -
  have hr: "headroom (2 ^ max j 4) bs" by (rule headroom_weaken [OF assms(2) align_le_page [OF assms(3)]])
  have n: "4 \<le> max j 4" by simp
  obtain s h1 bs' where f: "find_first_fit h n (2 ^ max j 4) = Some (Some (s, n), h1)" "0 < s" "2 ^ max j 4 dvd s"
    "heap_inv h1 bs'" "{s..<s + n} \<subseteq> span bs" "span bs' \<subseteq> span bs - {s..<s + n}"
    "span bs \<subseteq> span bs' \<union> {s - 16..<s + n + 46}" "same_region h h1"
    by (rule find_first_fit_some [OF assms(1) hr n assms(5,6)])
  have b: "allocated_bytes h1 = allocated_bytes h" using f(8) by (simp add: same_region_def)
  have "headroom 4096 bs'" using f(6) by (intro headroom_less [OF assms(2,1) f(4)]) blast
  then show ?thesis
    using f b assms(4) by (intro that [OF f(1), of bs']) (simp_all add: heap_inv_def carved_def)
qed

lemma grown_fits:
  assumes "heap_inv h bs" "{q..<q + k} \<subseteq> span bs" "4096 dvd q" "max n (64 * 1024) \<le> k" "j \<le> 12"
  shows "\<exists>b \<in> set bs. fits n (2 ^ max j 4) b"
proof -
  have "0 < k" using assms(4) by simp
  then obtain a l where b: "(a, l) \<in> set bs" "a \<le> q" "q + k \<le> a + l"
    using assms(1,2) by (auto simp: heap_inv_def elim: covering_block)
  have "(2::nat) ^ max j 4 dvd 2 ^ 12" using assms(5) by (intro le_imp_power_dvd) auto
  then have "2 ^ max j 4 dvd q" using assms(3) by (simp add: dvd_trans)
  then have "fits n (2 ^ max j 4) (a, l)" using b assms(4) by (intro fits_aligned [of _ q]) auto
  then show ?thesis using b(1) by blast
qed

lemma max_align: "max (2 ^ j) BLOCK_ALIGN = 2 ^ max j 4"
  using power_increasing_iff [of "2 :: nat" j 4] by (simp add: BLOCK_ALIGN_def max_def)

lemma heap_alloc_grow:
  assumes "heap_inv h bs" "headroom 4096 bs" "j \<le> 12" "allocated_bytes h + max sz 32 < 2 ^ 64"
    and "grow_ok grow (max sz 32) (span bs)" "\<forall>b \<in> set bs. \<not> fits (max sz 32) (2 ^ max j 4) b"
    and "grown grow (max sz 32) = Some (q, k)"
  obtains s h' bs' where "heap_alloc grow h sz (2 ^ j) = Some (s, h')" "heap_inv h' bs'" "headroom 4096 bs'"
    "carved (span bs \<union> {q..<q + k}) (max sz 32) (2 ^ max j 4) s (span bs')"
    "allocated_bytes h' = allocated_bytes h + max sz 32"
proof -
  define n where "n = max sz 32"
  have g: "4096 dvd q" "0 < q" "max n (64 * 1024) \<le> k" "q + k + 4096 < 2 ^ 64" "{q..<q + k} \<inter> span bs = {}"
    using assms(5,7) by (simp_all add: grow_ok_def n_def)
  have g': "16 dvd q" "32 \<le> k" "q + k < 2 ^ 64" using g(1,3,4) by (auto intro: dvd_trans [of 16 4096])
  obtain h1 bs1 where h1: "add_free_region h q k = Some h1" "heap_inv h1 bs1"
    "span bs1 = span bs \<union> {q..<q + k}" "same_region h h1"
    by (rule add_free_region_spec [OF assms(1) g'(1) g(2) g'(2,3) g(5)])
  define h2 where "h2 = h1\<lparr>heap_end := max (heap_end h1) (q + k)\<rparr>"
  have inv2: "heap_inv h2 bs1" using h1(2) by (simp add: h2_def heap_inv_def)
  have al: "allocated_bytes h2 = allocated_bytes h" using h1(4) by (simp add: same_region_def h2_def)
  have hr2: "headroom 4096 bs1" by (rule headroom_add [OF assms(2,1) h1(2,3) g(4)])
  have "{q..<q + k} \<subseteq> span bs1" using h1(3) by blast
  then have fit: "\<exists>b \<in> set bs1. fits n (2 ^ max j 4) b" by (rule grown_fits [OF inv2 _ g(1,3) assms(3)])
  have n: "allocated_bytes h2 + n < 2 ^ 64" "32 \<le> n" using assms(4) al by (simp_all add: n_def)
  obtain s h' bs' where a: "find_first_fit h2 n (2 ^ max j 4) = Some (Some (s, n), h')"
    "us_add (allocated_bytes h') n = Some (allocated_bytes h2 + n)"
    "heap_inv (h'\<lparr>allocated_bytes := allocated_bytes h2 + n\<rparr>) bs'"
    "headroom 4096 bs'" "carved (span bs1) n (2 ^ max j 4) s (span bs')"
    by (rule heap_alloc_fits [OF inv2 hr2 assms(3) n fit])
  have none: "find_first_fit h n (2 ^ max j 4) = Some (None, h)"
    using assms(6) headroom_weaken [OF assms(2) align_le_page [OF assms(3)]]
    by (intro find_first_fit_none [OF assms(1)]) (simp_all add: n_def)
  obtain f where f: "grow = Some f" "f (max n (64 * 1024)) = Some (q, k)"
    using assms(7) by (auto simp: grown_def n_def split: option.splits)
  have "heap_alloc grow h sz (2 ^ j) = Some (s, h'\<lparr>allocated_bytes := allocated_bytes h2 + n\<rparr>)"
    unfolding heap_alloc_def Let_def max_align MIN_BLOCK_SIZE_def n_def [symmetric] none f
    using f h1(1) a(1,2) g(4) by (simp add: h2_def)
  then show ?thesis
    by (rule that) (use a al h1(3) n_def in simp_all)
qed

lemma heap_alloc_spec:
  fixes sz j :: nat
  defines "n \<equiv> max sz 32" and "m \<equiv> 2 ^ max j 4"
  assumes "heap_inv h bs" "headroom 4096 bs" "j \<le> 12" "allocated_bytes h + n < 2 ^ 64" "grow_ok grow n (span bs)"
  shows "\<exists>p h' bs'. heap_alloc grow h sz (2 ^ j) = Some (p, h') \<and> heap_inv h' bs' \<and> headroom 4096 bs' \<and>
    (if (\<exists>b \<in> set bs. fits n m b) \<or> grown grow n \<noteq> None
     then carved (span bs \<union> fresh_region grow n m bs) n m p (span bs') \<and> allocated_bytes h' = allocated_bytes h + n
     else p = 0 \<and> h' = h \<and> bs' = bs)"
proof (cases "\<exists>b \<in> set bs. fits n m b")
  case True
  have n: "32 \<le> n" by (simp add: n_def)
  obtain s h' bs' where a: "find_first_fit h n m = Some (Some (s, n), h')"
    "us_add (allocated_bytes h') n = Some (allocated_bytes h + n)"
    "heap_inv (h'\<lparr>allocated_bytes := allocated_bytes h + n\<rparr>) bs'"
    "headroom 4096 bs'" "carved (span bs) n m s (span bs')"
    unfolding m_def by (rule heap_alloc_fits [OF assms(3-6) n True [unfolded m_def]])
  have "heap_alloc grow h sz (2 ^ j) = Some (s, h'\<lparr>allocated_bytes := allocated_bytes h + n\<rparr>)"
    unfolding heap_alloc_def Let_def max_align MIN_BLOCK_SIZE_def n_def [symmetric] m_def [symmetric]
    using a(1,2) by simp
  then show ?thesis using a True by (auto simp: fresh_region_def)
next
  case nofit: False
  show ?thesis
  proof (cases "grown grow n")
    case None
    have "find_first_fit h n m = Some (None, h)"
      unfolding m_def using nofit headroom_weaken [OF assms(4) align_le_page [OF assms(5)]]
      by (intro find_first_fit_none [OF assms(3)]) (simp_all add: m_def)
    then have "heap_alloc grow h sz (2 ^ j) = Some (0, h)"
      using None unfolding heap_alloc_def Let_def max_align MIN_BLOCK_SIZE_def n_def [symmetric] m_def [symmetric]
      by (simp add: grown_def split: option.splits)
    then show ?thesis using nofit None assms(3,4) by auto
  next
    case (Some r)
    obtain q k where r: "r = (q, k)" by (cases r)
    show ?thesis
      by (rule heap_alloc_grow [OF assms(3-5), of sz grow q k])
        (use assms(6,7) nofit Some r in \<open>auto simp: fresh_region_def n_def m_def\<close>)
  qed
qed

section \<open>Properties\<close>

text \<open>
  C5: allocation. Let the free list be sorted, disjoint and coalesced, and let the growth callback
  return at least the bytes asked for in fresh pages. A request of \<open>sz\<close> bytes aligned to a power of
  two of at most a page never panics. If a free block fits or the callback returns memory, the
  result is a non-null pointer with the alignment asked for; \<open>n = max sz 32\<close> bytes from it on were
  free before and are not free afterwards, every other free byte stays free except at most 16 before
  and 46 after the allocation, and the list is sorted, disjoint and coalesced again. Otherwise the
  result is null and nothing changes.
\<close>

theorem heap_alloc_correct:
  fixes sz j :: nat
  defines "n \<equiv> max sz 32" and "m \<equiv> 2 ^ max j 4"
  assumes "heap_inv h bs" "headroom 4096 bs" "j \<le> 12" "allocated_bytes h + n < 2 ^ 64" "grow_ok grow n (span bs)"
  shows "\<exists>p h' bs'. heap_alloc grow h sz (2 ^ j) = Some (p, h') \<and> heap_inv h' bs' \<and> headroom 4096 bs' \<and>
    (if (\<exists>b \<in> set bs. fits n m b) \<or> grown grow n \<noteq> None
     then carved (span bs \<union> fresh_region grow n m bs) n m p (span bs') \<and> allocated_bytes h' = allocated_bytes h + n
     else p = 0 \<and> h' = h \<and> bs' = bs)"
  unfolding n_def m_def by (rule heap_alloc_spec [OF assms(3-5) assms(6,7) [unfolded n_def]])

text \<open>A heap with one free block, and a callback that grows it by 64 KiB.\<close>

definition sample_heap :: heap where
  "sample_heap = \<lparr>head = 8192, heap_start = 4096, heap_end = 12288, allocated_bytes = 4096,
     headers = \<lambda>_. \<lparr>fb_size = 4096, fb_next = 0\<rparr>\<rparr>"

lemma sample_heap_ok: "heap_inv sample_heap [(8192, 4096)]" "headroom 4096 [(8192, 4096)]"
  by (simp_all add: sample_heap_def heap_inv_def headroom_def)

theorem heap_alloc_correct_witness:
  "\<exists>p h' bs'. heap_alloc (Some (\<lambda>k. Some (131072, 65536))) sample_heap 5000 4096 = Some (p, h') \<and> heap_inv h' bs' \<and>
     carved ({8192..<12288} \<union> {131072..<196608}) 5000 4096 p (span bs') \<and> allocated_bytes h' = 9096"
proof -
  have "fits 5000 4096 (8192, 4096) = False" by (simp add: fits_def round_up_def)
  then have f: "fresh_region (Some (\<lambda>k. Some (131072, 65536))) 5000 4096 [(8192, 4096)] = {131072..<196608}"
    by (simp add: fresh_region_def grown_def)
  have g: "grow_ok (Some (\<lambda>k. Some (131072, 65536))) 5000 (span [(8192, 4096)])"
    by (simp add: grow_ok_def grown_def)
  show ?thesis
    using heap_alloc_correct [OF sample_heap_ok, of 12 5000 "Some (\<lambda>k. Some (131072, 65536))"] f g
    by (fastforce simp: sample_heap_def grown_def)
qed

text \<open>
  C26: deallocation returns exactly the \<open>max sz 32\<close> bytes of the allocation to the free list, which
  stays sorted, disjoint and coalesced, and takes them off the count of allocated bytes.
\<close>

theorem heap_dealloc_frees:
  fixes sz :: nat
  defines "n \<equiv> max sz 32"
  assumes "heap_inv h bs" "headroom 4096 bs" "16 dvd p" "0 < p" "{p..<p + n} \<inter> span bs = {}"
    and "p + n + 4096 < 2 ^ 64" "n \<le> allocated_bytes h"
  shows "\<exists>h' bs'. heap_dealloc h p sz = Some h' \<and> heap_inv h' bs' \<and> headroom 4096 bs' \<and>
    span bs' = span bs \<union> {p..<p + n} \<and> allocated_bytes h' = allocated_bytes h - n"
proof -
  let ?h = "h\<lparr>allocated_bytes := allocated_bytes h - n\<rparr>"
  have inv: "heap_inv ?h bs" using assms(2) by (simp add: heap_inv_def)
  have n: "32 \<le> n" "p + n < 2 ^ 64" using assms(7) by (simp_all add: n_def)
  obtain h' bs' where h': "add_free_region ?h p n = Some h'" "heap_inv h' bs'"
    "span bs' = span bs \<union> {p..<p + n}" "same_region ?h h'"
    by (rule add_free_region_spec [OF inv assms(4,5) n assms(6)])
  have "headroom 4096 bs'" by (rule headroom_add [OF assms(3,2) h'(2,3) assms(7)])
  moreover have "heap_dealloc h p sz = Some h'"
    using h'(1) assms(8) unfolding heap_dealloc_def Let_def MIN_BLOCK_SIZE_def n_def [symmetric] by simp
  ultimately show ?thesis using h' by (intro exI [of _ h'] exI [of _ bs']) (simp add: same_region_def)
qed

theorem heap_dealloc_frees_witness:
  "\<exists>h' bs'. heap_dealloc sample_heap 4096 4096 = Some h' \<and> heap_inv h' bs' \<and>
     span bs' = {8192..<12288} \<union> {4096..<8192} \<and> allocated_bytes h' = 0"
  using heap_dealloc_frees [OF sample_heap_ok, of 4096 4096] by (auto simp: sample_heap_def)

end
