(* ===== verification/Addr.thy ===== *)
theory Addr
  imports Hadron_Prelude
begin

text \<open>
  Typed addresses and pages: \<^verbatim>\<open>kernel/core/src/addr.rs\<close> and \<^verbatim>\<open>kernel/core/src/paging.rs\<close>.

  The newtypes \<^verbatim>\<open>VirtAddr\<close>, \<^verbatim>\<open>PhysAddr\<close> and \<^verbatim>\<open>PageTableIndex\<close> are datatypes over the word they
  wrap. A page-size type parameter \<open>S: PageSize\<close> becomes an explicit argument of type
  \<open>page_size\<close>, and the \<^verbatim>\<open>new_unchecked\<close> constructors are the constructors of the datatypes. The lemmas
  give the value of every arithmetic operation on addresses, including where it wraps, panics or
  leaves the range of its type, and show that a canonical address is determined by its four table
  indices and its page offset and that the page iterators visit exactly the pages of a range.
\<close>

section \<open>Virtual and physical addresses\<close>

datatype virt_addr = VirtAddr (va: u64)
datatype phys_addr = PhysAddr (pa: u64)
datatype page_table_index = PageTableIndex (pti: u16)

definition PHYS_ADDR_MASK :: u64 where "PHYS_ADDR_MASK = 0x000FFFFFFFFFFFFF"
definition PAGE_OFFSET_MASK :: u64 where "PAGE_OFFSET_MASK = 0xFFF"

text \<open>\<^verbatim>\<open>u64::is_power_of_two\<close>.\<close>

definition is_power_of_two :: "u64 \<Rightarrow> bool" where
  "is_power_of_two w = (\<exists>n \<in> {..<64 :: nat}. w = 2 ^ n)"

definition page_table_index_new :: "u16 \<Rightarrow> page_table_index option" where
  "page_table_index_new index =
     do { assert_that (index < 512); Some (PageTableIndex index) }"

definition page_table_index_new_truncate :: "u16 \<Rightarrow> page_table_index" where
  "page_table_index_new_truncate index = PageTableIndex (index AND 0x1FF)"

definition page_table_index_as_usize :: "page_table_index \<Rightarrow> usize" where
  "page_table_index_as_usize i = unat (pti i)"

definition virt_addr_new_truncate :: "u64 \<Rightarrow> virt_addr" where
  "virt_addr_new_truncate addr = VirtAddr (signed_drop_bit 16 (push_bit 16 addr))"

definition virt_addr_new :: "u64 \<Rightarrow> virt_addr option" where
  "virt_addr_new addr =
     (let canonical = virt_addr_new_truncate addr
      in do { assert_that (va canonical = addr); Some canonical })"

definition virt_addr_zero :: virt_addr where "virt_addr_zero = VirtAddr 0"

definition virt_addr_is_aligned :: "virt_addr \<Rightarrow> u64 \<Rightarrow> bool option" where
  "virt_addr_is_aligned v align =
     do { assert_that (is_power_of_two align); m \<leftarrow> chk_sub align 1; Some (va v AND m = 0) }"

definition virt_addr_align_down :: "virt_addr \<Rightarrow> u64 \<Rightarrow> virt_addr option" where
  "virt_addr_align_down v align =
     do { assert_that (is_power_of_two align); m \<leftarrow> chk_sub align 1;
          Some (virt_addr_new_truncate (va v AND NOT m)) }"

definition virt_addr_align_up :: "virt_addr \<Rightarrow> u64 \<Rightarrow> virt_addr option" where
  "virt_addr_align_up v align =
     do { assert_that (is_power_of_two align); s \<leftarrow> chk_add (va v) align; t \<leftarrow> chk_sub s 1;
          m \<leftarrow> chk_sub align 1; Some (virt_addr_new_truncate (t AND NOT m)) }"

definition virt_addr_page_offset :: "virt_addr \<Rightarrow> u64" where
  "virt_addr_page_offset v = va v AND PAGE_OFFSET_MASK"

definition pml4_index :: "virt_addr \<Rightarrow> page_table_index" where
  "pml4_index v = page_table_index_new_truncate (ucast (drop_bit 39 (va v)))"

definition pdpt_index :: "virt_addr \<Rightarrow> page_table_index" where
  "pdpt_index v = page_table_index_new_truncate (ucast (drop_bit 30 (va v)))"

definition pd_index :: "virt_addr \<Rightarrow> page_table_index" where
  "pd_index v = page_table_index_new_truncate (ucast (drop_bit 21 (va v)))"

definition pt_index :: "virt_addr \<Rightarrow> page_table_index" where
  "pt_index v = page_table_index_new_truncate (ucast (drop_bit 12 (va v)))"

text \<open>\<^verbatim>\<open>impl Add<u64>\<close>, \<^verbatim>\<open>Sub<u64>\<close> and \<^verbatim>\<open>Sub<VirtAddr>\<close>: these wrap in every profile.\<close>

definition virt_addr_add :: "virt_addr \<Rightarrow> u64 \<Rightarrow> virt_addr" where
  "virt_addr_add v rhs = virt_addr_new_truncate (va v + rhs)"

definition virt_addr_sub :: "virt_addr \<Rightarrow> u64 \<Rightarrow> virt_addr" where
  "virt_addr_sub v rhs = virt_addr_new_truncate (va v - rhs)"

definition virt_addr_diff :: "virt_addr \<Rightarrow> virt_addr \<Rightarrow> u64" where
  "virt_addr_diff v w = va v - va w"

definition phys_addr_new :: "u64 \<Rightarrow> phys_addr option" where
  "phys_addr_new addr =
     (let masked = addr AND PHYS_ADDR_MASK
      in do { assert_that (masked = addr); Some (PhysAddr masked) })"

definition phys_addr_new_truncate :: "u64 \<Rightarrow> phys_addr" where
  "phys_addr_new_truncate addr = PhysAddr (addr AND PHYS_ADDR_MASK)"

definition phys_addr_zero :: phys_addr where "phys_addr_zero = PhysAddr 0"

definition phys_addr_is_aligned :: "phys_addr \<Rightarrow> u64 \<Rightarrow> bool option" where
  "phys_addr_is_aligned p align =
     do { assert_that (is_power_of_two align); m \<leftarrow> chk_sub align 1; Some (pa p AND m = 0) }"

definition phys_addr_align_down :: "phys_addr \<Rightarrow> u64 \<Rightarrow> phys_addr option" where
  "phys_addr_align_down p align =
     do { assert_that (is_power_of_two align); m \<leftarrow> chk_sub align 1;
          Some (PhysAddr (pa p AND NOT m)) }"

definition phys_addr_align_up :: "phys_addr \<Rightarrow> u64 \<Rightarrow> phys_addr option" where
  "phys_addr_align_up p align =
     do { assert_that (is_power_of_two align); s \<leftarrow> chk_add (pa p) align; t \<leftarrow> chk_sub s 1;
          m \<leftarrow> chk_sub align 1; Some (PhysAddr (t AND NOT m)) }"

definition phys_addr_add :: "phys_addr \<Rightarrow> u64 \<Rightarrow> phys_addr option" where
  "phys_addr_add p rhs = do { s \<leftarrow> chk_add (pa p) rhs; phys_addr_new s }"

definition phys_addr_sub :: "phys_addr \<Rightarrow> u64 \<Rightarrow> phys_addr option" where
  "phys_addr_sub p rhs = do { d \<leftarrow> chk_sub (pa p) rhs; phys_addr_new d }"

definition phys_addr_diff :: "phys_addr \<Rightarrow> phys_addr \<Rightarrow> u64 option" where
  "phys_addr_diff p q = chk_sub (pa p) (pa q)"

section \<open>Pages and frames\<close>

datatype page_size = Size4KiB | Size2MiB | Size1GiB

fun page_size_bytes :: "page_size \<Rightarrow> u64" where
  "page_size_bytes Size4KiB = 4096"
| "page_size_bytes Size2MiB = 0x200000"
| "page_size_bytes Size1GiB = 0x40000000"

datatype page = Page (page_start: virt_addr)
datatype phys_frame = PhysFrame (frame_start: phys_addr)
datatype address_not_aligned = AddressNotAligned

definition page_containing_address :: "page_size \<Rightarrow> virt_addr \<Rightarrow> page option" where
  "page_containing_address s addr =
     do { a \<leftarrow> virt_addr_align_down addr (page_size_bytes s); Some (Page a) }"

definition page_from_start_address ::
  "page_size \<Rightarrow> virt_addr \<Rightarrow> (address_not_aligned + page) option" where
  "page_from_start_address s addr =
     do { ok \<leftarrow> virt_addr_is_aligned addr (page_size_bytes s);
          Some (if \<not> ok then Inl AddressNotAligned else Inr (Page addr)) }"

definition page_add :: "page_size \<Rightarrow> page \<Rightarrow> u64 \<Rightarrow> page option" where
  "page_add s p rhs =
     do { d \<leftarrow> chk_mul rhs (page_size_bytes s);
          page_containing_address s (virt_addr_add (page_start p) d) }"

definition page_sub :: "page_size \<Rightarrow> page \<Rightarrow> u64 \<Rightarrow> page option" where
  "page_sub s p rhs =
     do { d \<leftarrow> chk_mul rhs (page_size_bytes s);
          page_containing_address s (virt_addr_sub (page_start p) d) }"

definition phys_frame_containing_address :: "page_size \<Rightarrow> phys_addr \<Rightarrow> phys_frame option" where
  "phys_frame_containing_address s addr =
     do { a \<leftarrow> phys_addr_align_down addr (page_size_bytes s); Some (PhysFrame a) }"

definition phys_frame_from_start_address ::
  "page_size \<Rightarrow> phys_addr \<Rightarrow> (address_not_aligned + phys_frame) option" where
  "phys_frame_from_start_address s addr =
     do { ok \<leftarrow> phys_addr_is_aligned addr (page_size_bytes s);
          Some (if \<not> ok then Inl AddressNotAligned else Inr (PhysFrame addr)) }"

definition phys_frame_add :: "page_size \<Rightarrow> phys_frame \<Rightarrow> u64 \<Rightarrow> phys_frame option" where
  "phys_frame_add s p rhs =
     do { d \<leftarrow> chk_mul rhs (page_size_bytes s); a \<leftarrow> phys_addr_add (frame_start p) d;
          phys_frame_containing_address s a }"

definition phys_frame_sub :: "page_size \<Rightarrow> phys_frame \<Rightarrow> u64 \<Rightarrow> phys_frame option" where
  "phys_frame_sub s p rhs =
     do { d \<leftarrow> chk_mul rhs (page_size_bytes s); a \<leftarrow> phys_addr_sub (frame_start p) d;
          phys_frame_containing_address s a }"

text \<open>The range iterators: one call of \<^verbatim>\<open>next\<close>, and the loop a client runs over them.\<close>

record page_range = range_start :: page  range_end :: page

definition page_range_next :: "page_size \<Rightarrow> page_range \<Rightarrow> (page option \<times> page_range) option" where
  "page_range_next s r =
     (if va (page_start (range_start r)) < va (page_start (range_end r))
      then do { nxt \<leftarrow> page_add s (range_start r) 1;
                Some (Some (range_start r), r\<lparr>range_start := nxt\<rparr>) }
      else Some (None, r))"

partial_function (option) page_range_collect :: "page_size \<Rightarrow> page_range \<Rightarrow> page list option" where
  "page_range_collect s r =
     do { (item, r') \<leftarrow> page_range_next s r;
          (case item of None \<Rightarrow> Some []
           | Some p \<Rightarrow> do { ps \<leftarrow> page_range_collect s r'; Some (p # ps) }) }"

record phys_frame_range = frange_start :: phys_frame  frange_end :: phys_frame

definition phys_frame_range_next ::
  "page_size \<Rightarrow> phys_frame_range \<Rightarrow> (phys_frame option \<times> phys_frame_range) option" where
  "phys_frame_range_next s r =
     (if pa (frame_start (frange_start r)) < pa (frame_start (frange_end r))
      then do { nxt \<leftarrow> phys_frame_add s (frange_start r) 1;
                Some (Some (frange_start r), r\<lparr>frange_start := nxt\<rparr>) }
      else Some (None, r))"

partial_function (option) phys_frame_range_collect ::
  "page_size \<Rightarrow> phys_frame_range \<Rightarrow> phys_frame list option" where
  "phys_frame_range_collect s r =
     do { (item, r') \<leftarrow> phys_frame_range_next s r;
          (case item of None \<Rightarrow> Some []
           | Some p \<Rightarrow> do { ps \<leftarrow> phys_frame_range_collect s r'; Some (p # ps) }) }"


section \<open>Canonical addresses\<close>

text \<open>The invariant of \<^verbatim>\<open>VirtAddr\<close>: bits 48 to 63 repeat bit 47.\<close>

definition canonical :: "u64 \<Rightarrow> bool" where
  "canonical a = (\<forall>n \<in> {48..<64}. bit a n = bit a 47)"

definition virt_ok :: "virt_addr \<Rightarrow> bool" where "virt_ok v = canonical (va v)"
definition phys_ok :: "phys_addr \<Rightarrow> bool" where "phys_ok p = (unat (pa p) < 2 ^ 52)"

definition page_ok :: "page_size \<Rightarrow> page \<Rightarrow> bool" where
  "page_ok s p = (virt_ok (page_start p) \<and> unat (page_size_bytes s) dvd unat (va (page_start p)))"

definition phys_frame_ok :: "page_size \<Rightarrow> phys_frame \<Rightarrow> bool" where
  "phys_frame_ok s f =
     (phys_ok (frame_start f) \<and> unat (page_size_bytes s) dvd unat (pa (frame_start f)))"

lemma bit_virt_addr_new_truncate:
  "bit (va (virt_addr_new_truncate a)) n \<longleftrightarrow> n < 64 \<and> bit a (min n 47)"
  by (auto simp: virt_addr_new_truncate_def bit_signed_drop_bit_iff bit_push_bit_iff min_def
      dest: bit_imp_le_length)

lemma canonical_truncate [simp]: "canonical (va (virt_addr_new_truncate a))"
  by (auto simp: canonical_def bit_virt_addr_new_truncate)

lemma truncate_canonical:
  assumes "canonical a" shows "virt_addr_new_truncate a = VirtAddr a"
proof -
  have "va (virt_addr_new_truncate a) = a"
  proof (rule bit_word_eqI)
    fix n assume "n < LENGTH(64)"
    then show "bit (va (virt_addr_new_truncate a)) n = bit a n"
      using assms by (cases "n \<le> 47") (auto simp: bit_virt_addr_new_truncate canonical_def)
  qed
  then show ?thesis by (cases "virt_addr_new_truncate a") simp
qed

lemma truncate_eq_iff_canonical: "va (virt_addr_new_truncate a) = a \<longleftrightarrow> canonical a"
  by (metis canonical_truncate truncate_canonical virt_addr.sel)

lemma virt_addr_new_Some_iff: "virt_addr_new a = Some v \<longleftrightarrow> canonical a \<and> v = VirtAddr a"
  by (auto simp: virt_addr_new_def Let_def truncate_eq_iff_canonical truncate_canonical
      assert_that_def split: if_splits)

lemma virt_addr_add_ok [simp]: "virt_ok (virt_addr_add v d)"
  and virt_addr_sub_ok [simp]: "virt_ok (virt_addr_sub v d)"
  by (simp_all add: virt_ok_def virt_addr_add_def virt_addr_sub_def)

lemma power_64_eq: "(2 :: nat) ^ 64 = 18446744073709551616"
  and power_47_eq: "(2 :: nat) ^ 47 = 140737488355328"
  by simp_all

lemma low_half_iff: "(\<forall>n \<in> {47..<64}. \<not> bit a n) \<longleftrightarrow> unat a < 2 ^ 47" for a :: u64
proof -
  have "(\<forall>n \<in> {47..<64}. \<not> bit a n) \<longleftrightarrow> drop_bit 47 a = 0"
  proof
    assume *: "\<forall>n \<in> {47..<64}. \<not> bit a n"
    show "drop_bit 47 a = 0"
    proof (rule bit_word_eqI)
      fix n show "bit (drop_bit 47 a) n = bit (0 :: u64) n"
        using * bit_imp_le_length [of a "47 + n"] by (auto simp: bit_drop_bit_eq)
    qed
  next
    assume z: "drop_bit 47 a = 0"
    show "\<forall>n \<in> {47..<64}. \<not> bit a n"
    proof
      fix n :: nat assume "n \<in> {47..<64}"
      then have "bit a n = bit (drop_bit 47 a) (n - 47)" by (simp add: bit_drop_bit_eq)
      then show "\<not> bit a n" by (simp add: z)
    qed
  qed
  also have "\<dots> \<longleftrightarrow> unat a div 2 ^ 47 = 0" by (simp only: unat_drop_bit [symmetric] unsigned_eq_0_iff)
  finally show ?thesis by (simp only: div_eq_0_iff) simp
qed

lemma high_half_iff: "(\<forall>n \<in> {47..<64}. bit a n) \<longleftrightarrow> 2 ^ 64 - 2 ^ 47 \<le> unat a" for a :: u64
proof -
  have "(\<forall>n \<in> {47..<64}. bit a n) \<longleftrightarrow> (\<forall>n \<in> {47..<64}. \<not> bit (NOT a) n)"
    by (auto simp: bit_not_iff)
  also have "\<dots> \<longleftrightarrow> 2 ^ 64 - 1 - unat a < 2 ^ 47" by (simp add: low_half_iff unat_NOT)
  also have "\<dots> \<longleftrightarrow> 2 ^ 64 - 2 ^ 47 \<le> unat a"
    unfolding power_64_eq power_47_eq by linarith
  finally show ?thesis .
qed

lemma ball_from_47: "(\<forall>n \<in> {47..<64 :: nat}. P n) \<longleftrightarrow> P 47 \<and> (\<forall>n \<in> {48..<64}. P n)"
proof -
  have "n \<in> {47..<64} \<longleftrightarrow> n = 47 \<or> n \<in> {48..<64}" for n :: nat unfolding atLeastLessThan_iff by linarith
  then show ?thesis by metis
qed

lemma canonical_iff:
  "canonical a \<longleftrightarrow> unat a < 2 ^ 47 \<or> 2 ^ 64 - 2 ^ 47 \<le> unat a" for a :: u64
proof -
  have "canonical a \<longleftrightarrow> (\<forall>n \<in> {47..<64}. \<not> bit a n) \<or> (\<forall>n \<in> {47..<64}. bit a n)"
    unfolding canonical_def ball_from_47 by (cases "bit a 47") simp_all
  then show ?thesis by (simp only: low_half_iff high_half_iff)
qed


section \<open>Alignment\<close>

fun page_shift :: "page_size \<Rightarrow> nat" where
  "page_shift Size4KiB = 12" | "page_shift Size2MiB = 21" | "page_shift Size1GiB = 30"

lemma page_size_bytes_shift: "page_size_bytes s = 2 ^ page_shift s"
  by (cases s) simp_all

lemma page_shift_bounds: "12 \<le> page_shift s" "page_shift s \<le> 30"
  by (cases s; simp)+

lemma unat_page_size: "unat (page_size_bytes s) = 2 ^ page_shift s"
  by (cases s) simp_all

lemma is_power_of_two_shift: "n < 64 \<Longrightarrow> is_power_of_two (2 ^ n)"
  by (auto simp: is_power_of_two_def)

lemma is_power_of_two_page_size [simp]: "is_power_of_two (page_size_bytes s)"
  using page_shift_bounds [of s] by (simp add: page_size_bytes_shift is_power_of_two_shift)

lemma chk_sub_power: "n < 64 \<Longrightarrow> chk_sub (2 ^ n) 1 = Some (mask n :: u64)"
  by (simp add: chk_sub_Some_iff mask_eq_exp_minus_1 unat_sub word_le_nat_alt unat_power_lower)

lemma bit_and_not_mask: "bit (a AND NOT (mask k)) n \<longleftrightarrow> bit a n \<and> k \<le> n" for a :: u64
  by (auto simp: bit_and_iff bit_not_iff bit_mask_iff not_less dest: bit_imp_le_length)

lemma canonical_and_not_mask:
  "canonical a \<Longrightarrow> k \<le> 47 \<Longrightarrow> canonical (a AND NOT (mask k))"
  by (auto simp: canonical_def bit_and_not_mask)

lemma virt_addr_align_down_eq:
  assumes "virt_ok v" "k \<le> 47"
  shows "virt_addr_align_down v (2 ^ k) = Some (VirtAddr (va v AND NOT (mask k)))"
  using assms
  by (simp add: virt_addr_align_down_def is_power_of_two_shift chk_sub_power virt_ok_def
      canonical_and_not_mask truncate_canonical)

lemma phys_addr_align_down_eq:
  "k < 64 \<Longrightarrow> phys_addr_align_down p (2 ^ k) = Some (PhysAddr (pa p AND NOT (mask k)))"
  by (simp add: phys_addr_align_down_def is_power_of_two_shift chk_sub_power)

lemma and_not_mask_aligned:
  fixes a :: u64 assumes "2 ^ k dvd unat a" shows "a AND NOT (mask k) = a"
  using assms by (simp add: unat_and_not_mask word_unat_eq_iff)

lemma page_containing_address_eq:
  "virt_ok v \<Longrightarrow>
   page_containing_address s v = Some (Page (VirtAddr (va v AND NOT (mask (page_shift s)))))"
  using page_shift_bounds [of s]
  by (simp add: page_containing_address_def page_size_bytes_shift virt_addr_align_down_eq)

lemma phys_frame_containing_address_eq:
  "phys_frame_containing_address s p = Some (PhysFrame (PhysAddr (pa p AND NOT (mask (page_shift s)))))"
  using page_shift_bounds [of s]
  by (simp add: phys_frame_containing_address_def page_size_bytes_shift phys_addr_align_down_eq)

lemma phys_addr_new_Some_iff: "phys_addr_new a = Some p \<longleftrightarrow> unat a < 2 ^ 52 \<and> p = PhysAddr a"
proof -
  have m: "PHYS_ADDR_MASK = mask 52" by (simp add: PHYS_ADDR_MASK_def mask_eq_exp_minus_1)
  have "(a AND PHYS_ADDR_MASK = a) \<longleftrightarrow> unat a < 2 ^ 52"
    unfolding m by (simp add: word_unat_eq_iff unat_and_mask mod_eq_self_iff_less)
  then show ?thesis by (auto simp: phys_addr_new_def Let_def assert_that_def)
qed


section \<open>Table indices\<close>

lemma mask_0x1FF: "0x1FF = (mask 9 :: u16)"
  by (simp add: mask_eq_exp_minus_1)

lemma pti_new_truncate_unat:
  "unat (pti (page_table_index_new_truncate (ucast (drop_bit k a)))) = unat a div 2 ^ k mod 512"
  for a :: u64
proof -
  have "unat (ucast (drop_bit k a) :: u16) = unat a div 2 ^ k mod 2 ^ 16"
    by (simp add: unsigned_ucast_eq unat_drop_bit take_bit_eq_mod)
  then show ?thesis
    unfolding page_table_index_new_truncate_def mask_0x1FF page_table_index.sel unat_and_mask
    by (simp add: mod_mod_cancel)
qed

lemma index_unat:
  "page_table_index_as_usize (pml4_index v) = unat (va v) div 2 ^ 39 mod 512"
  "page_table_index_as_usize (pdpt_index v) = unat (va v) div 2 ^ 30 mod 512"
  "page_table_index_as_usize (pd_index v) = unat (va v) div 2 ^ 21 mod 512"
  "page_table_index_as_usize (pt_index v) = unat (va v) div 2 ^ 12 mod 512"
  by (simp_all only: page_table_index_as_usize_def pml4_index_def pdpt_index_def pd_index_def
      pt_index_def pti_new_truncate_unat)

lemma index_lt_512 [simp]:
  "page_table_index_as_usize (pml4_index v) < 512" "page_table_index_as_usize (pdpt_index v) < 512"
  "page_table_index_as_usize (pd_index v) < 512" "page_table_index_as_usize (pt_index v) < 512"
  by (simp_all add: index_unat)

lemma page_offset_unat: "unat (virt_addr_page_offset v) = unat (va v) mod 2 ^ 12"
proof -
  have m: "PAGE_OFFSET_MASK = mask 12" by (simp add: PAGE_OFFSET_MASK_def mask_eq_exp_minus_1)
  show ?thesis unfolding virt_addr_page_offset_def m by (rule unat_and_mask)
qed

lemma base_512_digits:
  fixes a :: nat
  shows "a mod 2 ^ 48 =
    (((a div 2 ^ 39 mod 512 * 512 + a div 2 ^ 30 mod 512) * 512 + a div 2 ^ 21 mod 512) * 512
     + a div 2 ^ 12 mod 512) * 4096 + a mod 2 ^ 12"
proof -
  have split: "a mod (2 ^ n * 512) = a div 2 ^ n mod 512 * 2 ^ n + a mod 2 ^ n" for n
    by (simp add: mod_mult2_eq mult.commute)
  show ?thesis
    using split [of 39] split [of 30] split [of 21] split [of 12] by simp
qed

lemma canonical_mod_inj:
  assumes "canonical a" "canonical b" "unat a mod 2 ^ 48 = unat b mod 2 ^ 48"
  shows "a = b"
proof -
  have "take_bit 48 (unat a) = take_bit 48 (unat b)" using assms(3) by (simp only: take_bit_eq_mod)
  moreover have "n < 48 \<Longrightarrow> bit w n = bit (take_bit 48 (unat w)) n" for n and w :: u64
    by (simp add: bit_take_bit_iff bit_unsigned_iff)
  ultimately have low: "n < 48 \<Longrightarrow> bit a n = bit b n" for n by simp
  show ?thesis
  proof (rule bit_word_eqI)
    fix n assume "n < LENGTH(64)"
    then consider "n < 48" | "n \<in> {48..<64}" by fastforce
    then show "bit a n = bit b n"
    proof cases
      case 2
      then have "bit a n = bit a 47" "bit b n = bit b 47"
        using assms(1,2) unfolding canonical_def by blast+
      then show ?thesis using low [of 47] by simp
    qed (rule low)
  qed
qed

lemma virt_addr_by_indices:
  assumes "virt_ok v" "virt_ok w"
    and "pml4_index v = pml4_index w" "pdpt_index v = pdpt_index w"
    and "pd_index v = pd_index w" "pt_index v = pt_index w"
    and "virt_addr_page_offset v = virt_addr_page_offset w"
  shows "v = w"
proof -
  have "unat (va v) mod 2 ^ 48 = unat (va w) mod 2 ^ 48"
    unfolding base_512_digits index_unat [symmetric] page_offset_unat [symmetric]
    using assms(3-7) by simp
  then show ?thesis
    using assms(1,2) by (metis canonical_mod_inj virt_addr.expand virt_ok_def)
qed


section \<open>Range iteration\<close>

text \<open>
  The contract both range iterators satisfy: while the cursor is below the end, \<^verbatim>\<open>next\<close> yields it and
  moves it up by one page size. A client that drains such an iterator terminates and sees exactly
  the addresses of the range, in order.
\<close>

locale page_iterator =
  fixes addr :: "'p \<Rightarrow> nat" and size :: nat and ok :: "'p \<Rightarrow> 'p \<Rightarrow> bool"
    and collect :: "'p \<Rightarrow> 'p \<Rightarrow> 'p list option"
  assumes size_pos: "0 < size"
    and aligned: "ok p q \<Longrightarrow> size dvd addr q - addr p"
    and finished: "\<not> addr p < addr q \<Longrightarrow> collect p q = Some []"
    and step: "ok p q \<Longrightarrow> addr p < addr q \<Longrightarrow>
      \<exists>p'. addr p' = addr p + size \<and> ok p' q \<and> collect p q = map_option ((#) p) (collect p' q)"
begin

lemma collect_count:
  assumes "ok p q" "addr q - addr p = n * size"
  shows "\<exists>ps. collect p q = Some ps \<and> map addr ps = map (\<lambda>i. addr p + i * size) [0..<n]"
  using assms
proof (induction n arbitrary: p)
  case 0
  then show ?case by (simp add: finished)
next
  case (Suc n)
  from Suc.prems(2) size_pos have "addr p < addr q" by (cases "addr p < addr q") auto
  with step [OF Suc.prems(1)] obtain p' where
    p': "addr p' = addr p + size" "ok p' q" "collect p q = map_option ((#) p) (collect p' q)" by auto
  from p'(1) Suc.prems(2) have "addr q - addr p' = n * size" by simp
  from Suc.IH [OF p'(2) this] obtain ps where
    ps: "collect p' q = Some ps" "map addr ps = map (\<lambda>i. addr p' + i * size) [0..<n]" by auto
  have "map addr (p # ps) = map (\<lambda>i. addr p + i * size) [0..<Suc n]"
    by (simp add: ps(2) p'(1) upt_conv_Cons map_Suc_upt [symmetric] del: upt_Suc)
  then show ?case using ps p' by auto
qed

lemma collect_total:
  assumes "ok p q"
  shows "\<exists>ps. collect p q = Some ps \<and>
    map addr ps = map (\<lambda>i. addr p + i * size) [0..<(addr q - addr p) div size]"
  using assms aligned [OF assms] by (intro collect_count) simp_all

end

definition page_nat :: "page \<Rightarrow> nat" where "page_nat p = unat (va (page_start p))"
definition frame_nat :: "phys_frame \<Rightarrow> nat" where "frame_nat f = unat (pa (frame_start f))"

text \<open>A page range that does not cross the non-canonical hole.\<close>

definition page_range_ok :: "page_size \<Rightarrow> page \<Rightarrow> page \<Rightarrow> bool" where
  "page_range_ok s p q =
     (page_ok s p \<and> page_ok s q \<and> (page_nat p < 2 ^ 47 \<longleftrightarrow> page_nat q < 2 ^ 47))"

definition frame_range_ok :: "page_size \<Rightarrow> phys_frame \<Rightarrow> phys_frame \<Rightarrow> bool" where
  "frame_range_ok s p q = (phys_frame_ok s p \<and> phys_frame_ok s q)"

lemma aligned_step:
  fixes a b n :: nat
  assumes "n dvd a" "n dvd b" "a < b" shows "a + n \<le> b"
proof -
  have "n dvd b - a" using assms by simp
  then have "n \<le> b - a" using assms(3) by (intro dvd_imp_le) simp_all
  then show ?thesis using assms(3) by simp
qed

lemma page_add_one:
  assumes ok: "page_range_ok s p q" and lt: "page_nat p < page_nat q"
  obtains p' where "page_add s p 1 = Some p'" "page_nat p' = page_nat p + 2 ^ page_shift s"
    "page_range_ok s p' q"
proof -
  let ?x = "va (page_start p) + page_size_bytes s"
  have al: "2 ^ page_shift s dvd page_nat p" "2 ^ page_shift s dvd page_nat q"
    using ok by (simp_all add: page_range_ok_def page_ok_def page_nat_def unat_page_size)
  have le: "page_nat p + 2 ^ page_shift s \<le> page_nat q" by (rule aligned_step [OF al lt])
  then have x: "unat ?x = page_nat p + 2 ^ page_shift s"
    unfolding page_nat_def by (subst unat_add_below) (simp_all add: unat_page_size)
  have "canonical ?x"
    using ok le x unfolding canonical_iff page_range_ok_def page_ok_def virt_ok_def page_nat_def
    by linarith
  moreover have "?x AND NOT (mask (page_shift s)) = ?x"
    using al(1) by (intro and_not_mask_aligned) (simp add: x)
  ultimately have "page_add s p 1 = Some (Page (VirtAddr ?x))"
    by (simp add: page_add_def virt_addr_add_def truncate_canonical
        page_containing_address_eq virt_ok_def)
  moreover have "page_range_ok s (Page (VirtAddr ?x)) q"
    using ok le x al(1) \<open>canonical ?x\<close>
    by (auto simp: page_range_ok_def page_ok_def virt_ok_def page_nat_def unat_page_size canonical_iff)
  ultimately show ?thesis using x by (intro that) (simp_all add: page_nat_def)
qed


lemma phys_frame_add_one:
  assumes ok: "frame_range_ok s p q" and lt: "frame_nat p < frame_nat q"
  obtains p' where "phys_frame_add s p 1 = Some p'" "frame_nat p' = frame_nat p + 2 ^ page_shift s"
    "frame_range_ok s p' q"
proof -
  let ?x = "pa (frame_start p) + page_size_bytes s"
  have al: "2 ^ page_shift s dvd frame_nat p" "2 ^ page_shift s dvd frame_nat q"
    using ok by (simp_all add: frame_range_ok_def phys_frame_ok_def frame_nat_def unat_page_size)
  have le: "frame_nat p + 2 ^ page_shift s \<le> frame_nat q" by (rule aligned_step [OF al lt])
  then have x: "unat ?x = frame_nat p + 2 ^ page_shift s"
    unfolding frame_nat_def by (subst unat_add_below) (simp_all add: unat_page_size)
  have b: "unat ?x < 2 ^ 52"
    using ok le x by (simp add: frame_range_ok_def phys_frame_ok_def phys_ok_def frame_nat_def)
  have m: "?x AND NOT (mask (page_shift s)) = ?x"
    using al(1) by (intro and_not_mask_aligned) (simp add: x)
  have "chk_add (pa (frame_start p)) (page_size_bytes s) = Some ?x"
    using x by (simp add: chk_add_Some_iff frame_nat_def unat_page_size)
  then have "phys_frame_add s p 1 = Some (PhysFrame (PhysAddr ?x))"
    using b m
    by (simp add: phys_frame_add_def phys_addr_add_def phys_addr_new_Some_iff [THEN iffD2]
        phys_frame_containing_address_eq)
  moreover have "frame_range_ok s (PhysFrame (PhysAddr ?x)) q"
    using ok b x al(1)
    by (simp add: frame_range_ok_def phys_frame_ok_def phys_ok_def unat_page_size)
  ultimately show ?thesis using x by (intro that) (simp_all add: frame_nat_def)
qed

interpretation pages: page_iterator page_nat "2 ^ page_shift s" "page_range_ok s"
  "\<lambda>p q. page_range_collect s \<lparr>range_start = p, range_end = q\<rparr>" for s
proof
  fix p q assume "page_range_ok s p q"
  then show "2 ^ page_shift s dvd page_nat q - page_nat p"
    by (simp add: page_range_ok_def page_ok_def page_nat_def unat_page_size)
next
  fix p q assume "\<not> page_nat p < page_nat q"
  then show "page_range_collect s \<lparr>range_start = p, range_end = q\<rparr> = Some []"
    by (subst page_range_collect.simps) (simp add: page_range_next_def page_nat_def word_less_nat_alt)
next
  fix p q assume *: "page_range_ok s p q" "page_nat p < page_nat q"
  obtain p' where p': "page_add s p 1 = Some p'" "page_nat p' = page_nat p + 2 ^ page_shift s"
    "page_range_ok s p' q" by (rule page_add_one [OF *])
  have "page_range_collect s \<lparr>range_start = p, range_end = q\<rparr> =
      map_option ((#) p) (page_range_collect s \<lparr>range_start = p', range_end = q\<rparr>)"
    using *(2) p'(1)
    by (subst page_range_collect.simps)
       (simp add: page_range_next_def page_nat_def word_less_nat_alt bind_Some_eq_map)
  with p' show "\<exists>p'. page_nat p' = page_nat p + 2 ^ page_shift s \<and> page_range_ok s p' q \<and>
      page_range_collect s \<lparr>range_start = p, range_end = q\<rparr> =
      map_option ((#) p) (page_range_collect s \<lparr>range_start = p', range_end = q\<rparr>)" by blast
qed simp

interpretation frames: page_iterator frame_nat "2 ^ page_shift s" "frame_range_ok s"
  "\<lambda>p q. phys_frame_range_collect s \<lparr>frange_start = p, frange_end = q\<rparr>" for s
proof
  fix p q assume "frame_range_ok s p q"
  then show "2 ^ page_shift s dvd frame_nat q - frame_nat p"
    by (simp add: frame_range_ok_def phys_frame_ok_def frame_nat_def unat_page_size)
next
  fix p q assume "\<not> frame_nat p < frame_nat q"
  then show "phys_frame_range_collect s \<lparr>frange_start = p, frange_end = q\<rparr> = Some []"
    by (subst phys_frame_range_collect.simps)
       (simp add: phys_frame_range_next_def frame_nat_def word_less_nat_alt)
next
  fix p q assume *: "frame_range_ok s p q" "frame_nat p < frame_nat q"
  obtain p' where p': "phys_frame_add s p 1 = Some p'"
    "frame_nat p' = frame_nat p + 2 ^ page_shift s" "frame_range_ok s p' q"
    by (rule phys_frame_add_one [OF *])
  have "phys_frame_range_collect s \<lparr>frange_start = p, frange_end = q\<rparr> =
      map_option ((#) p) (phys_frame_range_collect s \<lparr>frange_start = p', frange_end = q\<rparr>)"
    using *(2) p'(1)
    by (subst phys_frame_range_collect.simps)
       (simp add: phys_frame_range_next_def frame_nat_def word_less_nat_alt bind_Some_eq_map)
  with p' show "\<exists>p'. frame_nat p' = frame_nat p + 2 ^ page_shift s \<and> frame_range_ok s p' q \<and>
      phys_frame_range_collect s \<lparr>frange_start = p, frange_end = q\<rparr> =
      map_option ((#) p) (phys_frame_range_collect s \<lparr>frange_start = p', frange_end = q\<rparr>)" by blast
qed simp


section \<open>Properties\<close>

text \<open>
  The canonical address that an integer denotes: the one that agrees with it in the low 48 bits.
\<close>

definition denotes :: "virt_addr \<Rightarrow> int \<Rightarrow> bool" where
  "denotes w n = (virt_ok w \<and> uint (va w) mod 2 ^ 48 = n mod 2 ^ 48)"

lemma denotes_unique: "denotes v n \<Longrightarrow> denotes w n \<Longrightarrow> v = w"
proof -
  assume *: "denotes v n" "denotes w n"
  then have "uint (va v) mod 2 ^ 48 = uint (va w) mod 2 ^ 48" by (simp only: denotes_def)
  then have "int (unat (va v) mod 2 ^ 48) = int (unat (va w) mod 2 ^ 48)" by (simp only: uint_nat zmod_int of_nat_power of_nat_numeral)
  then have "unat (va v) mod 2 ^ 48 = unat (va w) mod 2 ^ 48" by (simp only: of_nat_eq_iff)
  then have "va v = va w" using * canonical_mod_inj by (simp add: denotes_def virt_ok_def)
  then show "v = w" by (rule virt_addr.expand)
qed

lemma truncate_denotes: "denotes (virt_addr_new_truncate a) (uint a)"
proof -
  have "take_bit 48 (va (virt_addr_new_truncate a)) = take_bit 48 a"
    by (rule bit_word_eqI) (auto simp: bit_take_bit_iff bit_virt_addr_new_truncate min_def)
  then have "take_bit 48 (uint (va (virt_addr_new_truncate a))) = take_bit 48 (uint a)"
    by (simp flip: unsigned_take_bit_eq)
  then show ?thesis by (simp add: denotes_def virt_ok_def take_bit_eq_mod)
qed

lemma denotes_uint_mod: "denotes w (uint a) \<Longrightarrow> uint a = n mod 2 ^ 64 \<Longrightarrow> denotes w n" for a :: u64
  by (simp add: denotes_def mod_mod_cancel)

lemma chk_add_power:
  fixes a :: u64 assumes "k < 64" "unat a + 2 ^ k < 2 ^ 64"
  shows "chk_add a (2 ^ k) = Some (a + 2 ^ k)" "chk_sub (a + 2 ^ k) 1 = Some (a + mask k)"
    "unat (a + mask k) = unat a + 2 ^ k - 1"
proof -
  have p: "unat (2 ^ k :: u64) = 2 ^ k" using assms(1) by (simp add: unat_power_lower)
  then have s: "unat (a + 2 ^ k) = unat a + 2 ^ k"
    using unat_add_lem [of a "2 ^ k"] assms(2) by simp
  show "chk_add a (2 ^ k) = Some (a + 2 ^ k)" using assms(2) p by (simp add: chk_add_def)
  have m: "a + 2 ^ k - 1 = a + mask k" by (simp add: mask_eq_exp_minus_1)
  have "1 \<le> unat (a + 2 ^ k)" unfolding s using one_le_power [of "2 :: nat" k] by linarith
  then have one: "1 \<le> a + 2 ^ k" by (simp add: word_le_nat_alt)
  then show "chk_sub (a + 2 ^ k) 1 = Some (a + mask k)" by (simp add: chk_sub_def m)
  show "unat (a + mask k) = unat a + 2 ^ k - 1" using unat_sub [OF one] s m by simp
qed

lemma align_nat: "n - n mod 2 ^ k = n div 2 ^ k * 2 ^ k" for n :: nat
  by (simp add: minus_mod_eq_div_mult)

lemma virt_addr_align_up_eq:
  assumes "k < 64" "unat (va v) + 2 ^ k < 2 ^ 64"
  shows "virt_addr_align_up v (2 ^ k) = Some (virt_addr_new_truncate ((va v + mask k) AND NOT (mask k)))"
  using assms by (simp add: virt_addr_align_up_def is_power_of_two_shift chk_add_power chk_sub_power)

lemma phys_addr_align_up_eq:
  assumes "k < 64" "unat (pa p) + 2 ^ k < 2 ^ 64"
  shows "phys_addr_align_up p (2 ^ k) = Some (PhysAddr ((pa p + mask k) AND NOT (mask k)))"
  using assms by (simp add: phys_addr_align_up_def is_power_of_two_shift chk_add_power chk_sub_power)

lemma unat_align_up:
  fixes a :: u64 assumes "k < 64" "unat a + 2 ^ k < 2 ^ 64"
  shows "unat ((a + mask k) AND NOT (mask k)) = (unat a + 2 ^ k - 1) div 2 ^ k * 2 ^ k"
  unfolding unat_and_not_mask chk_add_power(3) [OF assms] align_nat ..



lemma virt_addr_new_eq: "virt_addr_new a = (if canonical a then Some (VirtAddr a) else None)"
  by (simp add: virt_addr_new_def truncate_eq_iff_canonical truncate_canonical assert_that_def)

lemma phys_addr_new_eq: "phys_addr_new a = (if unat a < 2 ^ 52 then Some (PhysAddr a) else None)"
  using phys_addr_new_Some_iff [of a] by (cases "phys_addr_new a") (auto split: if_splits)

lemma virt_addr_add_denotes: "denotes (virt_addr_add v d) (uint (va v) + uint d)"
  unfolding virt_addr_add_def by (rule denotes_uint_mod [OF truncate_denotes]) (simp add: uint_word_ariths)

lemma virt_addr_sub_denotes: "denotes (virt_addr_sub v d) (uint (va v) - uint d)"
  unfolding virt_addr_sub_def by (rule denotes_uint_mod [OF truncate_denotes]) (simp add: uint_word_ariths)

lemma virt_addr_align_down_value:
  "virt_ok v \<Longrightarrow> k \<le> 47 \<Longrightarrow>
   \<exists>w. virt_addr_align_down v (2 ^ k) = Some w \<and> virt_ok w \<and> unat (va w) = unat (va v) div 2 ^ k * 2 ^ k"
  by (simp add: virt_addr_align_down_eq virt_ok_def canonical_and_not_mask unat_and_not_mask align_nat)

lemma virt_addr_align_up_value:
  assumes "k < 64"
  shows "case virt_addr_align_up v (2 ^ k) of None \<Rightarrow> 2 ^ 64 \<le> unat (va v) + 2 ^ k
    | Some w \<Rightarrow> unat (va v) + 2 ^ k < 2 ^ 64 \<and> denotes w (int ((unat (va v) + 2 ^ k - 1) div 2 ^ k * 2 ^ k))"
proof (cases "unat (va v) + 2 ^ k < 2 ^ 64")
  case True
  note denotes = truncate_denotes [of "(va v + mask k) AND NOT (mask k)"]
  show ?thesis using denotes unfolding virt_addr_align_up_eq [OF assms True] uint_nat unat_align_up [OF assms True]
    by (simp only: option.case True simp_thms)
next
  case False
  then have "chk_add (va v) (2 ^ k) = None" using assms by (simp add: chk_add_None_iff unat_power_lower)
  then show ?thesis using False assms by (simp add: virt_addr_align_up_def is_power_of_two_shift)
qed

lemma phys_addr_add_eq:
  "phys_addr_add p d = (if unat (pa p) + unat d < 2 ^ 52 then Some (PhysAddr (pa p + d)) else None)"
  using unat_add_lem [of "pa p" d] by (auto simp: phys_addr_add_def phys_addr_new_eq chk_add_def)

lemma phys_addr_sub_eq:
  "phys_ok p \<Longrightarrow> phys_addr_sub p d = (if d \<le> pa p then Some (PhysAddr (pa p - d)) else None)"
  by (auto simp: phys_addr_sub_def phys_addr_new_eq chk_sub_def phys_ok_def unat_sub)

lemma phys_addr_is_aligned_eq:
  "k < 64 \<Longrightarrow> phys_addr_is_aligned p (2 ^ k) = Some (2 ^ k dvd unat (pa p))"
  by (simp add: phys_addr_is_aligned_def is_power_of_two_shift chk_sub_power word_unat_eq_iff unat_and_mask dvd_eq_mod_eq_0)

lemma align_up_le_iff: "2 ^ k dvd m \<Longrightarrow> (n + 2 ^ k - 1) div 2 ^ k * 2 ^ k \<le> m \<longleftrightarrow> n \<le> m" for n m :: nat
proof -
  assume "2 ^ k dvd m"
  then obtain j where j: "m = j * 2 ^ k" by (auto simp: mult.commute)
  have "(n + 2 ^ k - 1) div 2 ^ k * 2 ^ k \<le> m \<longleftrightarrow> (n + 2 ^ k - 1) div 2 ^ k \<le> j" by (simp add: j)
  also have "\<dots> \<longleftrightarrow> n + 2 ^ k - 1 < (j + 1) * 2 ^ k"
    using div_less_iff_less_mult [of "2 ^ k" "n + 2 ^ k - 1" "j + 1"] by (simp add: less_Suc_eq_le)
  also have "\<dots> \<longleftrightarrow> n \<le> m" using one_le_power [of "2 :: nat" k] unfolding j add_mult_distrib by linarith
  finally show ?thesis .
qed

lemma multiple_less_iff:
  assumes "(n :: nat) dvd a" "n dvd b" "0 < n" "0 < b" shows "a < b \<longleftrightarrow> a \<le> b - n"
proof -
  obtain i j where ij: "a = n * i" "b = n * j" using assms(1,2) by (elim dvdE)
  have "b - n = n * (j - 1)" by (simp add: ij diff_mult_distrib2)
  then show ?thesis using assms(3,4) ij by auto
qed





text \<open>
  C32: draining a \<^verbatim>\<open>PageRange\<close> terminates without a panic and yields exactly the pages of the range,
  in ascending order, for every page size and every range within one canonical half.
\<close>

theorem page_range_visits_exactly:
  assumes "page_range_ok s p q"
  shows "\<exists>ps. page_range_collect s \<lparr>range_start = p, range_end = q\<rparr> = Some ps \<and>
    map page_nat ps =
      map (\<lambda>i. page_nat p + i * 2 ^ page_shift s) [0..<(page_nat q - page_nat p) div 2 ^ page_shift s]"
  by (rule pages.collect_total [OF assms])

theorem page_range_visits_exactly_witness:
  "\<exists>ps. page_range_collect Size4KiB
       \<lparr>range_start = Page (VirtAddr 0x1000), range_end = Page (VirtAddr 0x4000)\<rparr> = Some ps \<and>
     map page_nat ps = [0x1000, 0x2000, 0x3000]"
  using page_range_visits_exactly [of Size4KiB "Page (VirtAddr 0x1000)" "Page (VirtAddr 0x4000)"]
  by (simp add: page_range_ok_def page_ok_def virt_ok_def canonical_iff page_nat_def upt_rec)

end
