(* ===== verification/Noalloc.thy ===== *)
theory Noalloc
  imports Hadron_Prelude
begin

text \<open>
  The interface of the third-party crate \<^verbatim>\<open>planck_noalloc\<close> as far as the kernel uses it. The crate is
  not part of the repository, so its operations are arguments of the definitions that call them: a
  record \<open>array_vec\<close> of the methods of \<^verbatim>\<open>ArrayVec<T, N>\<close>, acting on the slice the vector
  dereferences to. \<open>array_vec_ok N av\<close> states their documented behaviour for a vector of capacity
  \<open>N\<close>; \<open>list_array_vec\<close> shows that it can be met.
\<close>

record 'a array_vec =
  av_insert :: "'a list \<Rightarrow> nat \<Rightarrow> 'a \<Rightarrow> 'a list option"
  av_remove :: "'a list \<Rightarrow> nat \<Rightarrow> ('a \<times> 'a list) option"
  av_pop :: "'a list \<Rightarrow> 'a option \<times> 'a list"
  av_try_push :: "'a list \<Rightarrow> 'a \<Rightarrow> bool \<times> 'a list"
  av_is_full :: "'a list \<Rightarrow> bool"
  av_push :: "'a list \<Rightarrow> 'a \<Rightarrow> 'a list option"
  av_swap_remove :: "'a list \<Rightarrow> nat \<Rightarrow> ('a \<times> 'a list) option"

definition array_vec_ok :: "nat \<Rightarrow> 'a array_vec \<Rightarrow> bool" where
  "array_vec_ok N av =
     ((\<forall>v i x. length v < N \<longrightarrow> i \<le> length v \<longrightarrow> av_insert av v i x = Some (take i v @ x # drop i v)) \<and>
      (\<forall>v i. length v \<le> N \<longrightarrow> i < length v \<longrightarrow> av_remove av v i = Some (v ! i, take i v @ drop (Suc i) v)) \<and>
      (\<forall>v. length v \<le> N \<longrightarrow> v \<noteq> [] \<longrightarrow> av_pop av v = (Some (last v), butlast v)) \<and>
      (\<forall>v x. length v < N \<longrightarrow> av_try_push av v x = (True, v @ [x])) \<and>
      (\<forall>v x. length v = N \<longrightarrow> av_try_push av v x = (False, v)) \<and>
      (\<forall>v. length v \<le> N \<longrightarrow> av_is_full av v = (length v = N)) \<and>
      av_pop av [] = (None, []) \<and>
      (\<forall>v x. length v < N \<longrightarrow> av_push av v x = Some (v @ [x])) \<and>
      (\<forall>v i. length v \<le> N \<longrightarrow> i < length v \<longrightarrow>
         av_swap_remove av v i = Some (v ! i, butlast (v[i := last v]))))"

definition list_array_vec :: "nat \<Rightarrow> 'a array_vec" where
  "list_array_vec N =
     \<lparr>av_insert = (\<lambda>v i x. if length v < N \<and> i \<le> length v then Some (take i v @ x # drop i v) else None),
      av_remove = (\<lambda>v i. if i < length v then Some (v ! i, take i v @ drop (Suc i) v) else None),
      av_pop = (\<lambda>v. if v = [] then (None, []) else (Some (last v), butlast v)),
      av_try_push = (\<lambda>v x. if length v < N then (True, v @ [x]) else (False, v)),
      av_is_full = (\<lambda>v. length v = N),
      av_push = (\<lambda>v x. if length v < N then Some (v @ [x]) else None),
      av_swap_remove = (\<lambda>v i. if i < length v then Some (v ! i, butlast (v[i := last v])) else None)\<rparr>"

lemma list_array_vec_ok [simp]: "array_vec_ok N (list_array_vec N)"
  by (simp add: array_vec_ok_def list_array_vec_def)

lemma array_vec_ok_simps:
  assumes "array_vec_ok N av"
  shows "length v < N \<Longrightarrow> i \<le> length v \<Longrightarrow> av_insert av v i x = Some (take i v @ x # drop i v)"
    "length v \<le> N \<Longrightarrow> i < length v \<Longrightarrow> av_remove av v i = Some (v ! i, take i v @ drop (Suc i) v)"
    "length v \<le> N \<Longrightarrow> v \<noteq> [] \<Longrightarrow> av_pop av v = (Some (last v), butlast v)"
    "length v < N \<Longrightarrow> av_try_push av v x = (True, v @ [x])"
    "length v = N \<Longrightarrow> av_try_push av v x = (False, v)"
    "length v \<le> N \<Longrightarrow> av_is_full av v = (length v = N)"
    "av_pop av [] = (None, [])"
    "length v < N \<Longrightarrow> av_push av v x = Some (v @ [x])"
    "length v \<le> N \<Longrightarrow> i < length v \<Longrightarrow> av_swap_remove av v i = Some (v ! i, butlast (v[i := last v]))"
  using assms unfolding array_vec_ok_def by blast+

end
