(* ===== verification/Region.thy ===== *)
theory Region
  imports Addr Noalloc
begin

text \<open>
  Kernel virtual address regions: \<^verbatim>\<open>kernel/mm/src/layout.rs\<close> and \<^verbatim>\<open>kernel/mm/src/region.rs\<close>.

  The layout of the higher half, the bump allocator of the heap region and the coalescing allocator
  of the stack and MMIO regions. The free list lives in an \<^verbatim>\<open>ArrayVec\<close> (argument \<open>av\<close>, see Noalloc).
  The lemmas show that the regions of the default layout are disjoint and identified correctly, and
  that the coalescing allocator manages the set of free addresses of its region exactly: an
  allocation fails only when no contiguous free interval is large enough.
\<close>

section \<open>Layout\<close>

definition DEFAULT_REGIONS_BASE :: u64 where "DEFAULT_REGIONS_BASE = 0xFFFFC00000000000"
definition HEAP_OFFSET :: u64 where "HEAP_OFFSET = 0"
definition HEAP_MAX_SIZE :: u64 where "HEAP_MAX_SIZE = 2 * 1024 * 1024 * 1024 * 1024"
definition STACKS_OFFSET :: u64 where "STACKS_OFFSET = 8 * 1024 * 1024 * 1024 * 1024"
definition STACKS_MAX_SIZE :: u64 where "STACKS_MAX_SIZE = 512 * 1024 * 1024 * 1024"
definition MMIO_OFFSET :: u64 where "MMIO_OFFSET = 16 * 1024 * 1024 * 1024 * 1024"
definition MMIO_MAX_SIZE :: u64 where "MMIO_MAX_SIZE = 1024 * 1024 * 1024 * 1024"
definition PERCPU_OFFSET :: u64 where "PERCPU_OFFSET = 32 * 1024 * 1024 * 1024 * 1024"
definition PERCPU_MAX_SIZE :: u64 where "PERCPU_MAX_SIZE = 1024 * 1024 * 1024 * 1024"
definition VDSO_OFFSET :: u64 where "VDSO_OFFSET = 48 * 1024 * 1024 * 1024 * 1024"
definition VDSO_MAX_SIZE :: u64 where "VDSO_MAX_SIZE = 2 * 1024 * 1024"
definition KERNEL_IMAGE_BASE :: u64 where "KERNEL_IMAGE_BASE = 0xFFFFFFFF80000000"
definition KERNEL_IMAGE_MAX_SIZE :: u64 where "KERNEL_IMAGE_MAX_SIZE = 128 * 1024 * 1024"
definition INITIAL_HEAP_SIZE :: u64 where "INITIAL_HEAP_SIZE = 4 * 1024 * 1024"
definition HEAP_GROW_MIN :: u64 where "HEAP_GROW_MIN = 64 * 1024"

record virt_region =
  vr_base :: virt_addr
  vr_max_size :: u64

definition virt_region_new :: "virt_addr \<Rightarrow> u64 \<Rightarrow> virt_region" where
  "virt_region_new base max_size = \<lparr>vr_base = base, vr_max_size = max_size\<rparr>"

definition virt_region_end :: "virt_region \<Rightarrow> virt_addr" where
  "virt_region_end r = virt_addr_add (vr_base r) (vr_max_size r)"

definition virt_region_contains :: "virt_region \<Rightarrow> virt_addr \<Rightarrow> bool option" where
  "virt_region_contains r addr =
     (if va (vr_base r) \<le> va addr
      then do { e \<leftarrow> chk_add (va (vr_base r)) (vr_max_size r); Some (va addr < e) }
      else Some False)"

record memory_layout =
  ml_hhdm_base :: virt_addr
  ml_hhdm_size :: u64
  ml_regions_base :: virt_addr
  ml_heap :: virt_region
  ml_stacks :: virt_region
  ml_mmio :: virt_region
  ml_percpu :: virt_region
  ml_vdso :: virt_region
  ml_kernel_image :: virt_region

datatype fault_region = Heap | Stacks | Mmio | PerCpu | KernelImage | Hhdm | Unknown

definition memory_layout_with_regions_base :: "virt_addr \<Rightarrow> u64 \<Rightarrow> u64 \<Rightarrow> memory_layout" where
  "memory_layout_with_regions_base hhdm max_phys regions_base =
     (let rb = virt_addr_new_truncate regions_base in
      \<lparr>ml_hhdm_base = hhdm, ml_hhdm_size = max_phys, ml_regions_base = rb,
       ml_heap = virt_region_new (virt_addr_add rb HEAP_OFFSET) HEAP_MAX_SIZE,
       ml_stacks = virt_region_new (virt_addr_add rb STACKS_OFFSET) STACKS_MAX_SIZE,
       ml_mmio = virt_region_new (virt_addr_add rb MMIO_OFFSET) MMIO_MAX_SIZE,
       ml_percpu = virt_region_new (virt_addr_add rb PERCPU_OFFSET) PERCPU_MAX_SIZE,
       ml_vdso = virt_region_new (virt_addr_add rb VDSO_OFFSET) VDSO_MAX_SIZE,
       ml_kernel_image =
         virt_region_new (virt_addr_new_truncate KERNEL_IMAGE_BASE) KERNEL_IMAGE_MAX_SIZE\<rparr>)"

definition memory_layout_new :: "virt_addr \<Rightarrow> u64 \<Rightarrow> memory_layout" where
  "memory_layout_new hhdm max_phys =
     memory_layout_with_regions_base hhdm max_phys DEFAULT_REGIONS_BASE"

definition identify_region :: "memory_layout \<Rightarrow> virt_addr \<Rightarrow> fault_region option" where
  "identify_region l addr =
     do { h \<leftarrow> virt_region_contains (ml_heap l) addr;
          if h then Some Heap
          else do { s \<leftarrow> virt_region_contains (ml_stacks l) addr;
          if s then Some Stacks
          else do { m \<leftarrow> virt_region_contains (ml_mmio l) addr;
          if m then Some Mmio
          else do { p \<leftarrow> virt_region_contains (ml_percpu l) addr;
          if p then Some PerCpu
          else do { k \<leftarrow> virt_region_contains (ml_kernel_image l) addr;
          if k then Some KernelImage
          else do {
            d \<leftarrow> (if va (ml_hhdm_base l) \<le> va addr
                 then do { e \<leftarrow> chk_add (va (ml_hhdm_base l)) (ml_hhdm_size l); Some (va addr < e) }
                 else Some False);
            if d then Some Hhdm else Some Unknown } } } } } }"

section \<open>The bump allocator\<close>

definition PAGE_MASK :: u64 where "PAGE_MASK = 0xFFF"

definition page_align_up :: "u64 \<Rightarrow> u64 option" where
  "page_align_up sz = do { s \<leftarrow> chk_add sz PAGE_MASK; Some (s AND NOT PAGE_MASK) }"

record region_allocator =
  ra_region :: virt_region
  ra_next :: u64

definition region_allocator_new :: "virt_region \<Rightarrow> region_allocator" where
  "region_allocator_new region = \<lparr>ra_region = region, ra_next = va (vr_base region)\<rparr>"

definition region_allocate ::
  "region_allocator \<Rightarrow> u64 \<Rightarrow> (virt_addr option \<times> region_allocator) option" where
  "region_allocate self sz =
     do { aligned_size \<leftarrow> page_align_up sz;
          e \<leftarrow> chk_add (ra_next self) aligned_size;
          region_end \<leftarrow> chk_add (va (vr_base (ra_region self))) (vr_max_size (ra_region self));
          if region_end < e then Some (None, self)
          else Some (Some (virt_addr_new_truncate (ra_next self)), self\<lparr>ra_next := e\<rparr>) }"

definition region_current :: "region_allocator \<Rightarrow> virt_addr" where
  "region_current self = virt_addr_new_truncate (ra_next self)"

definition region_used :: "region_allocator \<Rightarrow> u64 option" where
  "region_used self = chk_sub (ra_next self) (va (vr_base (ra_region self)))"

section \<open>The coalescing allocator\<close>

datatype region_alloc_error = FreeListFull

record free_range =
  fr_base :: u64
  fr_size :: u64

record free_region_allocator =
  fra_region :: virt_region
  free_list :: "free_range list"
  watermark :: u64

definition free_region_new :: "virt_region \<Rightarrow> free_region_allocator" where
  "free_region_new region =
     \<lparr>fra_region = region, free_list = [], watermark = va (vr_base region)\<rparr>"

text \<open>The first-fit loop: the base found, if any, and the updated free list.\<close>

fun fit_loop ::
  "free_range array_vec \<Rightarrow> u64 \<Rightarrow> free_range list \<Rightarrow> nat list \<Rightarrow>
   (u64 \<times> free_range list) option option" where
  "fit_loop av aligned_size fl [] = Some None"
| "fit_loop av aligned_size fl (i # is) =
     do { entry \<leftarrow> idx fl i;
          if aligned_size \<le> fr_size entry
          then do {
            fl' \<leftarrow> (if fr_size entry = aligned_size
                   then do { (_, rest) \<leftarrow> av_remove av fl i; Some rest }
                   else do { b \<leftarrow> chk_add (fr_base entry) aligned_size;
                             s \<leftarrow> chk_sub (fr_size entry) aligned_size;
                             upd_idx fl i \<lparr>fr_base = b, fr_size = s\<rparr> });
            Some (Some (fr_base entry, fl')) }
          else fit_loop av aligned_size fl is }"

definition free_region_allocate ::
  "free_range array_vec \<Rightarrow> free_region_allocator \<Rightarrow> u64 \<Rightarrow>
   (virt_addr option \<times> free_region_allocator) option" where
  "free_region_allocate av self sz =
     do { aligned_size \<leftarrow> page_align_up sz;
          if aligned_size = 0 then Some (Some (virt_addr_new_truncate (watermark self)), self)
          else do {
            found \<leftarrow> fit_loop av aligned_size (free_list self) [0..<length (free_list self)];
            (case found of
               Some (base, fl) \<Rightarrow> Some (Some (virt_addr_new_truncate base), self\<lparr>free_list := fl\<rparr>)
             | None \<Rightarrow> do {
                 e \<leftarrow> chk_add (watermark self) aligned_size;
                 region_end \<leftarrow> chk_add (va (vr_base (fra_region self))) (vr_max_size (fra_region self));
                 if region_end < e then Some (None, self)
                 else Some (Some (virt_addr_new_truncate (watermark self)), self\<lparr>watermark := e\<rparr>) }) } }"

text \<open>
  \<^verbatim>\<open>slice::binary_search_by_key\<close> on the strictly sorted free list, where both outcomes carry the same
  index: the number of entries whose base is below the key.
\<close>

definition insertion_index :: "free_range list \<Rightarrow> u64 \<Rightarrow> nat" where
  "insertion_index fl addr = length (takeWhile (\<lambda>r. fr_base r < addr) fl)"

partial_function (option) retract_watermark ::
  "free_range array_vec \<Rightarrow> free_region_allocator \<Rightarrow> free_region_allocator option" where
  "retract_watermark av self =
     (if free_list self = [] then Some self
      else do { let l = last (free_list self);
                e \<leftarrow> chk_add (fr_base l) (fr_size l);
                if e = watermark self
                then retract_watermark av
                       (self\<lparr>watermark := fr_base l, free_list := snd (av_pop av (free_list self))\<rparr>)
                else Some self })"

text \<open>The four-way merge of a freed range with its neighbours; \<^const>\<open>None\<close> inside is a full list.\<close>

definition merge_range ::
  "free_range array_vec \<Rightarrow> free_range list \<Rightarrow> nat \<Rightarrow> u64 \<Rightarrow> u64 \<Rightarrow> bool \<Rightarrow> bool \<Rightarrow>
   free_range list option option" where
  "merge_range av fl i base aligned_size merge_prev merge_next =
     (if merge_prev \<and> merge_next then do {
        (succ, fl1) \<leftarrow> av_remove av fl i;
        prev \<leftarrow> idx fl1 (i - 1);
        d \<leftarrow> chk_add aligned_size (fr_size succ);
        s \<leftarrow> chk_add (fr_size prev) d;
        fl2 \<leftarrow> upd_idx fl1 (i - 1) (prev\<lparr>fr_size := s\<rparr>);
        Some (Some fl2) }
      else if merge_prev then do {
        prev \<leftarrow> idx fl (i - 1);
        s \<leftarrow> chk_add (fr_size prev) aligned_size;
        fl1 \<leftarrow> upd_idx fl (i - 1) (prev\<lparr>fr_size := s\<rparr>);
        Some (Some fl1) }
      else if merge_next then do {
        nxt \<leftarrow> idx fl i;
        s \<leftarrow> chk_add (fr_size nxt) aligned_size;
        fl1 \<leftarrow> upd_idx fl i (nxt\<lparr>fr_base := base, fr_size := s\<rparr>);
        Some (Some fl1) }
      else if av_is_full av fl then Some None
      else do {
        fl1 \<leftarrow> av_insert av fl i \<lparr>fr_base = base, fr_size = aligned_size\<rparr>;
        Some (Some fl1) })"

definition free_region_deallocate ::
  "free_range array_vec \<Rightarrow> free_region_allocator \<Rightarrow> virt_addr \<Rightarrow> u64 \<Rightarrow>
   ((region_alloc_error + unit) \<times> free_region_allocator) option" where
  "free_region_deallocate av self addr sz =
     do { let base = va addr;
          aligned_size \<leftarrow> page_align_up sz;
          if aligned_size = 0 then Some (Inr (), self)
          else do {
            range_end \<leftarrow> chk_add base aligned_size;
            assert_that (va (vr_base (fra_region self)) \<le> base);
            region_end \<leftarrow> chk_add (va (vr_base (fra_region self))) (vr_max_size (fra_region self));
            assert_that (range_end \<le> region_end);
            assert_that (range_end \<le> watermark self);
            if range_end = watermark self
            then do { self' \<leftarrow> retract_watermark av (self\<lparr>watermark := base\<rparr>); Some (Inr (), self') }
            else do {
              let i = insertion_index (free_list self) base;
              prev_end \<leftarrow> (if i = 0 then Some 0
                          else do { prev \<leftarrow> idx (free_list self) (i - 1);
                                    chk_add (fr_base prev) (fr_size prev) });
              assert_that (i = 0 \<or> prev_end \<le> base);
              nxt \<leftarrow> (if length (free_list self) \<le> i then Some None
                     else do { n \<leftarrow> idx (free_list self) i; Some (Some n) });
              assert_that (case nxt of None \<Rightarrow> True | Some n \<Rightarrow> range_end \<le> fr_base n);
              let merge_prev = (0 < i \<and> prev_end = base);
              let merge_next = (case nxt of None \<Rightarrow> False | Some n \<Rightarrow> fr_base n = range_end);
              merged \<leftarrow> merge_range av (free_list self) i base aligned_size merge_prev merge_next;
              (case merged of
                 None \<Rightarrow> Some (Inl FreeListFull, self)
               | Some fl \<Rightarrow> do { self' \<leftarrow> retract_watermark av (self\<lparr>free_list := fl\<rparr>);
                                 Some (Inr (), self') }) } } }"

definition free_region_watermark :: "free_region_allocator \<Rightarrow> virt_addr" where
  "free_region_watermark self = virt_addr_new_truncate (watermark self)"

definition watermark_used :: "free_region_allocator \<Rightarrow> u64 option" where
  "watermark_used self = chk_sub (watermark self) (va (vr_base (fra_region self)))"

definition free_list_len :: "free_region_allocator \<Rightarrow> usize" where
  "free_list_len self = length (free_list self)"

definition free_bytes :: "free_region_allocator \<Rightarrow> u64 option" where
  "free_bytes self = foldl (\<lambda>acc r. do { a \<leftarrow> acc; chk_add a (fr_size r) }) (Some 0) (free_list self)"


section \<open>The layout is disjoint\<close>

definition span :: "virt_region \<Rightarrow> nat set" where
  "span r = {unat (va (vr_base r))..<unat (va (vr_base r)) + unat (vr_max_size r)}"

definition layout_base_ok :: "u64 \<Rightarrow> bool" where
  "layout_base_ok rb =
     (2 ^ 64 - 2 ^ 47 \<le> unat rb \<and>
      unat rb + unat VDSO_OFFSET + unat VDSO_MAX_SIZE \<le> unat KERNEL_IMAGE_BASE)"

lemmas layout_consts = HEAP_OFFSET_def HEAP_MAX_SIZE_def STACKS_OFFSET_def STACKS_MAX_SIZE_def
  MMIO_OFFSET_def MMIO_MAX_SIZE_def PERCPU_OFFSET_def PERCPU_MAX_SIZE_def VDSO_OFFSET_def
  VDSO_MAX_SIZE_def KERNEL_IMAGE_BASE_def KERNEL_IMAGE_MAX_SIZE_def

lemma virt_region_contains_eq:
  "unat (va (vr_base r)) + unat (vr_max_size r) < 2 ^ 64 \<Longrightarrow>
   virt_region_contains r a = Some (unat (va a) \<in> span r)"
  by (auto simp: virt_region_contains_def span_def chk_add_def word_le_nat_alt word_less_nat_alt
      unat_word_ariths)

lemma virt_addr_add_high:
  assumes "2 ^ 64 - 2 ^ 47 \<le> unat b" "unat b + unat d < 2 ^ 64"
  shows "unat (va (virt_addr_add (VirtAddr b) d)) = unat b + unat d"
proof -
  have u: "unat (b + d) = unat b + unat d" using assms(2) by (simp add: unat_word_ariths)
  then have "canonical (b + d)" using assms(1) by (simp add: canonical_iff)
  then show ?thesis by (simp add: virt_addr_add_def truncate_canonical u)
qed

lemma layout_region:
  assumes "layout_base_ok rb" "unat rb + unat off + unat sz \<le> unat KERNEL_IMAGE_BASE"
  shows "virt_region_contains (virt_region_new (virt_addr_add (VirtAddr rb) off) sz) a =
      Some (unat (va a) \<in> span (virt_region_new (virt_addr_add (VirtAddr rb) off) sz))"
    "span (virt_region_new (virt_addr_add (VirtAddr rb) off) sz) =
      {unat rb + unat off..<unat rb + unat off + unat sz}"
proof -
  have b: "unat (va (virt_addr_add (VirtAddr rb) off)) = unat rb + unat off"
    using assms by (intro virt_addr_add_high) (simp_all add: layout_base_ok_def KERNEL_IMAGE_BASE_def)
  show "virt_region_contains (virt_region_new (virt_addr_add (VirtAddr rb) off) sz) a =
      Some (unat (va a) \<in> span (virt_region_new (virt_addr_add (VirtAddr rb) off) sz))"
    using assms b by (intro virt_region_contains_eq) (simp add: virt_region_new_def KERNEL_IMAGE_BASE_def)
  show "span (virt_region_new (virt_addr_add (VirtAddr rb) off) sz) =
      {unat rb + unat off..<unat rb + unat off + unat sz}"
    by (simp add: span_def virt_region_new_def b)
qed

lemma kernel_image_region:
  "virt_region_contains (virt_region_new (virt_addr_new_truncate KERNEL_IMAGE_BASE) KERNEL_IMAGE_MAX_SIZE) a =
     Some (unat (va a) \<in> {0xFFFFFFFF80000000..<0xFFFFFFFF88000000})"
  "span (virt_region_new (virt_addr_new_truncate KERNEL_IMAGE_BASE) KERNEL_IMAGE_MAX_SIZE) =
     {0xFFFFFFFF80000000..<0xFFFFFFFF88000000}"
proof -
  have c: "virt_addr_new_truncate KERNEL_IMAGE_BASE = VirtAddr KERNEL_IMAGE_BASE"
    by (rule truncate_canonical) (simp add: canonical_iff KERNEL_IMAGE_BASE_def)
  show s: "span (virt_region_new (virt_addr_new_truncate KERNEL_IMAGE_BASE) KERNEL_IMAGE_MAX_SIZE) =
      {0xFFFFFFFF80000000..<0xFFFFFFFF88000000}"
    unfolding c by (simp add: span_def virt_region_new_def KERNEL_IMAGE_BASE_def KERNEL_IMAGE_MAX_SIZE_def)
  show "virt_region_contains (virt_region_new (virt_addr_new_truncate KERNEL_IMAGE_BASE) KERNEL_IMAGE_MAX_SIZE) a =
     Some (unat (va a) \<in> {0xFFFFFFFF80000000..<0xFFFFFFFF88000000})"
    unfolding s [symmetric]
    unfolding c by (rule virt_region_contains_eq)
       (simp add: virt_region_new_def KERNEL_IMAGE_BASE_def KERNEL_IMAGE_MAX_SIZE_def)
qed

text \<open>
  For every regions base that leaves room below the kernel image, and a direct map below that
  base, \<^verbatim>\<open>identify_region\<close> does not panic and names the one region that contains the address: the
  regions of the layout are disjoint, so its order of tests does not matter.
\<close>

lemma identify_region_exact:
  assumes "layout_base_ok rb" "unat (va hhdm) + unat max_phys \<le> unat rb"
  defines "l \<equiv> memory_layout_with_regions_base hhdm max_phys rb"
  shows "\<exists>r. identify_region l a = Some r \<and>
    (r = Heap \<longleftrightarrow> unat (va a) \<in> span (ml_heap l)) \<and> (r = Stacks \<longleftrightarrow> unat (va a) \<in> span (ml_stacks l)) \<and>
    (r = Mmio \<longleftrightarrow> unat (va a) \<in> span (ml_mmio l)) \<and> (r = PerCpu \<longleftrightarrow> unat (va a) \<in> span (ml_percpu l)) \<and>
    (r = KernelImage \<longleftrightarrow> unat (va a) \<in> span (ml_kernel_image l)) \<and>
    (r = Hhdm \<longleftrightarrow> unat (va hhdm) \<le> unat (va a) \<and> unat (va a) < unat (va hhdm) + unat max_phys)"
proof -
  have c: "virt_addr_new_truncate rb = VirtAddr rb"
    by (rule truncate_canonical) (use assms(1) in \<open>simp add: layout_base_ok_def canonical_iff\<close>)
  have room: "unat rb + unat VDSO_OFFSET \<le> 0xFFFFFFFF80000000"
    using assms(1) by (simp add: layout_base_ok_def KERNEL_IMAGE_BASE_def)
  note R = layout_region [OF assms(1)]
  have h: "unat (va hhdm) + unat max_phys < 2 ^ 64" using assms(2) unsigned_less [of rb, where ?'a = nat] by simp
  have heap: "virt_region_contains (ml_heap l) a = Some (unat (va a) \<in> span (ml_heap l))"
      "span (ml_heap l) = {unat rb..<unat rb + unat HEAP_MAX_SIZE}"
    and stacks: "virt_region_contains (ml_stacks l) a = Some (unat (va a) \<in> span (ml_stacks l))"
      "span (ml_stacks l) = {unat rb + unat STACKS_OFFSET..<unat rb + unat STACKS_OFFSET + unat STACKS_MAX_SIZE}"
    and mmio: "virt_region_contains (ml_mmio l) a = Some (unat (va a) \<in> span (ml_mmio l))"
      "span (ml_mmio l) = {unat rb + unat MMIO_OFFSET..<unat rb + unat MMIO_OFFSET + unat MMIO_MAX_SIZE}"
    and percpu: "virt_region_contains (ml_percpu l) a = Some (unat (va a) \<in> span (ml_percpu l))"
      "span (ml_percpu l) = {unat rb + unat PERCPU_OFFSET..<unat rb + unat PERCPU_OFFSET + unat PERCPU_MAX_SIZE}"
    using room by (simp_all add: l_def memory_layout_with_regions_base_def Let_def c R layout_consts)
  have img: "virt_region_contains (ml_kernel_image l) a = Some (unat (va a) \<in> span (ml_kernel_image l))"
      "span (ml_kernel_image l) = {0xFFFFFFFF80000000..<0xFFFFFFFF88000000}"
    by (simp_all add: l_def memory_layout_with_regions_base_def Let_def kernel_image_region)
  have hh: "ml_hhdm_base l = hhdm" "ml_hhdm_size l = max_phys"
    by (simp_all add: l_def memory_layout_with_regions_base_def Let_def)
  have d: "(if va hhdm \<le> va a then chk_add (va hhdm) max_phys \<bind> (\<lambda>e. Some (va a < e)) else Some False) =
      Some (unat (va hhdm) \<le> unat (va a) \<and> unat (va a) < unat (va hhdm) + unat max_phys)"
    using h by (auto simp: chk_add_def word_le_nat_alt word_less_nat_alt unat_word_ariths)
  show ?thesis
    unfolding identify_region_def heap(1) stacks(1) mmio(1) percpu(1) img(1) hh
    using assms(2) room
    by (auto simp: heap(2) stacks(2) mmio(2) percpu(2) img(2) layout_consts d)
qed

section \<open>Page rounding\<close>

definition pages_up :: "nat \<Rightarrow> nat" where "pages_up n = (n + 4095) div 4096 * 4096"

lemma PAGE_MASK_mask: "PAGE_MASK = mask 12"
  by (simp add: PAGE_MASK_def mask_eq_exp_minus_1)

lemma page_align_up_eq:
  assumes "unat sz + 4095 < 2 ^ 64"
  obtains a where "page_align_up sz = Some a" "unat a = pages_up (unat sz)"
proof -
  let ?s = "sz + PAGE_MASK"
  have m: "unat PAGE_MASK = 4095" by (simp add: PAGE_MASK_def)
  have s: "unat ?s = unat sz + 4095" using assms by (simp add: unat_word_ariths m)
  then have c: "chk_add sz PAGE_MASK = Some ?s" by (simp add: chk_add_Some_iff m)
  have "unat (?s AND NOT PAGE_MASK) = unat ?s - unat ?s mod 4096"
    unfolding PAGE_MASK_mask by (simp add: unat_and_not_mask)
  also have "\<dots> = pages_up (unat sz)" by (simp add: s pages_up_def minus_mod_eq_div_mult)
  finally show ?thesis using c by (intro that) (simp_all add: page_align_up_def)
qed

lemma pages_up_bounds: "n \<le> pages_up n" "pages_up n < n + 4096" "4096 dvd pages_up n"
  using div_mult_mod_eq [of "n + 4095" 4096] mod_less_divisor [of 4096 "n + 4095"]
  by (simp_all add: pages_up_def)

lemma pages_up_0_iff: "pages_up n = 0 \<longleftrightarrow> n = 0"
  using pages_up_bounds(1) [of n] by (auto simp: pages_up_def)

section \<open>Sorted, coalesced free lists\<close>

abbreviation fr_end :: "free_range \<Rightarrow> nat" where "fr_end r \<equiv> unat (fr_base r) + unat (fr_size r)"

text \<open>
  \<open>fl_ok lo fl hi\<close>: the ranges of \<open>fl\<close> are page-aligned and non-empty, lie between \<open>lo\<close> and \<open>hi\<close>,
  are sorted, and neither touch each other nor \<open>hi\<close>.
\<close>

fun fl_ok :: "nat \<Rightarrow> free_range list \<Rightarrow> nat \<Rightarrow> bool" where
  "fl_ok lo [] hi = True"
| "fl_ok lo (r # rs) hi =
     (lo \<le> unat (fr_base r) \<and> 0 < unat (fr_size r) \<and> 4096 dvd unat (fr_base r) \<and>
      4096 dvd unat (fr_size r) \<and> fr_end r < hi \<and> fl_ok (Suc (fr_end r)) rs hi)"

definition fl_end :: "nat \<Rightarrow> free_range list \<Rightarrow> nat" where
  "fl_end lo fl = (if fl = [] then lo else Suc (fr_end (last fl)))"

definition fl_span :: "free_range list \<Rightarrow> nat set" where
  "fl_span fl = (\<Union>r \<in> set fl. {unat (fr_base r)..<fr_end r})"

lemma fl_span_simps [simp]:
  "fl_span [] = {}" "fl_span (r # rs) = {unat (fr_base r)..<fr_end r} \<union> fl_span rs"
  "fl_span (xs @ ys) = fl_span xs \<union> fl_span ys"
  by (auto simp: fl_span_def)

lemma fl_end_simps [simp]:
  "fl_end lo [] = lo" "fl_end lo (r # rs) = fl_end (Suc (fr_end r)) rs"
  "fl_end lo (xs @ ys) = fl_end (fl_end lo xs) ys"
  by (auto simp: fl_end_def)

lemma fl_ok_append [simp]: "fl_ok lo (xs @ ys) hi \<longleftrightarrow> fl_ok lo xs hi \<and> fl_ok (fl_end lo xs) ys hi"
  by (induction xs arbitrary: lo) auto

lemma fl_ok_lower: "fl_ok lo fl hi \<Longrightarrow> lo' \<le> lo \<Longrightarrow> fl_ok lo' fl hi"
  by (cases fl) auto

lemma fl_ok_upper: "fl_ok lo fl hi \<Longrightarrow> hi \<le> hi' \<Longrightarrow> fl_ok lo fl hi'"
  by (induction fl arbitrary: lo) auto

lemma fl_ok_hi: "fl_ok lo fl hi \<Longrightarrow> fl_end lo fl \<le> hi' \<Longrightarrow> fl_ok lo fl (max hi' lo)"
  by (induction fl arbitrary: lo rule: rev_induct) (auto elim: fl_ok_upper simp: fl_end_def)

lemma fl_end_le: "fl_ok lo fl hi \<Longrightarrow> lo \<le> hi \<Longrightarrow> fl_end lo fl \<le> hi"
  by (induction fl arbitrary: lo) auto

lemma fl_end_ge: "fl_ok lo fl hi \<Longrightarrow> lo \<le> fl_end lo fl"
  by (induction fl arbitrary: lo) force+

lemma fl_span_bounds: "fl_ok lo fl hi \<Longrightarrow> fl_span fl \<subseteq> {lo..<fl_end lo fl}"
proof (induction fl arbitrary: lo)
  case (Cons r rs)
  then have "fl_span rs \<subseteq> {Suc (fr_end r)..<fl_end (Suc (fr_end r)) rs}" by simp
  moreover have "Suc (fr_end r) \<le> fl_end (Suc (fr_end r)) rs" using Cons.prems by (intro fl_end_ge [of _ rs hi]) simp
  ultimately show ?case using Cons.prems by fastforce
qed simp

lemma fl_span_below_hi: "fl_ok lo fl hi \<Longrightarrow> fl_span fl \<subseteq> {lo..<hi}"
  by (induction fl arbitrary: lo) force+

text \<open>The end of a range is not free: what coalescing buys.\<close>

lemma fl_range_end_not_free:
  assumes "fl_ok lo fl hi" "r \<in> set fl" shows "fr_end r \<notin> fl_span fl"
proof -
  from split_list [OF assms(2)] obtain xs ys where fl: "fl = xs @ r # ys" by auto
  have "fl_span xs \<subseteq> {lo..<fl_end lo xs}" "fl_span ys \<subseteq> {Suc (fr_end r)..<hi}"
    using assms(1) fl_span_bounds [of lo xs hi] fl_span_below_hi [of "Suc (fr_end r)" ys hi]
    by (simp_all add: fl)
  moreover have "fl_end lo xs \<le> unat (fr_base r)" using assms(1) by (simp add: fl)
  ultimately show ?thesis using fl by auto
qed

lemma interval_in_range:
  assumes ok: "fl_ok lo fl hi" and i: "{s..<s + n} \<subseteq> fl_span fl \<union> {hi..<lim}" "0 < n" "lo \<le> hi"
  shows "(\<exists>r \<in> set fl. n \<le> unat (fr_size r)) \<or> hi + n \<le> lim"
proof -
  have "s \<in> {s..<s + n}" using i(2) by simp
  then have "s \<in> fl_span fl \<or> s \<in> {hi..<lim}" using i(1) by blast
  then show ?thesis
  proof
    assume "s \<in> fl_span fl"
    then obtain r where r: "r \<in> set fl" "s \<in> {unat (fr_base r)..<fr_end r}" by (auto simp: fl_span_def)
    have "fr_end r \<notin> fl_span fl" using fl_range_end_not_free [OF ok r(1)] .
    moreover have "fr_end r \<notin> {hi..<lim}"
      using ok r(1) by (induction fl arbitrary: lo) auto
    ultimately have "fr_end r \<notin> {s..<s + n}" using i(1) by blast
    then have "n \<le> unat (fr_size r)" using r(2) by auto
    then show ?thesis using r(1) by blast
  next
    assume s: "s \<in> {hi..<lim}"
    have "lim \<notin> fl_span fl \<union> {hi..<lim}"
      using fl_span_below_hi [OF ok] s by auto
    then have "lim \<notin> {s..<s + n}" using i(1) by blast
    then show ?thesis using s by auto
  qed
qed


section \<open>First fit\<close>

text \<open>Taking the first \<open>a\<close> bytes of the range \<open>e\<close>.\<close>

definition cut_front :: "free_range \<Rightarrow> u64 \<Rightarrow> free_range list" where
  "cut_front e a = (if fr_size e = a then [] else [\<lparr>fr_base = fr_base e + a, fr_size = fr_size e - a\<rparr>])"

lemma fit_loop_spec:
  assumes av: "array_vec_ok N av" "length fl \<le> N" and ok: "fl_ok lo fl hi" "hi \<le> 2 ^ 64"
  shows "\<exists>r. fit_loop av a fl [k..<length fl] = Some r \<and>
    (case r of
       None \<Rightarrow> \<forall>e \<in> set (drop k fl). fr_size e < a
     | Some (b, fl') \<Rightarrow> \<exists>xs e ys. fl = xs @ e # ys \<and> b = fr_base e \<and> a \<le> fr_size e \<and>
         fl' = xs @ cut_front e a @ ys)"
proof (induction "length fl - k" arbitrary: k)
  case (Suc d)
  then have k: "k < length fl" and upt: "[k..<length fl] = k # [Suc k..<length fl]"
    by (simp_all add: upt_conv_Cons)
  let ?e = "fl ! k"
  have fl: "fl = take k fl @ ?e # drop (Suc k) fl" using k by (simp add: id_take_nth_drop)
  show ?case
  proof (cases "a \<le> fr_size ?e")
    case False
    have "d = length fl - Suc k" using Suc.hyps(2) by simp
    from Suc.hyps(1) [OF this] obtain r where r: "fit_loop av a fl [Suc k..<length fl] = Some r"
      "case r of None \<Rightarrow> \<forall>e \<in> set (drop (Suc k) fl). fr_size e < a
       | Some (b, fl') \<Rightarrow> \<exists>xs e ys. fl = xs @ e # ys \<and> b = fr_base e \<and> a \<le> fr_size e \<and>
           fl' = xs @ cut_front e a @ ys" by blast
    have "fit_loop av a fl [k..<length fl] = Some r" using False r(1) k by (simp add: upt)
    then show ?thesis
      using r(2) False k by (cases r) (auto simp: Cons_nth_drop_Suc [symmetric])
  next
    case True
    have e: "fr_end ?e < 2 ^ 64" using ok by (subst (asm) (1) fl) simp
    have ops: "chk_add (fr_base ?e) a = Some (fr_base ?e + a)" "chk_sub (fr_size ?e) a = Some (fr_size ?e - a)"
      using e True by (simp_all add: chk_add_def chk_sub_def word_le_nat_alt)
    have "fit_loop av a fl (k # [Suc k..<length fl]) =
        Some (Some (fr_base ?e, take k fl @ cut_front ?e a @ drop (Suc k) fl))"
      using True k ops array_vec_ok_simps(2) [OF av(1,2) k]
      by (simp add: cut_front_def upd_conv_take_nth_drop)
    then show ?thesis unfolding upt using fl True by (auto intro!: exI)
  qed
qed simp

lemma cut_front_ok:
  assumes ok: "fl_ok lo (xs @ e # ys) hi" "hi \<le> 2 ^ 64" and a: "a \<le> fr_size e" "0 < a" "4096 dvd unat a"
  shows "fl_ok lo (xs @ cut_front e a @ ys) hi"
    "fl_span (xs @ cut_front e a @ ys) = fl_span (xs @ e # ys) - {unat (fr_base e)..<unat (fr_base e) + unat a}"
    "{unat (fr_base e)..<unat (fr_base e) + unat a} \<subseteq> fl_span (xs @ e # ys)"
    "4096 dvd unat (fr_base e)" "lo \<le> unat (fr_base e)" "fr_end e < hi"
proof -
  have e: "fl_end lo xs \<le> unat (fr_base e)" "4096 dvd unat (fr_base e)" "4096 dvd unat (fr_size e)"
    "fr_end e < hi" "fl_ok (Suc (fr_end e)) ys hi" "fl_ok lo xs hi" using ok(1) by auto
  have le: "unat a \<le> unat (fr_size e)" "0 < unat a" using a by (simp_all add: word_le_nat_alt word_less_nat_alt)
  have u: "unat (fr_base e + a) = unat (fr_base e) + unat a" "unat (fr_size e - a) = unat (fr_size e) - unat a"
    using e(4) ok(2) le a(1) by (simp_all add: unat_word_ariths unat_sub)
  have xs: "fl_span xs \<subseteq> {lo..<unat (fr_base e)}" using fl_span_bounds [OF e(6)] e(1) by fastforce
  have ys: "fl_span ys \<subseteq> {Suc (fr_end e)..<hi}" by (rule fl_span_below_hi [OF e(5)])
  have ne: "unat (fr_size e) \<noteq> unat a" if "fr_size e \<noteq> a" using that by (simp add: word_unat_eq_iff)
  show "fl_ok lo (xs @ cut_front e a @ ys) hi"
    using e u le a(3) ne fl_ok_lower [OF e(5), of "fl_end lo xs"] by (auto simp: cut_front_def)
  have c: "fl_span (cut_front e a) = {unat (fr_base e) + unat a..<fr_end e}"
    using u le ne by (auto simp: cut_front_def)
  show "fl_span (xs @ cut_front e a @ ys) =
      fl_span (xs @ e # ys) - {unat (fr_base e)..<unat (fr_base e) + unat a}"
    using xs ys le by (auto simp: c)
  show "{unat (fr_base e)..<unat (fr_base e) + unat a} \<subseteq> fl_span (xs @ e # ys)" using le by auto
  show "lo \<le> unat (fr_base e)" using e(1) fl_end_ge [OF e(6)] by simp
qed (use ok(1) in auto)


section \<open>The allocator invariant\<close>

definition region_good :: "virt_region \<Rightarrow> bool" where
  "region_good r =
     (unat (va (vr_base r)) + unat (vr_max_size r) < 2 ^ 64 \<and>
      (2 ^ 64 - 2 ^ 47 \<le> unat (va (vr_base r)) \<or> unat (va (vr_base r)) + unat (vr_max_size r) \<le> 2 ^ 47) \<and>
      4096 dvd unat (va (vr_base r)) \<and> 4096 dvd unat (vr_max_size r))"

abbreviation fra_base :: "free_region_allocator \<Rightarrow> nat" where
  "fra_base self \<equiv> unat (va (vr_base (fra_region self)))"

abbreviation fra_end :: "free_region_allocator \<Rightarrow> nat" where
  "fra_end self \<equiv> fra_base self + unat (vr_max_size (fra_region self))"

definition fra_inv :: "nat \<Rightarrow> free_region_allocator \<Rightarrow> bool" where
  "fra_inv N self =
     (region_good (fra_region self) \<and> fra_base self \<le> unat (watermark self) \<and>
      unat (watermark self) \<le> fra_end self \<and> 4096 dvd unat (watermark self) \<and>
      fl_ok (fra_base self) (free_list self) (unat (watermark self)) \<and> length (free_list self) \<le> N)"

text \<open>The free addresses: those of the free list and those above the watermark.\<close>

definition fra_free :: "free_region_allocator \<Rightarrow> nat set" where
  "fra_free self = fl_span (free_list self) \<union> {unat (watermark self)..<fra_end self}"

lemma fra_free_span:
  assumes "fra_inv N self" shows "fra_free self \<subseteq> {fra_base self..<fra_end self}"
proof -
  have "fl_span (free_list self) \<subseteq> {fra_base self..<unat (watermark self)}"
    using assms by (intro fl_span_below_hi) (simp add: fra_inv_def)
  then show ?thesis using assms by (auto simp: fra_free_def fra_inv_def)
qed

lemma fra_inv_new: "region_good r \<Longrightarrow> fra_inv N (free_region_new r)"
  by (simp add: fra_inv_def free_region_new_def region_good_def)

lemma region_canonical:
  "region_good r \<Longrightarrow> unat (va (vr_base r)) \<le> unat x \<Longrightarrow>
   unat x < unat (va (vr_base r)) + unat (vr_max_size r) \<Longrightarrow> canonical x"
  by (auto simp: region_good_def canonical_iff)

lemma region_good_canonical:
  "region_good r \<Longrightarrow> unat (va (vr_base r)) \<le> unat x \<Longrightarrow>
   unat x < unat (va (vr_base r)) + unat (vr_max_size r) \<Longrightarrow> virt_addr_new_truncate x = VirtAddr x"
  by (rule truncate_canonical) (rule region_canonical)

lemma region_end_eq:
  "region_good r \<Longrightarrow> chk_add (va (vr_base r)) (vr_max_size r) = Some (va (vr_base r) + vr_max_size r)"
  "region_good r \<Longrightarrow> unat (va (vr_base r) + vr_max_size r) = unat (va (vr_base r)) + unat (vr_max_size r)"
  by (simp_all add: region_good_def chk_add_def unat_word_ariths)

lemma pages_up_fits:
  assumes "pages_up n < 2 ^ 64" obtains "n + 4095 < 2 ^ 64"
proof -
  have "4096 dvd (2 ^ 64 :: nat)" by simp
  then have "pages_up n + 4096 \<le> 2 ^ 64"
    using aligned_step [OF pages_up_bounds(3) _ assms] by blast
  then show ?thesis using that pages_up_bounds(1) [of n] by linarith
qed

text \<open>What it means to hand out \<open>n\<close> bytes at \<open>v\<close>, going from \<open>self\<close> to \<open>self'\<close>.\<close>

definition fra_takes ::
  "nat \<Rightarrow> free_region_allocator \<Rightarrow> nat \<Rightarrow> virt_addr \<Rightarrow> free_region_allocator \<Rightarrow> bool" where
  "fra_takes N self n v self' =
     (virt_ok v \<and> 4096 dvd unat (va v) \<and> {unat (va v)..<unat (va v) + n} \<subseteq> fra_free self \<and>
      fra_free self' = fra_free self - {unat (va v)..<unat (va v) + n} \<and> fra_inv N self')"

lemma fra_takes_cut:
  assumes inv: "fra_inv N self" and e: "free_list self = xs @ e # ys" "a \<le> fr_size e"
    and a: "0 < a" "4096 dvd unat a"
  shows "virt_addr_new_truncate (fr_base e) = VirtAddr (fr_base e)"
    "fra_takes N self (unat a) (VirtAddr (fr_base e)) (self\<lparr>free_list := xs @ cut_front e a @ ys\<rparr>)"
proof -
  let ?self = "self\<lparr>free_list := xs @ cut_front e a @ ys\<rparr>"
  note I = inv [unfolded fra_inv_def]
  have ok: "fl_ok (fra_base self) (free_list self) (unat (watermark self))" using I by simp
  have b: "unat (watermark self) \<le> 2 ^ 64" using unsigned_less [of "watermark self", where ?'a = nat] by simp
  note c = cut_front_ok [OF ok [unfolded e(1)] b e(2) a]
  show t: "virt_addr_new_truncate (fr_base e) = VirtAddr (fr_base e)"
    using c I by (intro region_good_canonical [of "fra_region self"]) auto
  have sub: "{unat (fr_base e)..<unat (fr_base e) + unat a} \<subseteq> fra_free self"
    unfolding fra_free_def e(1) using c(3) by (rule le_supI1)
  have "fra_inv N ?self" using I c(1) e(1) by (auto simp: fra_inv_def cut_front_def)
  moreover have "fra_free ?self = fra_free self - {unat (fr_base e)..<unat (fr_base e) + unat a}"
  proof -
    have "unat a \<le> unat (fr_size e)" using e(2) by (simp add: word_le_nat_alt)
    then have "{unat (watermark self)..<fra_end self} \<inter> {unat (fr_base e)..<unat (fr_base e) + unat a} = {}"
      using c(6) by auto
    moreover have "fra_free ?self = fl_span (xs @ cut_front e a @ ys) \<union> {unat (watermark self)..<fra_end self}"
      "fra_free self = fl_span (xs @ e # ys) \<union> {unat (watermark self)..<fra_end self}"
      by (simp_all add: fra_free_def e(1) del: fl_span_simps)
    ultimately show ?thesis unfolding c(2) by blast
  qed
  moreover have "virt_ok (VirtAddr (fr_base e))" using t by (metis canonical_truncate virt_ok_def)
  ultimately show "fra_takes N self (unat a) (VirtAddr (fr_base e)) ?self"
    using sub c(4) by (simp add: fra_takes_def)
qed

lemma fra_takes_bump:
  assumes inv: "fra_inv N self" and fits: "unat (watermark self) + unat a \<le> fra_end self"
    and a: "0 < a" "4096 dvd unat a" and e: "unat (watermark self + a) = unat (watermark self) + unat a"
  shows "virt_addr_new_truncate (watermark self) = VirtAddr (watermark self)"
    "fra_takes N self (unat a) (VirtAddr (watermark self)) (self\<lparr>watermark := watermark self + a\<rparr>)"
proof -
  let ?self = "self\<lparr>watermark := watermark self + a\<rparr>" and ?W = "unat (watermark self)"
  note I = inv [unfolded fra_inv_def]
  show t: "virt_addr_new_truncate (watermark self) = VirtAddr (watermark self)"
    using I fits a by (intro region_good_canonical [of "fra_region self"]) (auto simp: word_less_nat_alt)
  have sub: "{?W..<?W + unat a} \<subseteq> fra_free self" using fits by (auto simp: fra_free_def)
  have "fra_inv N ?self" using I fits a(2) e by (auto simp: fra_inv_def elim: fl_ok_upper)
  moreover have "fra_free ?self = fra_free self - {?W..<?W + unat a}"
    using fl_span_below_hi [of "fra_base self" "free_list self" ?W] I e fits by (auto simp: fra_free_def)
  moreover have "virt_ok (VirtAddr (watermark self))" using t by (metis canonical_truncate virt_ok_def)
  ultimately show "fra_takes N self (unat a) (VirtAddr (watermark self)) ?self"
    using sub I by (simp add: fra_takes_def)
qed

lemma free_region_allocate_spec:
  assumes av: "array_vec_ok N av" and inv: "fra_inv N self"
    and sz: "0 < unat sz" "unat (watermark self) + pages_up (unat sz) < 2 ^ 64"
  shows "\<exists>r self'. free_region_allocate av self sz = Some (r, self') \<and>
    (case r of
       None \<Rightarrow> self' = self \<and> \<not> (\<exists>s. {s..<s + pages_up (unat sz)} \<subseteq> fra_free self)
     | Some v \<Rightarrow> fra_takes N self (pages_up (unat sz)) v self')"
proof -
  let ?fl = "free_list self" and ?W = "unat (watermark self)"
  have "pages_up (unat sz) < 2 ^ 64" using sz(2) by simp
  from pages_up_fits [OF this] obtain a where
    a: "page_align_up sz = Some a" "unat a = pages_up (unat sz)" by (blast elim: page_align_up_eq)
  have a0: "0 < a" "4096 dvd unat a"
    using sz(1) a(2) pages_up_bounds(1,3) [of "unat sz"] by (simp_all add: word_less_nat_alt)
  have an: "a \<noteq> 0" using a0(1) by (simp add: word_gt_0)
  note I = inv [unfolded fra_inv_def]
  have ok: "fl_ok (fra_base self) ?fl ?W" and reg: "region_good (fra_region self)" using I by auto
  have "?W \<le> 2 ^ 64" using unsigned_less [of "watermark self", where ?'a = nat] by simp
  from fit_loop_spec [OF av _ ok this, of a 0, unfolded drop_0] I obtain r where
    r: "fit_loop av a ?fl [0..<length ?fl] = Some r"
      "case r of None \<Rightarrow> \<forall>e \<in> set ?fl. fr_size e < a
       | Some (b, fl') \<Rightarrow> \<exists>xs e ys. ?fl = xs @ e # ys \<and> b = fr_base e \<and> a \<le> fr_size e \<and>
           fl' = xs @ cut_front e a @ ys" by blast
  show ?thesis
  proof (cases r)
    case (Some p)
    then obtain xs e ys where e: "?fl = xs @ e # ys" "a \<le> fr_size e"
      "p = (fr_base e, xs @ cut_front e a @ ys)" using r(2) by (cases p) auto
    note t = fra_takes_cut [OF inv e(1,2) a0]
    show ?thesis using a an r(1) Some e(3) t by (simp add: free_region_allocate_def)
  next
    case None
    have e: "chk_add (watermark self) a = Some (watermark self + a)" "unat (watermark self + a) = ?W + unat a"
      using sz(2) a(2) by (simp_all add: chk_add_def unat_word_ariths)
    note run = free_region_allocate_def [of av self sz] a(1) r(1) None e region_end_eq [OF reg]
    show ?thesis
    proof (cases "fra_end self < ?W + unat a")
      case True
      have small: "\<forall>e \<in> set ?fl. unat (fr_size e) < unat a"
        using r(2) None by (simp add: word_less_nat_alt)
      have "\<not> {s..<s + unat a} \<subseteq> fra_free self" for s
      proof
        assume "{s..<s + unat a} \<subseteq> fra_free self"
        from interval_in_range [OF ok this [unfolded fra_free_def]] show False
          using small True a0 I by (auto simp: word_less_nat_alt)
      qed
      then show ?thesis using True run an a(2) by (simp add: word_less_nat_alt)
    next
      case False
      then show ?thesis
        using run an a(2) fra_takes_bump [OF inv _ a0 e(2)] by (simp add: word_less_nat_alt)
    qed
  qed
qed


section \<open>Deallocation\<close>

lemma retract_noop:
  assumes "fl_ok lo (free_list self) (unat (watermark self))"
  shows "retract_watermark av self = Some self"
proof (cases "free_list self" rule: rev_cases)
  case (snoc xs l)
  then have "fr_end l < unat (watermark self)" using assms by simp
  then show ?thesis
    using unsigned_less [of "watermark self", where ?'a = nat]
    by (subst retract_watermark.simps)
       (auto simp: snoc chk_add_def word_unat_eq_iff unat_word_ariths)
qed (simp add: retract_watermark.simps)

text \<open>After the watermark has moved down to \<open>b\<close>, at most one range ends there and is absorbed.\<close>

lemma retract_spec:
  assumes av: "array_vec_ok N av" and len: "length (free_list self) \<le> N"
    and ok: "fl_ok lo (free_list self) (Suc (unat (watermark self)))"
    and W: "lo \<le> unat (watermark self)" "4096 dvd unat (watermark self)"
  obtains self' where "retract_watermark av self = Some self'"
    "fl_ok lo (free_list self') (unat (watermark self'))" "lo \<le> unat (watermark self')"
    "unat (watermark self') \<le> unat (watermark self)" "4096 dvd unat (watermark self')"
    "fl_span (free_list self') \<union> {unat (watermark self')..<unat (watermark self)} = fl_span (free_list self)"
    "length (free_list self') \<le> N" "fra_region self' = fra_region self"
proof (cases "fl_ok lo (free_list self) (unat (watermark self))")
  case True
  show ?thesis by (rule that [OF retract_noop [OF True]]) (use True W len in auto)
next
  case False
  then obtain xs l where fl: "free_list self = xs @ [l]" by (metis fl_ok.simps(1) rev_exhaust)
  have l: "fr_end l = unat (watermark self)" "fl_end lo xs \<le> unat (fr_base l)" "4096 dvd unat (fr_base l)"
    "0 < unat (fr_size l)" "fl_ok lo xs (Suc (unat (watermark self)))"
  proof -
    have xs: "fl_ok lo xs (Suc (unat (watermark self)))" "fl_end lo xs \<le> unat (fr_base l)"
      "4096 dvd unat (fr_base l)" "4096 dvd unat (fr_size l)" "0 < unat (fr_size l)"
      "fr_end l \<le> unat (watermark self)" using ok by (auto simp: fl)
    have "fl_ok lo xs (max (unat (fr_base l)) lo)" using fl_ok_hi [OF xs(1,2)] .
    then have "fl_ok lo xs (unat (watermark self))" using xs(6) W(1) by (elim fl_ok_upper) simp
    then have "fr_end l = unat (watermark self)" using False xs by (auto simp: fl)
    then show "fr_end l = unat (watermark self)" "fl_end lo xs \<le> unat (fr_base l)"
      "4096 dvd unat (fr_base l)" "0 < unat (fr_size l)" "fl_ok lo xs (Suc (unat (watermark self)))"
      using xs by auto
  qed
  let ?self = "self\<lparr>watermark := fr_base l, free_list := xs\<rparr>"
  have "fl_end lo xs \<ge> lo" using fl_end_ge [OF l(5)] .
  then have "lo \<le> unat (fr_base l)" using l(2) by simp
  then have ok': "fl_ok lo xs (unat (fr_base l))" using fl_ok_hi [OF l(5,2)] by (simp add: max_absorb1)
  have "chk_add (fr_base l) (fr_size l) = Some (watermark self)" using l(1) by (simp add: chk_add_Some_iff)
  then have "retract_watermark av self = retract_watermark av ?self"
    using array_vec_ok_simps(3) [OF av len] by (subst retract_watermark.simps) (simp add: fl)
  also have "\<dots> = Some ?self" using ok' by (intro retract_noop [of lo]) simp
  finally show ?thesis
    by (rule that) (use ok' l len fl \<open>lo \<le> fl_end lo xs\<close> in auto)
qed

lemma fl_ok_shrink:
  "fl_ok lo fl hi \<Longrightarrow> fl_span fl \<inter> {b..<hi} = {} \<Longrightarrow> fl_ok lo fl (Suc b)"
proof (induction fl arbitrary: lo)
  case (Cons r rs)
  have "fr_end r - 1 \<notin> {b..<hi}" using Cons.prems by (auto simp: disjoint_iff)
  then have "fr_end r \<le> b" using Cons.prems(1) by auto
  then show ?case using Cons by auto
qed simp


definition touches_prev :: "free_range list \<Rightarrow> u64 \<Rightarrow> bool" where
  "touches_prev xs b = (xs \<noteq> [] \<and> fr_end (last xs) = unat b)"

definition touches_next :: "free_range list \<Rightarrow> nat \<Rightarrow> bool" where
  "touches_next ys e = (ys \<noteq> [] \<and> unat (fr_base (hd ys)) = e)"

lemma fl_end_snoc_le: "fl_ok lo xs hi \<Longrightarrow> lo \<le> b \<Longrightarrow> (xs \<noteq> [] \<longrightarrow> fr_end (last xs) < b) \<Longrightarrow> fl_end lo xs \<le> b"
  by (cases xs rule: rev_cases) auto

lemma merge_range_spec:
  assumes av: "array_vec_ok N av" "length (xs @ ys) \<le> N" and ok: "fl_ok lo (xs @ ys) hi" "hi \<le> 2 ^ 64"
    and r: "4096 dvd unat b" "4096 dvd unat a" "0 < unat a" "lo \<le> unat b" "unat b + unat a < hi"
    and sep: "xs \<noteq> [] \<Longrightarrow> fr_end (last xs) \<le> unat b" "ys \<noteq> [] \<Longrightarrow> unat b + unat a \<le> unat (fr_base (hd ys))"
  defines "mp \<equiv> touches_prev xs b" and "mn \<equiv> touches_next ys (unat b + unat a)"
  shows "if \<not> mp \<and> \<not> mn \<and> length (xs @ ys) = N then merge_range av (xs @ ys) (length xs) b a mp mn = Some None
    else \<exists>fl. merge_range av (xs @ ys) (length xs) b a mp mn = Some (Some fl) \<and> fl_ok lo fl hi \<and>
      fl_span fl = fl_span (xs @ ys) \<union> {unat b..<unat b + unat a} \<and> length fl \<le> N"
proof -
  note A = array_vec_ok_simps [OF av(1)]
  have lo_xs: "fl_ok lo xs hi" "fl_ok (fl_end lo xs) ys hi" using ok(1) by auto
  consider (pn) xs' p s ys' where "mp" "mn" "xs = xs' @ [p]" "ys = s # ys'"
    | (p) xs' p where "mp" "\<not> mn" "xs = xs' @ [p]" | (n) s ys' where "\<not> mp" "mn" "ys = s # ys'"
    | (none) "\<not> mp" "\<not> mn"
    unfolding mp_def mn_def touches_prev_def touches_next_def by (metis list.exhaust rev_exhaust)
  then show ?thesis
  proof cases
    case pn
    have e: "fr_end p = unat b" "unat (fr_base s) = unat b + unat a"
      using pn by (simp_all add: mp_def mn_def touches_prev_def touches_next_def)
    have o: "fr_end s < hi" using ok(1) by (simp add: pn)
    let ?d = "a + fr_size s"
    have u: "unat ?d = unat a + unat (fr_size s)" "unat (fr_size p + ?d) = unat (fr_size p) + unat ?d"
      using o ok(2) e by (simp_all add: unat_word_ariths)
    have c: "chk_add a (fr_size s) = Some ?d" "chk_add (fr_size p) ?d = Some (fr_size p + ?d)"
      using u by (simp_all add: chk_add_Some_iff)
    have "merge_range av (xs @ ys) (length xs) b a mp mn =
        Some (Some (xs' @ p\<lparr>fr_size := fr_size p + ?d\<rparr> # ys'))"
      using pn c A(2) [of "xs @ ys" "length xs"] av(2)
      by (simp add: merge_range_def nth_append list_update_append)
    moreover have "fl_ok lo (xs' @ p\<lparr>fr_size := fr_size p + ?d\<rparr> # ys') hi"
      using ok(1) e u r(2) by (simp add: pn add.assoc [symmetric])
    moreover have "fl_span (xs' @ p\<lparr>fr_size := fr_size p + ?d\<rparr> # ys') = fl_span (xs @ ys) \<union> {unat b..<unat b + unat a}"
      using e u by (auto simp: pn)
    ultimately show ?thesis using pn av(2) by simp
  next
    case p
    have e: "fr_end p = unat b" using p by (simp add: mp_def touches_prev_def)
    have u: "unat (fr_size p + a) = unat (fr_size p) + unat a"
      using r(5) ok(2) e by (simp add: unat_word_ariths)
    then have c: "chk_add (fr_size p) a = Some (fr_size p + a)" by (simp add: chk_add_Some_iff)
    have nn: "ys \<noteq> [] \<longrightarrow> unat b + unat a < unat (fr_base (hd ys))"
      using p(2) sep(2) by (auto simp: mn_def touches_next_def)
    have "merge_range av (xs @ ys) (length xs) b a mp mn = Some (Some (xs' @ p\<lparr>fr_size := fr_size p + a\<rparr> # ys))"
      using p c by (simp add: merge_range_def nth_append list_update_append)
    moreover have "fl_ok lo (xs' @ p\<lparr>fr_size := fr_size p + a\<rparr> # ys) hi"
      using ok(1) e u r(2,5) nn by (cases ys) (auto simp: p add.assoc [symmetric])
    moreover have "fl_span (xs' @ p\<lparr>fr_size := fr_size p + a\<rparr> # ys) = fl_span (xs @ ys) \<union> {unat b..<unat b + unat a}"
      using e u by (auto simp: p)
    ultimately show ?thesis using p av(2) by simp
  next
    case n
    have e: "unat (fr_base s) = unat b + unat a" using n by (simp add: mn_def touches_next_def)
    have o: "fr_end s < hi" using ok(1) by (simp add: n)
    have u: "unat (fr_size s + a) = unat (fr_size s) + unat a"
      using o ok(2) e by (simp add: unat_word_ariths)
    then have c: "chk_add (fr_size s) a = Some (fr_size s + a)" by (simp add: chk_add_Some_iff)
    have pp: "fl_end lo xs \<le> unat b"
      using n(1) sep(1) by (intro fl_end_snoc_le [OF lo_xs(1) r(4)]) (force simp: mp_def touches_prev_def)
    let ?s = "s\<lparr>fr_base := b, fr_size := fr_size s + a\<rparr>"
    have "merge_range av (xs @ ys) (length xs) b a mp mn = Some (Some (xs @ ?s # ys'))"
      using n c by (simp add: merge_range_def nth_append list_update_append)
    moreover have "fl_ok lo (xs @ ?s # ys') hi" using ok(1) e u r pp by (simp add: n add_ac)
    moreover have "fl_span (xs @ ?s # ys') = fl_span (xs @ ys) \<union> {unat b..<unat b + unat a}"
      using e u by (auto simp: n)
    ultimately show ?thesis using n av(2) by simp
  next
    case none
    have pp: "fl_end lo xs \<le> unat b"
      using none(1) sep(1) by (intro fl_end_snoc_le [OF lo_xs(1) r(4)]) (force simp: mp_def touches_prev_def)
    have nn: "ys \<noteq> [] \<longrightarrow> unat b + unat a < unat (fr_base (hd ys))"
      using none(2) sep(2) by (force simp: mn_def touches_next_def)
    have "fl_ok lo (xs @ \<lparr>fr_base = b, fr_size = a\<rparr> # ys) hi"
      using ok(1) r pp nn by (cases ys) auto
    then show ?thesis
      using none A(6) [OF av(2)] A(1) [of "xs @ ys" "length xs"] av(2) by (auto simp: merge_range_def)
  qed
qed


text \<open>Where the freed range sits in the sorted free list.\<close>

lemma insertion_split:
  assumes ok: "fl_ok lo fl hi" and disj: "{unat b..<unat b + n} \<inter> fl_span fl = {}" "0 < n"
  obtains xs ys where "fl = xs @ ys" "insertion_index fl b = length xs"
    "xs \<noteq> [] \<Longrightarrow> fr_end (last xs) \<le> unat b" "ys \<noteq> [] \<Longrightarrow> unat b + n \<le> unat (fr_base (hd ys))"
proof
  let ?xs = "takeWhile (\<lambda>r. fr_base r < b) fl" and ?ys = "dropWhile (\<lambda>r. fr_base r < b) fl"
  have span: "{unat (fr_base r)..<fr_end r} \<subseteq> fl_span fl" if "r \<in> set fl" for r
    using that by (auto simp: fl_span_def)
  show "fl = ?xs @ ?ys" "insertion_index fl b = length ?xs" by (simp_all add: insertion_index_def)
  show "fr_end (last ?xs) \<le> unat b" if "?xs \<noteq> []"
  proof -
    have l: "last ?xs \<in> set fl" "fr_base (last ?xs) < b"
      using last_in_set [OF that] by (auto dest: set_takeWhileD)
    have "unat b \<in> {unat b..<unat b + n}" using disj(2) by simp
    then have "unat b \<notin> fl_span fl" using disj(1) by blast
    then have "unat b \<notin> {unat (fr_base (last ?xs))..<fr_end (last ?xs)}" using span [OF l(1)] by blast
    then show ?thesis using l(2) by (simp add: word_less_nat_alt)
  qed
  show "unat b + n \<le> unat (fr_base (hd ?ys))" if "?ys \<noteq> []"
  proof -
    have h: "hd ?ys \<in> set fl" "\<not> fr_base (hd ?ys) < b"
      using hd_in_set [OF that] hd_dropWhile [OF that] by (auto dest: set_dropWhileD)
    have pos: "0 < unat (fr_size r)" if "r \<in> set fl" for r
      using ok that by (induction fl arbitrary: lo) auto
    have "unat (fr_base (hd ?ys)) \<in> fl_span fl" using span [OF h(1)] pos [OF h(1)] by auto
    then have "unat (fr_base (hd ?ys)) \<notin> {unat b..<unat b + n}" using disj by blast
    then show ?thesis using h(2) by (simp add: word_less_nat_alt)
  qed
qed

lemma deallocate_tail:
  assumes av: "array_vec_ok N av" and inv: "fra_inv N self"
    and b: "4096 dvd unat b" "fra_base self \<le> unat b" "unat b \<le> unat (watermark self)"
    and disj: "{unat b..<unat (watermark self)} \<inter> fl_span (free_list self) = {}"
  obtains self' where "retract_watermark av (self\<lparr>watermark := b\<rparr>) = Some self'" "fra_inv N self'"
    "fra_free self' = fra_free self \<union> {unat b..<unat (watermark self)}"
proof -
  note I = inv [unfolded fra_inv_def]
  have "fl_ok (fra_base self) (free_list self) (Suc (unat b))"
    using I disj by (intro fl_ok_shrink) (auto simp: Int_commute)
  then obtain self' where r: "retract_watermark av (self\<lparr>watermark := b\<rparr>) = Some self'"
    "fl_ok (fra_base self) (free_list self') (unat (watermark self'))" "fra_base self \<le> unat (watermark self')"
    "unat (watermark self') \<le> unat b" "4096 dvd unat (watermark self')"
    "fl_span (free_list self') \<union> {unat (watermark self')..<unat b} = fl_span (free_list self)"
    "length (free_list self') \<le> N" "fra_region self' = fra_region self"
    using retract_spec [OF av, of "self\<lparr>watermark := b\<rparr>" "fra_base self"] I b by auto
  show ?thesis
  proof (rule that [OF r(1)])
    show "fra_inv N self'" using I r b by (simp add: fra_inv_def)
    have "{unat (watermark self')..<fra_end self} =
        {unat (watermark self')..<unat b} \<union> {unat b..<unat (watermark self)} \<union> {unat (watermark self)..<fra_end self}"
      using r(4) b(3) I by auto
    then show "fra_free self' = fra_free self \<union> {unat b..<unat (watermark self)}"
      unfolding fra_free_def r(6) [symmetric] r(8) by blast
  qed
qed

lemma interval_ends:
  fixes b n :: nat
  assumes "{b..<b + n} \<subseteq> S" "0 < n" shows "b \<in> S" "b + n - 1 \<in> S"
  using assms(2) by (auto intro!: subsetD [OF assms(1)])

text \<open>The part of \<^verbatim>\<open>deallocate\<close> after the watermark test, for a range with separated neighbours.\<close>

lemma deallocate_neighbours:
  assumes fl: "fl = xs @ ys" "fl_ok lo fl hi" "hi \<le> 2 ^ 64" and e: "unat e = unat b + unat a"
    and sep: "xs \<noteq> [] \<Longrightarrow> fr_end (last xs) \<le> unat b" "ys \<noteq> [] \<Longrightarrow> unat b + unat a \<le> unat (fr_base (hd ys))"
  obtains pe nxt where
    "(if length xs = 0 then Some 0
      else do { prev \<leftarrow> idx fl (length xs - 1); chk_add (fr_base prev) (fr_size prev) }) = Some pe"
    "length xs = 0 \<or> pe \<le> b"
    "(if length fl \<le> length xs then Some None else do { n \<leftarrow> idx fl (length xs); Some (Some n) }) = Some nxt"
    "case nxt of None \<Rightarrow> True | Some n \<Rightarrow> e \<le> fr_base n"
    "(0 < length xs \<and> pe = b) = touches_prev xs b"
    "(case nxt of None \<Rightarrow> False | Some n \<Rightarrow> fr_base n = e) = touches_next ys (unat b + unat a)"
proof -
  define pe where "pe = (if xs = [] then 0 else fr_base (last xs) + fr_size (last xs))"
  define nxt where "nxt = (if ys = [] then None else Some (hd ys))"
  have u: "unat pe = fr_end (last xs)" "chk_add (fr_base (last xs)) (fr_size (last xs)) = Some pe" if "xs \<noteq> []"
  proof -
    have "fr_end (last xs) < hi" using fl(2) that by (cases xs rule: rev_cases) (auto simp: fl(1))
    then show "unat pe = fr_end (last xs)" "chk_add (fr_base (last xs)) (fr_size (last xs)) = Some pe"
      using that fl(3) by (simp_all add: pe_def chk_add_def unat_word_ariths)
  qed
  show ?thesis
  proof (rule that)
    show "(if length xs = 0 then Some 0
      else do { prev \<leftarrow> idx fl (length xs - 1); chk_add (fr_base prev) (fr_size prev) }) = Some pe"
      using u(2) by (cases xs rule: rev_cases) (auto simp: fl(1) nth_append pe_def)
    show "(if length fl \<le> length xs then Some None else do { n \<leftarrow> idx fl (length xs); Some (Some n) }) = Some nxt"
      by (cases ys) (auto simp: fl(1) nth_append nxt_def)
    show "length xs = 0 \<or> pe \<le> b" using u(1) sep(1) by (cases "xs = []") (simp_all add: word_le_nat_alt)
    show "case nxt of None \<Rightarrow> True | Some n \<Rightarrow> e \<le> fr_base n"
      using sep(2) by (cases "ys = []") (simp_all add: nxt_def e word_le_nat_alt)
    show "(0 < length xs \<and> pe = b) = touches_prev xs b"
      using u(1) by (cases "xs = []") (simp_all add: touches_prev_def word_unat_eq_iff)
    show "(case nxt of None \<Rightarrow> False | Some n \<Rightarrow> fr_base n = e) = touches_next ys (unat b + unat a)"
      by (auto simp: nxt_def touches_next_def word_unat_eq_iff e)
  qed
qed

lemma free_region_deallocate_spec:
  assumes av: "array_vec_ok N av" and inv: "fra_inv N self" and sz: "0 < unat sz" "4096 dvd unat (va v)"
    and range: "{unat (va v)..<unat (va v) + pages_up (unat sz)} \<subseteq> {fra_base self..<fra_end self} - fra_free self"
  shows "\<exists>res self'. free_region_deallocate av self v sz = Some (res, self') \<and> fra_inv N self' \<and>
    (case res of
       Inr _ \<Rightarrow> fra_free self' = fra_free self \<union> {unat (va v)..<unat (va v) + pages_up (unat sz)}
     | Inl FreeListFull \<Rightarrow> self' = self \<and> length (free_list self) = N)"
proof -
  let ?b = "unat (va v)" and ?fl = "free_list self" and ?W = "unat (watermark self)"
  note I = inv [unfolded fra_inv_def]
  have reg: "region_good (fra_region self)" and ok: "fl_ok (fra_base self) ?fl ?W" using I by auto
  have pos: "0 < pages_up (unat sz)" using sz(1) pages_up_bounds(1) [of "unat sz"] by simp
  have R: "fra_base self \<le> ?b" "?b + pages_up (unat sz) \<le> ?W"
    using interval_ends [OF range pos] pos by (auto simp: fra_free_def)
  have W64: "?W < 2 ^ 64" using unsigned_less [of "watermark self", where ?'a = nat] by simp
  then have "pages_up (unat sz) < 2 ^ 64" using R(2) by simp
  from pages_up_fits [OF this] obtain a where
    a: "page_align_up sz = Some a" "unat a = pages_up (unat sz)" by (blast elim: page_align_up_eq)
  have an: "a \<noteq> 0" "4096 dvd unat a" "0 < unat a" using a(2) pos pages_up_bounds(3) [of "unat sz"] by auto
  have disj: "{?b..<?b + unat a} \<inter> fl_span ?fl = {}" using range a(2) by (auto simp: fra_free_def)
  obtain e where e: "chk_add (va v) a = Some e" "unat e = ?b + unat a"
    using R(2) W64 a(2) by (auto simp: chk_add_def unat_word_ariths)
  have cmp: "va (vr_base (fra_region self)) \<le> va v" "e \<le> va (vr_base (fra_region self)) + vr_max_size (fra_region self)"
    "e \<le> watermark self"
    using R I e(2) a(2) by (simp_all add: word_le_nat_alt region_end_eq(2) [OF reg])
  note run = free_region_deallocate_def [of av self v sz] a(1) an(1) e(1) cmp region_end_eq(1) [OF reg]
  show ?thesis
  proof (cases "e = watermark self")
    case True
    then have w: "?W = ?b + unat a" using e(2) by simp
    from deallocate_tail [OF av inv sz(2) R(1) _ disj [folded w]] w obtain self' where
      "retract_watermark av (self\<lparr>watermark := va v\<rparr>) = Some self'" "fra_inv N self'"
      "fra_free self' = fra_free self \<union> {?b..<?W}" by auto
    then show ?thesis using run True w a(2) by simp
  next
    case False
    then have lt: "?b + unat a < ?W" using cmp(3) e(2) by (auto simp: word_le_nat_alt word_unat_eq_iff)
    from insertion_split [OF ok disj an(3)] obtain xs ys where
      xy: "?fl = xs @ ys" "insertion_index ?fl (va v) = length xs"
        "xs \<noteq> [] \<Longrightarrow> fr_end (last xs) \<le> ?b" "ys \<noteq> [] \<Longrightarrow> ?b + unat a \<le> unat (fr_base (hd ys))" by blast
    from deallocate_neighbours [OF xy(1) ok _ e(2) xy(3,4)] W64 obtain pe nxt where
      nb: "(if length xs = 0 then Some 0
        else do { prev \<leftarrow> idx ?fl (length xs - 1); chk_add (fr_base prev) (fr_size prev) }) = Some pe"
        "length xs = 0 \<or> pe \<le> va v"
        "(if length ?fl \<le> length xs then Some None else do { n \<leftarrow> idx ?fl (length xs); Some (Some n) }) = Some nxt"
        "case nxt of None \<Rightarrow> True | Some n \<Rightarrow> e \<le> fr_base n"
        "(0 < length xs \<and> pe = va v) = touches_prev xs (va v)"
        "(case nxt of None \<Rightarrow> False | Some n \<Rightarrow> fr_base n = e) = touches_next ys (?b + unat a)" by auto
    have "free_region_deallocate av self v sz = do {
        merged \<leftarrow> merge_range av ?fl (length xs) (va v) a (touches_prev xs (va v)) (touches_next ys (?b + unat a));
        (case merged of None \<Rightarrow> Some (Inl FreeListFull, self)
         | Some fl \<Rightarrow> do { self' \<leftarrow> retract_watermark av (self\<lparr>free_list := fl\<rparr>); Some (Inr (), self') }) }"
      unfolding run(1) using run(2-) False xy(2) by (simp only: Let_def nb) (use nb(2,4,5,6) in simp)
    note step = this
    have W: "?W \<le> 2 ^ 64" using W64 by simp
    have len: "length (xs @ ys) \<le> N" using I xy(1) by simp
    note M = merge_range_spec [OF av len ok [unfolded xy(1)] W sz(2) an(2,3) R(1) lt xy(3,4)]
    show ?thesis
    proof (cases "\<not> touches_prev xs (va v) \<and> \<not> touches_next ys (?b + unat a) \<and> length (xs @ ys) = N")
      case True
      then show ?thesis using step M inv xy(1) by simp
    next
      case False
      with M obtain fl where fl: "fl_ok (fra_base self) fl ?W" "length fl \<le> N"
        "fl_span fl = fl_span (xs @ ys) \<union> {?b..<?b + unat a}"
        "merge_range av (xs @ ys) (length xs) (va v) a (touches_prev xs (va v)) (touches_next ys (?b + unat a)) = Some (Some fl)"
        by auto
      have "retract_watermark av (self\<lparr>free_list := fl\<rparr>) = Some (self\<lparr>free_list := fl\<rparr>)"
        using fl(1) by (intro retract_noop [of "fra_base self"]) simp
      moreover have "fra_inv N (self\<lparr>free_list := fl\<rparr>)" using I fl by (simp add: fra_inv_def)
      moreover have "fra_free (self\<lparr>free_list := fl\<rparr>) = fra_free self \<union> {?b..<?b + unat a}"
        using fl(3) by (auto simp: fra_free_def xy(1))
      ultimately show ?thesis using step fl(4) xy(1) a(2) by simp
    qed
  qed
qed


section \<open>The range-allocator interface\<close>

text \<open>
  What the VMM relies on when it draws address ranges from a region: an allocation hands out a range
  that was available and takes it away. Ranges handed out in sequence are then pairwise disjoint.
  Both region allocators provide it.
\<close>

fun alloc_seq ::
  "('s \<Rightarrow> u64 \<Rightarrow> (virt_addr option \<times> 's) option) \<Rightarrow> 's \<Rightarrow> u64 list \<Rightarrow> ((nat \<times> nat) list \<times> 's) option" where
  "alloc_seq alloc s [] = Some ([], s)"
| "alloc_seq alloc s (sz # szs) =
     do { (r, s') \<leftarrow> alloc s sz;
          (rs, s'') \<leftarrow> alloc_seq alloc s' szs;
          Some (case r of None \<Rightarrow> (rs, s'')
                | Some v \<Rightarrow> ((unat (va v), unat (va v) + pages_up (unat sz)) # rs, s'')) }"

locale range_allocator =
  fixes alloc :: "'s \<Rightarrow> u64 \<Rightarrow> (virt_addr option \<times> 's) option"
    and rinv :: "'s \<Rightarrow> bool" and ravail :: "'s \<Rightarrow> nat set" and admissible :: "u64 \<Rightarrow> bool"
  assumes alloc_law: "rinv s \<Longrightarrow> admissible sz \<Longrightarrow> \<exists>r s'. alloc s sz = Some (r, s') \<and> rinv s' \<and>
    (case r of None \<Rightarrow> s' = s \<and> \<not> (\<exists>b. {b..<b + pages_up (unat sz)} \<subseteq> ravail s)
     | Some v \<Rightarrow> virt_ok v \<and> 4096 dvd unat (va v) \<and> {unat (va v)..<unat (va v) + pages_up (unat sz)} \<subseteq> ravail s \<and>
         ravail s' = ravail s - {unat (va v)..<unat (va v) + pages_up (unat sz)})"
    and avail_canonical: "rinv s \<Longrightarrow> unat a \<in> ravail s \<Longrightarrow> canonical a"
    and avail_below: "rinv s \<Longrightarrow> ravail s \<subseteq> {..<2 ^ 64}"
begin

lemma alloc_seq_disjoint:
  assumes "rinv s" "list_all admissible szs"
  shows "\<exists>rs s'. alloc_seq alloc s szs = Some (rs, s') \<and> rinv s' \<and>
    (\<forall>(b, e) \<in> set rs. {b..<e} \<subseteq> ravail s) \<and> ravail s' \<subseteq> ravail s \<and>
    sorted_wrt (\<lambda>(b, e) (b', e'). {b..<e} \<inter> {b'..<e'} = {}) rs"
  using assms
proof (induction szs arbitrary: s)
  case (Cons sz szs)
  from alloc_law [OF Cons.prems(1), of sz] Cons.prems(2) obtain r s1 where
    a: "alloc s sz = Some (r, s1)" "rinv s1"
      "case r of None \<Rightarrow> s1 = s
       | Some v \<Rightarrow> {unat (va v)..<unat (va v) + pages_up (unat sz)} \<subseteq> ravail s \<and>
           ravail s1 = ravail s - {unat (va v)..<unat (va v) + pages_up (unat sz)}" by (auto split: option.splits)
  from Cons.IH [OF a(2)] Cons.prems(2) obtain rs s2 where
    b: "alloc_seq alloc s1 szs = Some (rs, s2)" "rinv s2" "\<forall>(b, e) \<in> set rs. {b..<e} \<subseteq> ravail s1"
      "ravail s2 \<subseteq> ravail s1" "sorted_wrt (\<lambda>(b, e) (b', e'). {b..<e} \<inter> {b'..<e'} = {}) rs" by auto
  show ?case
  proof (cases r)
    case None
    then show ?thesis using a b by simp
  next
    case (Some v)
    let ?R = "{unat (va v)..<unat (va v) + pages_up (unat sz)}"
    have sub: "?R \<subseteq> ravail s" "ravail s1 = ravail s - ?R" using a(3) Some by auto
    have "\<forall>(b, e) \<in> set rs. {b..<e} \<subseteq> ravail s" "\<forall>(b, e) \<in> set rs. ?R \<inter> {b..<e} = {}"
      using b(3) sub(2) by blast+
    then show ?thesis using a(1) b sub Some by auto
  qed
qed simp

end

text \<open>Requests up to 16 TiB, in a region that ends at least that far below the top.\<close>

definition request_ok :: "u64 \<Rightarrow> bool" where
  "request_ok sz = (0 < unat sz \<and> pages_up (unat sz) \<le> 2 ^ 44)"

definition fra_roomy :: "nat \<Rightarrow> free_range array_vec \<Rightarrow> free_region_allocator \<Rightarrow> bool" where
  "fra_roomy N av self = (array_vec_ok N av \<and> fra_inv N self \<and> fra_end self + 2 ^ 44 < 2 ^ 64)"

definition bump_roomy :: "region_allocator \<Rightarrow> bool" where
  "bump_roomy self =
     (region_good (ra_region self) \<and> unat (va (vr_base (ra_region self))) \<le> unat (ra_next self) \<and>
      unat (ra_next self) \<le> unat (va (vr_base (ra_region self))) + unat (vr_max_size (ra_region self)) \<and>
      4096 dvd unat (ra_next self) \<and>
      unat (va (vr_base (ra_region self))) + unat (vr_max_size (ra_region self)) + 2 ^ 44 < 2 ^ 64)"

definition bump_free :: "region_allocator \<Rightarrow> nat set" where
  "bump_free self = {unat (ra_next self)..<
     unat (va (vr_base (ra_region self))) + unat (vr_max_size (ra_region self))}"

lemma free_region_allocate_region:
  assumes "free_region_allocate av self sz = Some (r, self')"
  shows "fra_region self' = fra_region self"
  using assms by (auto simp: free_region_allocate_def split: if_splits option.splits Option.bind_splits)


interpretation coalescing: range_allocator "free_region_allocate av" "fra_roomy N av" fra_free request_ok
  for N av
proof
  fix self sz assume I: "fra_roomy N av self" and sz: "request_ok sz"
  have "unat (watermark self) + pages_up (unat sz) < 2 ^ 64"
    using I sz by (simp add: fra_roomy_def request_ok_def fra_inv_def)
  with free_region_allocate_spec [of N av self sz] I sz obtain r self' where
    r: "free_region_allocate av self sz = Some (r, self')"
      "case r of None \<Rightarrow> self' = self \<and> \<not> (\<exists>s. {s..<s + pages_up (unat sz)} \<subseteq> fra_free self)
       | Some v \<Rightarrow> fra_takes N self (pages_up (unat sz)) v self'"
    by (auto simp: fra_roomy_def request_ok_def)
  have "fra_roomy N av self'"
    using r I free_region_allocate_region [OF r(1)] by (cases r) (auto simp: fra_takes_def fra_roomy_def)
  then show "\<exists>r s'. free_region_allocate av self sz = Some (r, s') \<and> fra_roomy N av s' \<and>
    (case r of None \<Rightarrow> s' = self \<and> \<not> (\<exists>b. {b..<b + pages_up (unat sz)} \<subseteq> fra_free self)
     | Some v \<Rightarrow> virt_ok v \<and> 4096 dvd unat (va v) \<and> {unat (va v)..<unat (va v) + pages_up (unat sz)} \<subseteq> fra_free self \<and>
         fra_free s' = fra_free self - {unat (va v)..<unat (va v) + pages_up (unat sz)})"
    using r by (cases r) (auto simp: fra_takes_def)
next
  fix self assume I: "fra_roomy N av self"
  then have sub: "fra_free self \<subseteq> {fra_base self..<fra_end self}"
    unfolding fra_roomy_def by (intro fra_free_span) blast
  then show "fra_free self \<subseteq> {..<2 ^ 64}" using I by (auto simp: fra_roomy_def)
  fix a :: u64 assume "unat a \<in> fra_free self"
  then show "canonical a" using sub I by (intro region_canonical [of "fra_region self"]) (auto simp: fra_roomy_def fra_inv_def)
qed

interpretation bump: range_allocator region_allocate bump_roomy bump_free request_ok
proof
  fix self sz assume I: "bump_roomy self" and sz: "request_ok sz"
  let ?B = "unat (va (vr_base (ra_region self)))" and ?M = "unat (vr_max_size (ra_region self))"
  let ?n = "unat (ra_next self)"
  note J = I [unfolded bump_roomy_def]
  have "pages_up (unat sz) < 2 ^ 64" using sz by (simp add: request_ok_def)
  from pages_up_fits [OF this] obtain a where
    a: "page_align_up sz = Some a" "unat a = pages_up (unat sz)" by (blast elim: page_align_up_eq)
  have pos: "0 < unat a" "4096 dvd unat a"
    using a(2) sz pages_up_bounds(1,3) [of "unat sz"] by (simp_all add: request_ok_def)
  have "?n + unat a < 2 ^ 64" using J sz a(2) by (simp add: request_ok_def)
  then have e: "chk_add (ra_next self) a = Some (ra_next self + a)" "unat (ra_next self + a) = ?n + unat a"
    by (simp_all add: chk_add_def unat_word_ariths)
  have reg: "region_good (ra_region self)" using J by simp
  note run = region_allocate_def [of self sz] a(1) e region_end_eq [OF reg]
  show "\<exists>r s'. region_allocate self sz = Some (r, s') \<and> bump_roomy s' \<and>
    (case r of None \<Rightarrow> s' = self \<and> \<not> (\<exists>b. {b..<b + pages_up (unat sz)} \<subseteq> bump_free self)
     | Some v \<Rightarrow> virt_ok v \<and> 4096 dvd unat (va v) \<and> {unat (va v)..<unat (va v) + pages_up (unat sz)} \<subseteq> bump_free self \<and>
         bump_free s' = bump_free self - {unat (va v)..<unat (va v) + pages_up (unat sz)})"
  proof (cases "?B + ?M < ?n + unat a")
    case True
    have "\<not> {b..<b + unat a} \<subseteq> bump_free self" for b
    proof
      assume "{b..<b + unat a} \<subseteq> bump_free self"
      then have "b \<in> bump_free self" "b + unat a - 1 \<in> bump_free self" using pos(1) by auto
      then show False using True pos(1) by (auto simp: bump_free_def)
    qed
    then show ?thesis using True run I a(2) by (simp add: word_less_nat_alt)
  next
    case False
    then have c: "virt_addr_new_truncate (ra_next self) = VirtAddr (ra_next self)"
      using J pos by (intro region_good_canonical [OF reg]) simp_all
    then have "virt_ok (VirtAddr (ra_next self))" by (metis canonical_truncate virt_ok_def)
    moreover have "4096 dvd ?n" using J by simp
    moreover note c
    moreover have "bump_roomy (self\<lparr>ra_next := ra_next self + a\<rparr>)"
      using J False e(2) pos(2) by (simp add: bump_roomy_def)
    moreover have "bump_free (self\<lparr>ra_next := ra_next self + a\<rparr>) = bump_free self - {?n..<?n + unat a}"
      "{?n..<?n + unat a} \<subseteq> bump_free self"
      using False by (auto simp: bump_free_def e(2))
    ultimately show ?thesis using run False a(2) by (simp add: word_less_nat_alt)
  qed
next
  fix self assume I: "bump_roomy self"
  then show "bump_free self \<subseteq> {..<2 ^ 64}" by (auto simp: bump_free_def bump_roomy_def)
  fix a :: u64 assume "unat a \<in> bump_free self"
  then show "canonical a" using I by (intro region_canonical [of "ra_region self"]) (auto simp: bump_free_def bump_roomy_def)
qed

section \<open>Properties\<close>

definition stack_region :: virt_region where
  "stack_region = \<lparr>vr_base = VirtAddr 0xFFFFC80000000000, vr_max_size = 0x10000\<rparr>"

lemma stack_region_good: "region_good stack_region"
  by (simp add: region_good_def stack_region_def)

lemma stack_allocator_ok:
  "fra_inv N (free_region_new stack_region)" "fra_end (free_region_new stack_region) = 0xFFFFC80000010000"
  "unat (watermark (free_region_new stack_region)) = 0xFFFFC80000000000"
  by (rule fra_inv_new [OF stack_region_good]) (simp_all add: free_region_new_def stack_region_def)

text \<open>
  C25: \<^verbatim>\<open>FreeRegionAllocator::allocate\<close> returns a page-aligned canonical address whose whole range was
  free, removes exactly that range from the free addresses and keeps the free list sorted and
  coalesced. It returns \<^const>\<open>None\<close> only when no free interval of the rounded size exists anywhere in
  the region: coalescing makes first fit complete.
\<close>

theorem free_region_allocate_correct:
  assumes av: "array_vec_ok N av" and inv: "fra_inv N self"
    and sz: "0 < unat sz" "unat (watermark self) + pages_up (unat sz) < 2 ^ 64"
  shows "\<exists>r self'. free_region_allocate av self sz = Some (r, self') \<and>
    (case r of
       None \<Rightarrow> self' = self \<and> \<not> (\<exists>s. {s..<s + pages_up (unat sz)} \<subseteq> fra_free self)
     | Some v \<Rightarrow> fra_takes N self (pages_up (unat sz)) v self')"
  by (rule free_region_allocate_spec [OF assms])

theorem free_region_allocate_correct_witness:
  "\<exists>r self'. free_region_allocate (list_array_vec 4) (free_region_new stack_region) 0x1800 = Some (r, self') \<and>
    (case r of None \<Rightarrow> self' = free_region_new stack_region \<and>
         \<not> (\<exists>s. {s..<s + 0x2000} \<subseteq> fra_free (free_region_new stack_region))
     | Some v \<Rightarrow> fra_takes 4 (free_region_new stack_region) 0x2000 v self')"
proof -
  have p: "pages_up (unat (0x1800 :: u64)) = 0x2000" by (simp add: pages_up_def)
  show ?thesis
    using free_region_allocate_correct [OF list_array_vec_ok stack_allocator_ok(1), of "0x1800" 4, unfolded p]
    by (simp add: stack_allocator_ok)
qed

text \<open>An allocator with one page handed out at its base and another free below the watermark.\<close>

definition used_stack_region :: free_region_allocator where
  "used_stack_region =
     \<lparr>fra_region = stack_region,
      free_list = [\<lparr>fr_base = 0xFFFFC80000001000, fr_size = 0x1000\<rparr>], watermark = 0xFFFFC80000003000\<rparr>"

lemma used_stack_region_inv: "fra_inv 4 used_stack_region"
  by (simp add: fra_inv_def used_stack_region_def stack_region_good) (simp add: stack_region_def)

lemma used_stack_region_free:
  "fra_free used_stack_region = {0xFFFFC80000001000..<0xFFFFC80000002000} \<union> {0xFFFFC80000003000..<0xFFFFC80000010000}"
  by (simp add: fra_free_def used_stack_region_def stack_region_def)

text \<open>
  C17: \<^verbatim>\<open>FreeRegionAllocator::deallocate\<close> of a page-aligned range that lies in the region and is
  currently allocated does not panic. Either it makes exactly that range free again, coalescing and
  retracting the watermark as needed, or it reports \<^verbatim>\<open>FreeListFull\<close> and changes nothing, which happens
  only when the free list holds \<open>N\<close> ranges. Either way the invariant holds.
\<close>

theorem free_region_deallocate_correct:
  assumes av: "array_vec_ok N av" and inv: "fra_inv N self" and sz: "0 < unat sz" "4096 dvd unat (va v)"
    and range: "{unat (va v)..<unat (va v) + pages_up (unat sz)} \<subseteq> {fra_base self..<fra_end self} - fra_free self"
  shows "\<exists>res self'. free_region_deallocate av self v sz = Some (res, self') \<and> fra_inv N self' \<and>
    (case res of
       Inr _ \<Rightarrow> fra_free self' = fra_free self \<union> {unat (va v)..<unat (va v) + pages_up (unat sz)}
     | Inl FreeListFull \<Rightarrow> self' = self \<and> length (free_list self) = N)"
  by (rule free_region_deallocate_spec [OF assms])

theorem free_region_deallocate_correct_witness:
  "\<exists>res self'. free_region_deallocate (list_array_vec 4) used_stack_region (VirtAddr 0xFFFFC80000000000) 0x1000
      = Some (res, self') \<and> fra_inv 4 self' \<and>
    (case res of
       Inr _ \<Rightarrow> fra_free self' = fra_free used_stack_region \<union> {0xFFFFC80000000000..<0xFFFFC80000001000}
     | Inl FreeListFull \<Rightarrow> False)"
proof -
  let ?v = "VirtAddr 0xFFFFC80000000000"
  have p: "pages_up (unat (0x1000 :: u64)) = 0x1000" by (simp add: pages_up_def)
  have "{unat (va ?v)..<unat (va ?v) + pages_up (unat (0x1000 :: u64))}
      \<subseteq> {fra_base used_stack_region..<fra_end used_stack_region} - fra_free used_stack_region"
    unfolding p by (simp add: used_stack_region_free) (auto simp: used_stack_region_def stack_region_def)
  from free_region_deallocate_correct [OF list_array_vec_ok used_stack_region_inv _ _ this] obtain res self' where
    r: "free_region_deallocate (list_array_vec 4) used_stack_region ?v 0x1000 = Some (res, self')" "fra_inv 4 self'"
      "case res of Inr _ \<Rightarrow> fra_free self' = fra_free used_stack_region \<union> {unat (va ?v)..<unat (va ?v) + 0x1000}
       | Inl FreeListFull \<Rightarrow> self' = used_stack_region \<and> length (free_list used_stack_region) = 4"
    unfolding p by auto
  have "length (free_list used_stack_region) = 1" by (simp add: used_stack_region_def)
  then show ?thesis using r by (auto split: sum.splits region_alloc_error.splits)
qed

text \<open>
  The overlap assertions of \<^verbatim>\<open>deallocate\<close> are skipped when the range ends at the watermark: freeing two
  pages over one that is already free succeeds, and the next two allocations return the same page.
\<close>

lemma page_align_up_examples:
  "page_align_up 0x1000 = Some 0x1000" "page_align_up 0x2000 = Some 0x2000"
  by (simp_all add: page_align_up_def chk_add_def PAGE_MASK_def)

lemma stack_base_truncate: "virt_addr_new_truncate 0xFFFFC80000000000 = VirtAddr 0xFFFFC80000000000"
  by (rule truncate_canonical) (simp add: canonical_iff)

lemma overlapping_free_undetected:
  fixes base :: u64
  defines "base \<equiv> 0xFFFFC80000000000"
  defines "s \<equiv> \<lparr>fra_region = stack_region, free_list = [\<lparr>fr_base = base, fr_size = 0x1000\<rparr>],
      watermark = base + 0x2000\<rparr>"
  shows "fra_inv 4 s"
    "\<exists>s1 s2 s3. free_region_deallocate (list_array_vec 4) s (VirtAddr base) 0x2000 = Some (Inr (), s1) \<and>
      free_region_allocate (list_array_vec 4) s1 0x1000 = Some (Some (VirtAddr base), s2) \<and>
      free_region_allocate (list_array_vec 4) s2 0x1000 = Some (Some (VirtAddr base), s3)"
proof -
  show "fra_inv 4 s"
    using stack_region_good by (simp add: s_def base_def fra_inv_def) (simp add: stack_region_def)
  let ?s1 = "s\<lparr>watermark := base\<rparr>" and ?s2 = "s\<lparr>watermark := base, free_list := []\<rparr>"
  have r: "retract_watermark (list_array_vec 4) ?s1 = Some ?s1"
    by (subst retract_watermark.simps) (simp add: s_def base_def chk_add_def)
  have "free_region_deallocate (list_array_vec 4) s (VirtAddr base) 0x2000 = Some (Inr (), ?s1)"
    using r by (simp add: free_region_deallocate_def page_align_up_examples Let_def)
       (simp add: s_def base_def chk_add_def stack_region_def)
  moreover have "free_region_allocate (list_array_vec 4) ?s1 0x1000 = Some (Some (VirtAddr base), ?s2)"
    by (simp add: free_region_allocate_def page_align_up_examples s_def base_def list_array_vec_def
        stack_base_truncate)
  moreover have "\<exists>s3. free_region_allocate (list_array_vec 4) ?s2 0x1000 = Some (Some (VirtAddr base), s3)"
    by (simp add: free_region_allocate_def page_align_up_examples s_def base_def
        stack_base_truncate chk_add_def stack_region_def)
  ultimately show "\<exists>s1 s2 s3. free_region_deallocate (list_array_vec 4) s (VirtAddr base) 0x2000 = Some (Inr (), s1) \<and>
      free_region_allocate (list_array_vec 4) s1 0x1000 = Some (Some (VirtAddr base), s2) \<and>
      free_region_allocate (list_array_vec 4) s2 0x1000 = Some (Some (VirtAddr base), s3)" by blast
qed

end
