(* ===== verification/Pmm.thy ===== *)
theory Pmm
  imports Addr
begin

text \<open>
  The physical memory manager: \<^verbatim>\<open>kernel/mm/src/pmm.rs\<close>, with the descriptors and errors of
  \<^verbatim>\<open>kernel/mm/src/lib.rs\<close>.

  \<open>bitmap_allocator\<close> is the struct \<^verbatim>\<open>BitmapAllocator\<close>; the bitmap slice is its address
  \<open>bitmap_ptr\<close> and a list of 64-bit words in which a set bit is a frame in use. The build option \<^verbatim>\<open>hadron_debug_pmm_poison\<close> is the argument
  \<open>poison\<close>, and the directly mapped pages it reads and writes are the argument \<open>mem\<close>, the 32-bit
  words of memory by virtual address. The lemmas relate the word-level search to the set of free
  frames: single-frame and contiguous allocation succeed exactly when a frame, or a run of frames,
  is free, keep the invariant, and are undone by deallocation; a double free panics.
\<close>

section \<open>The allocator\<close>

definition FRAME_SIZE :: u64 where "FRAME_SIZE = 4096"
definition BITS_PER_WORD :: usize where "BITS_PER_WORD = 64"
definition PAGE_POISON_PATTERN :: u32 where "PAGE_POISON_PATTERN = 0xDEADDEAD"

datatype pmm_error = OutOfMemory | InvalidFrame | AlreadyInitialized | NoBitmapRegion

record phys_memory_region =
  region_start :: phys_addr
  region_size :: u64
  region_usable :: bool

record bitmap_allocator =
  bitmap :: "u64 list"
  bitmap_ptr :: virt_addr
  total_frames :: usize
  free_count :: usize
  search_hint :: usize
  hhdm_offset :: virt_addr

type_synonym word_memory = "u64 \<Rightarrow> u32"

text \<open>\<^verbatim>\<open>u64::trailing_zeros\<close>.\<close>

definition trailing_zeros :: "u64 \<Rightarrow> nat" where
  "trailing_zeros w = length (takeWhile (\<lambda>i. \<not> bit w i) [0..<64])"

definition poison_page :: "bitmap_allocator \<Rightarrow> phys_addr \<Rightarrow> word_memory \<Rightarrow> word_memory" where
  "poison_page self phys mem =
     (let virt = va (virt_addr_add (hhdm_offset self) (pa phys))
      in fold (\<lambda>i m. m(virt + of_nat (4 * i) := PAGE_POISON_PATTERN)) [0..<1024] mem)"

definition check_page_poison :: "bitmap_allocator \<Rightarrow> word_memory \<Rightarrow> phys_addr \<Rightarrow> bool" where
  "check_page_poison self mem phys =
     (let virt = va (virt_addr_add (hhdm_offset self) (pa phys))
      in if mem virt \<noteq> PAGE_POISON_PATTERN then True
         else list_all (\<lambda>i. mem (virt + of_nat (4 * i)) = PAGE_POISON_PATTERN) [1..<1024])"

fun usable_ends :: "phys_memory_region list \<Rightarrow> u64 list option" where
  "usable_ends [] = Some []"
| "usable_ends (r # rs) =
     (if region_usable r
      then do { e \<leftarrow> chk_add (pa (region_start r)) (region_size r);
                es \<leftarrow> usable_ends rs; Some (e # es) }
      else usable_ends rs)"

fun clear_frames ::
  "usize \<Rightarrow> usize \<Rightarrow> nat list \<Rightarrow> u64 list \<times> usize \<Rightarrow> (u64 list \<times> usize) option" where
  "clear_frames frames start [] s = Some s"
| "clear_frames frames start (i # is) (bm, free) =
     do { frame_idx \<leftarrow> us_add start i;
          if frame_idx < frames
          then do { let word_idx = frame_idx div BITS_PER_WORD;
                    let bit_idx = frame_idx mod BITS_PER_WORD;
                    word \<leftarrow> idx bm word_idx;
                    bm' \<leftarrow> upd_idx bm word_idx (word AND NOT (push_bit bit_idx 1));
                    free' \<leftarrow> us_add free 1;
                    clear_frames frames start is (bm', free') }
          else clear_frames frames start is (bm, free) }"

fun clear_regions ::
  "usize \<Rightarrow> phys_memory_region list \<Rightarrow> u64 list \<times> usize \<Rightarrow> (u64 list \<times> usize) option" where
  "clear_regions frames [] s = Some s"
| "clear_regions frames (r # rs) s =
     (if region_usable r
      then do { let region_start_frame = unat (pa (region_start r) div FRAME_SIZE);
                let region_frame_count = unat (region_size r div FRAME_SIZE);
                s' \<leftarrow> clear_frames frames region_start_frame [0..<region_frame_count] s;
                clear_regions frames rs s' }
      else clear_regions frames rs s)"

fun reserve_frames ::
  "usize \<Rightarrow> usize \<Rightarrow> nat list \<Rightarrow> u64 list \<times> usize \<Rightarrow> (u64 list \<times> usize) option" where
  "reserve_frames frames start [] s = Some s"
| "reserve_frames frames start (i # is) (bm, free) =
     do { frame_idx \<leftarrow> us_add start i;
          if frame_idx < frames
          then do { let word_idx = frame_idx div BITS_PER_WORD;
                    let bit_idx = frame_idx mod BITS_PER_WORD;
                    word \<leftarrow> idx bm word_idx;
                    if word AND push_bit bit_idx 1 = 0
                    then do { bm' \<leftarrow> upd_idx bm word_idx (word OR push_bit bit_idx 1);
                              free' \<leftarrow> us_sub free 1;
                              reserve_frames frames start is (bm', free') }
                    else reserve_frames frames start is (bm, free) }
          else reserve_frames frames start is (bm, free) }"

definition bitmap_allocator_new ::
  "phys_memory_region list \<Rightarrow> virt_addr \<Rightarrow> (pmm_error + bitmap_allocator) option" where
  "bitmap_allocator_new regions hhdm =
     do { ends \<leftarrow> usable_ends regions;
          let max_phys = foldr max ends 0;
          if max_phys = 0 then Some (Inl OutOfMemory)
          else do {
            let frames = unat (max_phys div FRAME_SIZE);
            t \<leftarrow> us_add frames BITS_PER_WORD; t' \<leftarrow> us_sub t 1;
            let bitmap_words = t' div BITS_PER_WORD;
            bitmap_bytes \<leftarrow> us_mul bitmap_words 8;
            b \<leftarrow> chk_add (of_nat bitmap_bytes) FRAME_SIZE; b' \<leftarrow> chk_sub b 1;
            let bitmap_frame_count = b' div FRAME_SIZE;
            (case filter (\<lambda>r. region_usable r \<and> of_nat bitmap_bytes \<le> region_size r) regions of
               [] \<Rightarrow> Some (Inl NoBitmapRegion)
             | r # _ \<Rightarrow>
                do { let bitmap_phys_start = region_start r;
                     let ptr = virt_addr_add hhdm (pa bitmap_phys_start);
                     (bm, free) \<leftarrow> clear_regions frames regions (replicate bitmap_words (- 1), 0);
                     let bitmap_start_frame = unat (pa bitmap_phys_start div FRAME_SIZE);
                     (bm', free') \<leftarrow> reserve_frames frames bitmap_start_frame
                        [0..<unat bitmap_frame_count] (bm, free);
                     Some (Inr \<lparr>bitmap = bm', bitmap_ptr = ptr, total_frames = frames, free_count = free',
                                search_hint = 0, hhdm_offset = hhdm\<rparr>) }) } }"

fun allocate_frame_loop ::
  "bool \<Rightarrow> word_memory \<Rightarrow> bitmap_allocator \<Rightarrow> usize \<Rightarrow> usize \<Rightarrow> nat list \<Rightarrow>
   (phys_frame option \<times> bitmap_allocator) option" where
  "allocate_frame_loop poison mem self start words [] = Some (None, self)"
| "allocate_frame_loop poison mem self start words (offset # offsets) =
     do { s \<leftarrow> us_add start offset;
          let word_idx = s mod words;
          word \<leftarrow> idx (bitmap self) word_idx;
          if word = - 1 then allocate_frame_loop poison mem self start words offsets
          else do {
            let bit_idx = trailing_zeros (NOT word);
            t \<leftarrow> us_mul word_idx BITS_PER_WORD;
            frame_idx \<leftarrow> us_add t bit_idx;
            if total_frames self \<le> frame_idx
            then allocate_frame_loop poison mem self start words offsets
            else do {
              bm \<leftarrow> upd_idx (bitmap self) word_idx (word OR push_bit bit_idx 1);
              free \<leftarrow> us_sub (free_count self) 1;
              let self' = self\<lparr>bitmap := bm, free_count := free, search_hint := word_idx\<rparr>;
              addr \<leftarrow> chk_mul (of_nat frame_idx) FRAME_SIZE;
              p \<leftarrow> phys_addr_new addr;
              assert_that (poison \<longrightarrow> check_page_poison self' mem p);
              f \<leftarrow> phys_frame_containing_address Size4KiB p;
              Some (Some f, self') } } }"

definition allocate_frame ::
  "bool \<Rightarrow> word_memory \<Rightarrow> bitmap_allocator \<Rightarrow> (phys_frame option \<times> bitmap_allocator) option" where
  "allocate_frame poison mem self =
     (if free_count self = 0 then Some (None, self)
      else let start = search_hint self; words = length (bitmap self)
           in allocate_frame_loop poison mem self start words [0..<words])"

text \<open>The inner loop of \<^verbatim>\<open>allocate_frames\<close> over the bits of a partially occupied word.\<close>

fun scan_bits ::
  "usize \<Rightarrow> usize \<Rightarrow> usize \<Rightarrow> u64 \<Rightarrow> nat list \<Rightarrow> usize \<Rightarrow> usize \<Rightarrow> (usize \<times> usize) option" where
  "scan_bits frames count word_idx word [] run_start run_len = Some (run_start, run_len)"
| "scan_bits frames count word_idx word (b # bs) run_start run_len =
     do { t \<leftarrow> us_mul word_idx BITS_PER_WORD; fi \<leftarrow> us_add t b;
          if frames \<le> fi then Some (run_start, run_len)
          else if word AND push_bit b 1 \<noteq> 0
          then do { rs \<leftarrow> us_add fi 1; scan_bits frames count word_idx word bs rs 0 }
          else do { let rs = (if run_len = 0 then fi else run_start);
                    rl \<leftarrow> us_add run_len 1;
                    if count \<le> rl then Some (rs, rl)
                    else scan_bits frames count word_idx word bs rs rl } }"

text \<open>The word-level \<^verbatim>\<open>while\<close> loop of \<^verbatim>\<open>allocate_frames\<close>; it returns the run it has when it stops.\<close>

function scan_run ::
  "bitmap_allocator \<Rightarrow> usize \<Rightarrow> usize \<Rightarrow> usize \<Rightarrow> usize \<Rightarrow> (usize \<times> usize) option" where
  "scan_run self count frame_idx run_start run_len =
     (if \<not> frame_idx < total_frames self then Some (run_start, run_len)
      else do {
        let word_idx = frame_idx div BITS_PER_WORD;
        word \<leftarrow> idx (bitmap self) word_idx;
        if word = - 1 then do {
          w \<leftarrow> us_add word_idx 1; next_idx \<leftarrow> us_mul w BITS_PER_WORD;
          scan_run self count next_idx next_idx 0 }
        else if word = 0 then do {
          base \<leftarrow> us_mul word_idx BITS_PER_WORD;
          rest \<leftarrow> us_sub (total_frames self) base;
          let extend = min BITS_PER_WORD rest;
          let rs = (if run_len = 0 then base else run_start);
          rl \<leftarrow> us_add run_len extend;
          if count \<le> rl then Some (rs, rl)
          else do { w \<leftarrow> us_add word_idx 1; next_idx \<leftarrow> us_mul w BITS_PER_WORD;
                    scan_run self count next_idx rs rl } }
        else do {
          (rs, rl) \<leftarrow> scan_bits (total_frames self) count word_idx word
             [frame_idx mod BITS_PER_WORD..<BITS_PER_WORD] run_start run_len;
          if count \<le> rl then Some (rs, rl)
          else do { w \<leftarrow> us_add word_idx 1; next_idx \<leftarrow> us_mul w BITS_PER_WORD;
                    scan_run self count next_idx rs rl } } })"
  by pat_completeness auto
termination
  by (relation "measure (\<lambda>(self, count, frame_idx, run_start, run_len). total_frames self - frame_idx)")
     (auto simp: BITS_PER_WORD_def intro!: diff_less_mono2 dividend_less_div_times)


fun mark_frames ::
  "bool \<Rightarrow> word_memory \<Rightarrow> bitmap_allocator \<Rightarrow> usize \<Rightarrow> nat list \<Rightarrow> bitmap_allocator option" where
  "mark_frames poison mem self run_start [] = Some self"
| "mark_frames poison mem self run_start (i # is) =
     do { fi \<leftarrow> us_add run_start i;
          let word_idx = fi div BITS_PER_WORD;
          let bit_idx = fi mod BITS_PER_WORD;
          word \<leftarrow> idx (bitmap self) word_idx;
          bm \<leftarrow> upd_idx (bitmap self) word_idx (word OR push_bit bit_idx 1);
          let self' = self\<lparr>bitmap := bm\<rparr>;
          (if poison
           then do { addr \<leftarrow> chk_mul (of_nat fi) FRAME_SIZE; p \<leftarrow> phys_addr_new addr;
                     assert_that (check_page_poison self' mem p) }
           else Some ());
          mark_frames poison mem self' run_start is }"

definition allocate_frames ::
  "bool \<Rightarrow> word_memory \<Rightarrow> bitmap_allocator \<Rightarrow> usize \<Rightarrow>
   (phys_frame option \<times> bitmap_allocator) option" where
  "allocate_frames poison mem self count =
     (if count = 0 then Some (None, self)
      else if count = 1 then allocate_frame poison mem self
      else if free_count self < count then Some (None, self)
      else do {
        (run_start, run_len) \<leftarrow> scan_run self count 0 0 0;
        if run_len < count then Some (None, self)
        else do {
          self' \<leftarrow> mark_frames poison mem self run_start [0..<count];
          free \<leftarrow> us_sub (free_count self') count;
          e \<leftarrow> us_add run_start count;
          addr \<leftarrow> chk_mul (of_nat run_start) FRAME_SIZE;
          p \<leftarrow> phys_addr_new addr;
          f \<leftarrow> phys_frame_containing_address Size4KiB p;
          Some (Some f, self'\<lparr>free_count := free, search_hint := e div BITS_PER_WORD\<rparr>) } })"

definition deallocate_frame ::
  "bool \<Rightarrow> word_memory \<Rightarrow> bitmap_allocator \<Rightarrow> phys_frame \<Rightarrow>
   ((pmm_error + unit) \<times> bitmap_allocator \<times> word_memory) option" where
  "deallocate_frame poison mem self frame =
     (let frame_idx = unat (pa (frame_start frame) div FRAME_SIZE)
      in if total_frames self \<le> frame_idx then Some (Inl InvalidFrame, self, mem)
         else do {
           let word_idx = frame_idx div BITS_PER_WORD;
           let bit_idx = frame_idx mod BITS_PER_WORD;
           word \<leftarrow> idx (bitmap self) word_idx;
           assert_that (word AND push_bit bit_idx 1 \<noteq> 0);
           bm \<leftarrow> upd_idx (bitmap self) word_idx (word AND NOT (push_bit bit_idx 1));
           free \<leftarrow> us_add (free_count self) 1;
           let self' = self\<lparr>bitmap := bm, free_count := free\<rparr>;
           let mem' = (if poison then poison_page self' (frame_start frame) mem else mem);
           let self'' = (if word_idx < search_hint self' then self'\<lparr>search_hint := word_idx\<rparr>
                         else self');
           Some (Inr (), self'', mem') })"

fun release_frames ::
  "bool \<Rightarrow> word_memory \<Rightarrow> bitmap_allocator \<Rightarrow> usize \<Rightarrow> nat list \<Rightarrow>
   (bitmap_allocator \<times> word_memory) option" where
  "release_frames poison mem self start_idx [] = Some (self, mem)"
| "release_frames poison mem self start_idx (i # is) =
     do { fi \<leftarrow> us_add start_idx i;
          let word_idx = fi div BITS_PER_WORD;
          let bit_idx = fi mod BITS_PER_WORD;
          word \<leftarrow> idx (bitmap self) word_idx;
          assert_that (word AND push_bit bit_idx 1 \<noteq> 0);
          bm \<leftarrow> upd_idx (bitmap self) word_idx (word AND NOT (push_bit bit_idx 1));
          free \<leftarrow> us_add (free_count self) 1;
          let self' = self\<lparr>bitmap := bm, free_count := free\<rparr>;
          mem' \<leftarrow> (if poison
                  then do { addr \<leftarrow> chk_mul (of_nat fi) FRAME_SIZE; p \<leftarrow> phys_addr_new addr;
                            Some (poison_page self' p mem) }
                  else Some mem);
          release_frames poison mem' self' start_idx is }"

definition deallocate_frames ::
  "bool \<Rightarrow> word_memory \<Rightarrow> bitmap_allocator \<Rightarrow> phys_frame \<Rightarrow> usize \<Rightarrow>
   ((pmm_error + unit) \<times> bitmap_allocator \<times> word_memory) option" where
  "deallocate_frames poison mem self frame count =
     (let start_idx = unat (pa (frame_start frame) div FRAME_SIZE)
      in do { e \<leftarrow> us_add start_idx count;
              if total_frames self < e then Some (Inl InvalidFrame, self, mem)
              else do {
                (self', mem') \<leftarrow> release_frames poison mem self start_idx [0..<count];
                let hint_word = start_idx div BITS_PER_WORD;
                let self'' = (if hint_word < search_hint self' then self'\<lparr>search_hint := hint_word\<rparr>
                              else self');
                Some (Inr (), self'', mem') } })"

text \<open>
  The wrapper \<^verbatim>\<open>BitmapFrameAllocRef\<close>, which drops the result of a deallocation, and the global
  instance behind its lock: \<^verbatim>\<open>init\<close>, \<^verbatim>\<open>with\<close> and \<^verbatim>\<open>try_with\<close> (which fails when the lock is held).
\<close>

definition frame_alloc_ref_deallocate ::
  "bool \<Rightarrow> word_memory \<Rightarrow> bitmap_allocator \<Rightarrow> phys_frame \<Rightarrow>
   (bitmap_allocator \<times> word_memory) option" where
  "frame_alloc_ref_deallocate poison mem self frame =
     do { (_, self', mem') \<leftarrow> deallocate_frame poison mem self frame; Some (self', mem') }"

definition pmm_init ::
  "bitmap_allocator option \<Rightarrow> phys_memory_region list \<Rightarrow> virt_addr \<Rightarrow>
   bitmap_allocator option option" where
  "pmm_init pmm regions hhdm =
     do { r \<leftarrow> bitmap_allocator_new regions hhdm;
          (case r of Inl _ \<Rightarrow> None
           | Inr a \<Rightarrow> do { assert_that (pmm = None); Some (Some a) }) }"

definition pmm_with ::
  "bitmap_allocator option \<Rightarrow> (bitmap_allocator \<Rightarrow> ('r \<times> bitmap_allocator) option) \<Rightarrow>
   ('r \<times> bitmap_allocator option) option" where
  "pmm_with pmm f = do { a \<leftarrow> pmm; (r, a') \<leftarrow> f a; Some (r, Some a') }"

definition pmm_try_with ::
  "bool \<Rightarrow> bitmap_allocator option \<Rightarrow> (bitmap_allocator \<Rightarrow> ('r \<times> bitmap_allocator) option) \<Rightarrow>
   ('r option \<times> bitmap_allocator option) option" where
  "pmm_try_with locked pmm f =
     (if locked then Some (None, pmm)
      else case pmm of None \<Rightarrow> Some (None, None)
           | Some a \<Rightarrow> do { (r, a') \<leftarrow> f a; Some (Some r, Some a') })"


section \<open>Free frames and the invariant\<close>

definition frame_used :: "u64 list \<Rightarrow> nat \<Rightarrow> bool" where
  "frame_used bm i = bit (bm ! (i div 64)) (i mod 64)"

definition free_set :: "bitmap_allocator \<Rightarrow> nat set" where
  "free_set self = {i. i < total_frames self \<and> \<not> frame_used (bitmap self) i}"

definition frame_addr :: "nat \<Rightarrow> u64" where "frame_addr i = of_nat (i * 4096)"

definition frame_at :: "nat \<Rightarrow> phys_frame" where
  "frame_at i = PhysFrame (PhysAddr (frame_addr i))"

definition pmm_inv :: "bitmap_allocator \<Rightarrow> bool" where
  "pmm_inv self =
     (length (bitmap self) = (total_frames self + 63) div 64 \<and> total_frames self \<le> 2 ^ 40 \<and>
      free_count self = card (free_set self) \<and> search_hint self \<le> length (bitmap self))"

lemmas pmm_consts = FRAME_SIZE_def BITS_PER_WORD_def

lemma trailing_zeros_least:
  "trailing_zeros w < 64 \<and> bit w (trailing_zeros w) \<and> (\<forall>j < trailing_zeros w. \<not> bit w j)"
  if "w \<noteq> 0"
proof -
  let ?t = "trailing_zeros w"
  from that obtain n where n: "n < 64" "bit w n" by (auto simp: word_zero_iff)
  have le: "?t \<le> 64" unfolding trailing_zeros_def by (rule order_trans [OF length_takeWhile_le]) simp
  have z: "\<forall>j < ?t. \<not> bit w j"
  proof (intro allI impI)
    fix j assume j: "j < ?t"
    then have "takeWhile (\<lambda>i. \<not> bit w i) [0..<64] ! j = j"
      using le by (simp add: trailing_zeros_def takeWhile_nth)
    then show "\<not> bit w j"
      using j set_takeWhileD [OF nth_mem [of j "takeWhile (\<lambda>i. \<not> bit w i) [0..<64]"]]
      by (simp add: trailing_zeros_def)
  qed
  have lt: "?t < 64" using z n by (metis le le_neq_implies_less)
  then have "bit w ([0..<64] ! ?t)"
    unfolding trailing_zeros_def using nth_length_takeWhile [of "\<lambda>i. \<not> bit w i" "[0..<64]"] by simp
  then show ?thesis using z lt by simp
qed

lemma finite_free_set [simp]: "finite (free_set self)"
  by (simp add: free_set_def)

lemma frame_used_set:
  assumes "i div 64 < length bm"
  shows "frame_used (bm[i div 64 := bm ! (i div 64) OR push_bit (i mod 64) 1]) j
    \<longleftrightarrow> j = i \<or> frame_used bm j"
  using assms
  by (cases "j div 64 = i div 64")
     (auto simp: frame_used_def bit_or_exp dest: div_mod_inj)

lemma frame_used_clear:
  assumes "i div 64 < length bm"
  shows "frame_used (bm[i div 64 := bm ! (i div 64) AND NOT (push_bit (i mod 64) 1)]) j
    \<longleftrightarrow> j \<noteq> i \<and> frame_used bm j"
  using assms
  by (cases "j div 64 = i div 64")
     (auto simp: frame_used_def bit_and_not_exp dest: div_mod_inj)

lemma word_index_in_range:
  "length bm = (n + 63) div 64 \<Longrightarrow> i < n \<Longrightarrow> i div 64 < length bm" for i n :: nat
  by simp

lemma unat_frame_addr: "i < 2 ^ 40 \<Longrightarrow> unat (frame_addr i) = i * 4096"
  unfolding frame_addr_def by (rule unat_of_nat_lt) simp

lemma frame_address:
  assumes "i < 2 ^ 40"
  shows "chk_mul (of_nat i) FRAME_SIZE = Some (frame_addr i)"
    "phys_addr_new (frame_addr i) = Some (PhysAddr (frame_addr i))"
    "phys_frame_containing_address Size4KiB (PhysAddr (frame_addr i)) = Some (frame_at i)"
    "unat (pa (frame_start (frame_at i)) div FRAME_SIZE) = i"
proof -
  note u = unat_frame_addr [OF assms]
  have "unat (of_nat i :: u64) = i" using assms by (intro unat_of_nat_lt) simp
  then show "chk_mul (of_nat i) FRAME_SIZE = Some (frame_addr i)"
    by (simp add: chk_mul_Some_iff FRAME_SIZE_def u)
  show "phys_addr_new (frame_addr i) = Some (PhysAddr (frame_addr i))"
    using assms by (simp add: phys_addr_new_Some_iff u)
  have "frame_addr i AND NOT (mask 12) = frame_addr i"
    by (rule and_not_mask_aligned) (simp add: u)
  then show "phys_frame_containing_address Size4KiB (PhysAddr (frame_addr i)) = Some (frame_at i)"
    by (simp only: phys_frame_containing_address_eq page_shift.simps phys_addr.sel frame_at_def)
  show "unat (pa (frame_start (frame_at i)) div FRAME_SIZE) = i"
    by (simp add: frame_at_def unat_div_distrib u FRAME_SIZE_def)
qed

definition pages_intact :: "bool \<Rightarrow> word_memory \<Rightarrow> bitmap_allocator \<Rightarrow> bool" where
  "pages_intact poison mem self =
     (poison \<longrightarrow> (\<forall>i \<in> free_set self. check_page_poison self mem (PhysAddr (frame_addr i))))"

definition set_used :: "bitmap_allocator \<Rightarrow> nat \<Rightarrow> bitmap_allocator" where
  "set_used self i =
     self\<lparr>bitmap := (bitmap self)[i div 64 := bitmap self ! (i div 64) OR push_bit (i mod 64) 1]\<rparr>"

lemma free_set_set_used:
  "i div 64 < length (bitmap self) \<Longrightarrow> free_set (set_used self i) = free_set self - {i}"
  by (auto simp: free_set_def set_used_def frame_used_set simp del: push_bit_of_1)

lemma first_zero_bit:
  assumes "word = bm ! w" "word \<noteq> - 1" "k = w * 64 + trailing_zeros (NOT word)"
  shows "k div 64 = w" "k mod 64 = trailing_zeros (NOT word)" "\<not> frame_used bm k"
    "\<And>i. i div 64 = w \<Longrightarrow> i < k \<Longrightarrow> frame_used bm i"
proof -
  have "NOT word \<noteq> 0" using assms(2) by (metis bit.compl_zero bit.double_compl)
  note tz = trailing_zeros_least [OF this]
  show k: "k div 64 = w" "k mod 64 = trailing_zeros (NOT word)" using tz by (simp_all add: assms(3))
  show "\<not> frame_used bm k" using tz k by (simp add: frame_used_def assms(1) bit_not_iff)
  fix i assume i: "i div 64 = w" "i < k"
  then have "i mod 64 < trailing_zeros (NOT word)" using assms(3) div_mult_mod_eq [of i 64] by linarith
  then show "frame_used bm i" using tz i(1) by (simp add: frame_used_def assms(1) bit_not_iff)
qed

text \<open>The candidate of one word: its first clear bit, if that is a tracked frame.\<close>

definition word_candidate :: "bitmap_allocator \<Rightarrow> nat \<Rightarrow> nat option" where
  "word_candidate self w =
     (let word = bitmap self ! w; k = w * 64 + trailing_zeros (NOT word)
      in if word = - 1 \<or> total_frames self \<le> k then None else Some k)"

lemma word_candidate_None:
  assumes "word_candidate self w = None" "i \<in> free_set self" shows "i div 64 \<noteq> w"
proof
  assume w: "i div 64 = w"
  let ?word = "bitmap self ! w"
  from assms(2) have i: "i < total_frames self" "\<not> frame_used (bitmap self) i"
    by (simp_all add: free_set_def)
  have "?word \<noteq> - 1" using i(2) w by (auto simp: frame_used_def)
  then have "i < w * 64 + trailing_zeros (NOT ?word)" "?word \<noteq> - 1"
    using assms(1) i(1) by (auto simp: word_candidate_def Let_def split: if_splits)
  then show False using first_zero_bit(4) [of ?word "bitmap self" w, OF refl _ refl w] i(2) by simp
qed

lemma word_candidate_Some:
  assumes "word_candidate self w = Some k"
  shows "k \<in> free_set self" "k div 64 = w" "k mod 64 = trailing_zeros (NOT (bitmap self ! w))"
  using assms first_zero_bit [of "bitmap self ! w" "bitmap self" w k]
  by (auto simp: word_candidate_def Let_def free_set_def split: if_splits)

lemma word_index_bound: "pmm_inv self \<Longrightarrow> w < length (bitmap self) \<Longrightarrow> w * 64 + 64 < 2 ^ 64"
  using div_le_mono [of "total_frames self + 63" "2 ^ 40 + 63" 64] by (simp add: pmm_inv_def)

lemma trailing_zeros_le: "trailing_zeros w \<le> 64"
  unfolding trailing_zeros_def by (rule order_trans [OF length_takeWhile_le]) simp

lemma free_frame_bound: "pmm_inv self \<Longrightarrow> i \<in> free_set self \<Longrightarrow> i < 2 ^ 40"
  by (simp add: pmm_inv_def free_set_def)

lemma check_page_poison_upd [simp]:
  "check_page_poison (self\<lparr>bitmap := b, free_count := c, search_hint := h\<rparr>) mem p =
   check_page_poison self mem p"
  "check_page_poison (self\<lparr>bitmap := b\<rparr>) mem p = check_page_poison self mem p"
  by (simp_all add: check_page_poison_def)

lemma allocate_frame_loop_Cons:
  assumes inv: "pmm_inv self" and intact: "pages_intact poison mem self"
    and w: "w = (start + x) mod words" "w < length (bitmap self)" "start + x < 2 ^ 64"
  shows "allocate_frame_loop poison mem self start words (x # xs) =
    (case word_candidate self w of
       None \<Rightarrow> allocate_frame_loop poison mem self start words xs
     | Some k \<Rightarrow> Some (Some (frame_at k),
         (set_used self k)\<lparr>free_count := free_count self - 1, search_hint := k div 64\<rparr>))"
proof -
  let ?word = "bitmap self ! w"
  let ?k = "w * 64 + trailing_zeros (NOT ?word)"
  have step: "us_add start x = Some (start + x)" "idx (bitmap self) ((start + x) mod words) = Some ?word"
    "us_mul w 64 = Some (w * 64)" "us_add (w * 64) (trailing_zeros (NOT ?word)) = Some ?k"
    using w word_index_bound [OF inv w(2)] trailing_zeros_le [of "NOT ?word"] by auto
  show ?thesis
  proof (cases "word_candidate self w")
    case None
    then show ?thesis
      using step
      by (auto simp: w(1) [symmetric] word_candidate_def Let_def BITS_PER_WORD_def split: if_splits)
  next
    case (Some k)
    note k = word_candidate_Some [OF Some]
    from Some have eq: "?k = k" "?word \<noteq> - 1" "k < total_frames self"
      by (auto simp: word_candidate_def Let_def split: if_splits)
    have "us_sub (free_count self) 1 = Some (free_count self - 1)"
      using inv k(1) by (auto simp: pmm_inv_def Suc_le_eq card_gt_0_iff)
    then show ?thesis
      using step eq Some k intact w(2) frame_address [OF free_frame_bound [OF inv k(1)]]
      by (auto simp: w(1) [symmetric] BITS_PER_WORD_def pages_intact_def set_used_def)
  qed
qed

lemma allocate_frame_loop_correct:
  assumes inv: "pmm_inv self" and intact: "pages_intact poison mem self"
    and "words = length (bitmap self)" "start \<le> words" "set xs \<subseteq> {..<words}"
  shows "allocate_frame_loop poison mem self start words xs =
    (case List.find (\<lambda>x. word_candidate self ((start + x) mod words) \<noteq> None) xs of
       None \<Rightarrow> Some (None, self)
     | Some x \<Rightarrow> let k = the (word_candidate self ((start + x) mod words)) in
         Some (Some (frame_at k),
           (set_used self k)\<lparr>free_count := free_count self - 1, search_hint := k div 64\<rparr>))"
  using assms(5)
proof (induction xs)
  case (Cons x xs)
  have "(start + x) mod words < length (bitmap self)" "start + x < 2 ^ 64"
    using Cons.prems assms(3,4) inv by (auto simp: pmm_inv_def)
  then show ?case
    using Cons by (auto simp: allocate_frame_loop_Cons [OF inv intact refl] Let_def
        simp del: allocate_frame_loop.simps(2) split: option.splits)
qed simp


lemma pmm_inv_set_used:
  assumes inv: "pmm_inv self" and k: "k \<in> free_set self" and h: "h \<le> length (bitmap self)"
  shows "pmm_inv ((set_used self k)\<lparr>free_count := free_count self - 1, search_hint := h\<rparr>)"
    "free_set ((set_used self k)\<lparr>free_count := free_count self - 1, search_hint := h\<rparr>) =
     free_set self - {k}"
proof -
  have w: "k div 64 < length (bitmap self)"
    using inv k by (intro word_index_in_range [of _ "total_frames self"]) (simp_all add: pmm_inv_def free_set_def)
  show f: "free_set ((set_used self k)\<lparr>free_count := free_count self - 1, search_hint := h\<rparr>) =
     free_set self - {k}"
    using free_set_set_used [OF w] by (simp add: free_set_def set_used_def)
  show "pmm_inv ((set_used self k)\<lparr>free_count := free_count self - 1, search_hint := h\<rparr>)"
    using inv k w f h unfolding pmm_inv_def by (simp add: set_used_def)
qed

lemma rotation_covers:
  fixes w words start :: nat
  assumes "w < words" shows "\<exists>x < words. (start + x) mod words = w"
proof -
  have "(start + (w + (words - start mod words)) mod words) mod words =
      (start mod words + (w + (words - start mod words))) mod words"
    by (simp add: mod_add_eq mod_add_left_eq mod_add_right_eq)
  also have "start mod words + (w + (words - start mod words)) = w + words"
    using assms mod_less_divisor [of words start] by linarith
  finally show ?thesis using assms by (intro exI [of _ "(w + (words - start mod words)) mod words"]) simp
qed

lemma allocate_frame_spec:
  assumes inv: "pmm_inv self" and intact: "pages_intact poison mem self"
  shows "if free_set self = {} then allocate_frame poison mem self = Some (None, self)
    else \<exists>i \<in> free_set self. allocate_frame poison mem self = Some (Some (frame_at i),
      (set_used self i)\<lparr>free_count := free_count self - 1, search_hint := i div 64\<rparr>)"
proof (cases "free_set self = {}")
  case True
  then show ?thesis using inv by (simp add: allocate_frame_def pmm_inv_def)
next
  case False
  let ?words = "length (bitmap self)"
  let ?c = "\<lambda>x. word_candidate self ((search_hint self + x) mod ?words)"
  have count: "free_count self \<noteq> 0" and hint: "search_hint self \<le> ?words"
    using False inv by (simp_all add: pmm_inv_def)
  have "\<exists>x < ?words. ?c x \<noteq> None"
  proof -
    from False obtain i where i: "i \<in> free_set self" by blast
    then have "i div 64 < ?words"
      using inv by (intro word_index_in_range [of _ "total_frames self"]) (simp_all add: pmm_inv_def free_set_def)
    from rotation_covers [OF this] show ?thesis by (metis i word_candidate_None)
  qed
  then have "List.find (\<lambda>x. ?c x \<noteq> None) [0..<?words] \<noteq> None" by (auto simp: find_None_iff)
  then obtain x where x: "List.find (\<lambda>x. ?c x \<noteq> None) [0..<?words] = Some x" by blast
  then have "?c x \<noteq> None" by (auto simp: find_Some_iff)
  then obtain k where k: "?c x = Some k" by auto
  have "allocate_frame poison mem self = Some (Some (frame_at k),
      (set_used self k)\<lparr>free_count := free_count self - 1, search_hint := k div 64\<rparr>)"
    unfolding allocate_frame_def
    using count x k hint
    by (simp add: allocate_frame_loop_correct [OF inv intact refl] subset_eq Let_def)
  then show ?thesis using False word_candidate_Some(1) [OF k] by auto
qed


section \<open>Contiguous allocation\<close>

text \<open>
  The scan of \<^verbatim>\<open>allocate_frames\<close> against its bit-level meaning. \<open>run_state free count m rs rl\<close> says
  what the loop knows after the frames below \<open>m\<close>: \<open>rl\<close> is the length of the maximal free run that
  ends at \<open>m\<close>, \<open>rs\<close> is where it starts, and no run of \<open>count\<close> frames ends at or below \<open>m\<close>.
  \<open>first_fit\<close> is the promise of the search: the lowest run of \<open>count\<close> free frames.
\<close>

definition run_free :: "(nat \<Rightarrow> bool) \<Rightarrow> nat \<Rightarrow> nat \<Rightarrow> bool" where
  "run_free free s count = (\<forall>j \<in> {s..<s + count}. free j)"

definition first_fit :: "(nat \<Rightarrow> bool) \<Rightarrow> nat \<Rightarrow> nat \<Rightarrow> bool" where
  "first_fit free count s = (run_free free s count \<and> (\<forall>s' < s. \<not> run_free free s' count))"

definition run_state :: "(nat \<Rightarrow> bool) \<Rightarrow> nat \<Rightarrow> nat \<Rightarrow> nat \<Rightarrow> nat \<Rightarrow> bool" where
  "run_state free count m rs rl =
     (rl \<le> m \<and> run_free free (m - rl) rl \<and> (rl < m \<longrightarrow> \<not> free (m - rl - 1)) \<and>
      (0 < rl \<longrightarrow> rs = m - rl) \<and> (\<forall>s. s + count \<le> m \<longrightarrow> \<not> run_free free s count))"

lemma run_state_0: "0 < count \<Longrightarrow> run_state free count 0 rs 0"
  by (simp add: run_state_def run_free_def)

lemma run_state_used:
  assumes "run_state free count m rs rl" "0 < count" "m < m'" "\<forall>j \<in> {m..<m'}. \<not> free j"
  shows "run_state free count m' rs' 0"
proof -
  have "\<not> run_free free s count" if "s + count \<le> m'" for s
  proof (cases "s + count \<le> m")
    case True
    then show ?thesis using assms(1) by (simp add: run_state_def)
  next
    case False
    then have "s + count - 1 \<in> {m..<m'}" "s + count - 1 \<in> {s..<s + count}" using that assms(2) by auto
    then show ?thesis using assms(4) unfolding run_free_def by blast
  qed
  then show ?thesis using assms(3,4) by (auto simp: run_state_def run_free_def)
qed

lemma run_state_extend:
  assumes st: "run_state free count m rs rl" and k: "0 < k" "\<forall>j \<in> {m..<m + k}. free j"
    and rs': "rs' = (if rl = 0 then m else rs)"
  shows "if count \<le> rl + k then first_fit free count rs' \<and> rs' + count \<le> m + k
    else run_state free count (m + k) rs' (rl + k)"
proof -
  have start: "rs' = m - rl" "rl \<le> m" using st rs' by (auto simp: run_state_def)
  have all: "run_free free (m - rl) (rl + k)"
    using st k start unfolding run_state_def run_free_def by (metis Diff_iff Nat.add_diff_assoc2
      add.assoc atLeastLessThan_iff le_add_diff_inverse2 le_less_linear)
  have before: "\<not> run_free free s count" if s: "s < m - rl" "count \<le> rl + k \<or> s + count \<le> m + k" for s
  proof (cases "s + count \<le> m")
    case True
    then show ?thesis using st by (simp add: run_state_def)
  next
    case False
    then have "m - rl - 1 \<in> {s..<s + count}" "rl < m" using s(1) by auto
    then show ?thesis using st unfolding run_state_def run_free_def by blast
  qed
  show ?thesis
  proof (cases "count \<le> rl + k")
    case True
    then have "run_free free (m - rl) count" using all by (simp add: run_free_def)
    then show ?thesis using True before start by (simp add: first_fit_def)
  next
    case False
    have "\<not> run_free free s count" if "s + count \<le> m + k" for s
      using that False start before [of s] by (cases "s < m - rl") auto
    then show ?thesis using False all st start by (auto simp: run_state_def)
  qed
qed


lemma scan_bits_correct:
  assumes word: "\<forall>i < 64. bit word i = (\<not> free (w * 64 + i))" and w: "w * 64 + 64 < 2 ^ 64"
    and "b \<le> 64" "w * 64 + b \<le> n" "run_state free count (w * 64 + b) rs rl" "rl < count"
  shows "\<exists>rs' rl'. scan_bits n count w word [b..<64] rs rl = Some (rs', rl') \<and>
    (if count \<le> rl' then first_fit free count rs' \<and> rs' + count \<le> n
     else run_state free count (min (w * 64 + 64) n) rs' rl')"
  using assms(3-)
proof (induction "64 - b" arbitrary: b rs rl)
  case 0
  then show ?case by (simp add: min_def)
next
  case (Suc d)
  then have b: "b < 64" and upt: "[b..<64] = b # [Suc b..<64]" by (simp_all add: upt_conv_Cons)
  have ops: "us_mul w 64 = Some (w * 64)" "us_add (w * 64) b = Some (w * 64 + b)"
    "us_add (w * 64 + b) 1 = Some (w * 64 + b + 1)"
    using w b by simp_all
  have rl: "us_add rl 1 = Some (rl + 1)"
    using Suc.prems(3) w b by (simp add: run_state_def)
  note IH = Suc.hyps(1) [of "Suc b"]
  consider "n \<le> w * 64 + b" | (used) "w * 64 + b < n" "bit word b" | (free) "w * 64 + b < n" "\<not> bit word b"
    by linarith
  then show ?case
  proof cases
    case 1
    then show ?thesis using Suc.prems b ops unfolding upt
      by (simp add: BITS_PER_WORD_def min_def)
  next
    case used
    have "run_state free count (w * 64 + Suc b) (w * 64 + b + 1) 0"
      using used word b Suc.prems
      by (intro run_state_used [OF Suc.prems(3)]) (auto simp: less_Suc_eq)
    then show ?thesis
      using IH [of "w * 64 + b + 1" 0] used Suc ops unfolding upt
      by (simp add: BITS_PER_WORD_def and_exp_eq_0_iff_not_bit)
  next
    case free
    let ?rs = "if rl = 0 then w * 64 + b else rs"
    have ext: "if count \<le> rl + 1 then first_fit free count ?rs \<and> ?rs + count \<le> w * 64 + b + 1
      else run_state free count (w * 64 + b + 1) ?rs (rl + 1)"
      using free word b by (intro run_state_extend [OF Suc.prems(3)]) auto
    show ?thesis
    proof (cases "count \<le> rl + 1")
      case True
      then show ?thesis using ext free ops rl unfolding upt
        by (simp add: BITS_PER_WORD_def and_exp_eq_0_iff_not_bit Let_def)
    next
      case False
      then show ?thesis using ext free ops rl IH [of ?rs "rl + 1"] Suc unfolding upt
        by (simp add: BITS_PER_WORD_def and_exp_eq_0_iff_not_bit Let_def)
    qed
  qed
qed


declare scan_run.simps [simp del]

abbreviation is_free :: "bitmap_allocator \<Rightarrow> nat \<Rightarrow> bool" where
  "is_free self i \<equiv> \<not> frame_used (bitmap self) i"

definition scan_result :: "bitmap_allocator \<Rightarrow> nat \<Rightarrow> nat \<times> nat \<Rightarrow> bool" where
  "scan_result self count r =
     (case r of (rs, rl) \<Rightarrow>
        if count \<le> rl then first_fit (is_free self) count rs \<and> rs + count \<le> total_frames self
        else \<forall>s. s + count \<le> total_frames self \<longrightarrow> \<not> run_free (is_free self) s count)"

lemma frame_used_word:
  "k < 64 \<Longrightarrow> frame_used bm (w * 64 + k) = bit (bm ! w) k"
  by (simp add: frame_used_def)

lemma scan_run_correct:
  assumes inv: "pmm_inv self" and count: "0 < count"
    and "64 dvd fi" "run_state (is_free self) count (min fi (total_frames self)) rs rl" "rl < count"
  shows "\<exists>r. scan_run self count fi rs rl = Some r \<and> scan_result self count r"
  using assms(3-)
proof (induction "total_frames self - fi" arbitrary: fi rs rl rule: less_induct)
  case less
  let ?n = "total_frames self"
  show ?case
  proof (cases "fi < ?n")
    case False
    then show ?thesis using less.prems by (auto simp: scan_run.simps scan_result_def run_state_def)
  next
    case True
    define w where "w = fi div 64"
    have fi: "fi = w * 64" using less.prems(1) by (simp add: w_def)
    have wl: "w < length (bitmap self)"
      unfolding w_def using inv True by (intro word_index_in_range [of _ ?n]) (simp_all add: pmm_inv_def)
    note wb = word_index_bound [OF inv wl]
    let ?word = "bitmap self ! w" and ?m = "min (w * 64 + 64) ?n"
    have st: "run_state (is_free self) count (w * 64) rs rl" and rl: "rl \<le> w * 64"
      using less.prems(2) True by (auto simp: fi run_state_def)
    have ops: "us_add w 1 = Some (w + 1)" "us_mul (w + 1) 64 = Some (64 + w * 64)"
      "us_mul w 64 = Some (w * 64)" "idx (bitmap self) w = Some ?word"
      using wb wl by simp_all
    have IH: "\<exists>r. scan_run self count (64 + w * 64) rs' rl' = Some r \<and> scan_result self count r"
      if "run_state (is_free self) count ?m rs' rl'" "rl' < count" for rs' rl'
      using True that by (intro less.hyps) (auto simp: fi add.commute)
    have bits: "\<forall>i < 64. bit ?word i = (\<not> is_free self (w * 64 + i))"
      by (simp add: frame_used_word)
    have in_word: "frame_used (bitmap self) j = bit ?word (j - w * 64)" if "w * 64 \<le> j" "j < w * 64 + 64" for j
      using that frame_used_word [of "j - w * 64" "bitmap self" w] by simp
    consider (full) "?word = - 1" | (empty) "?word = 0" | (part) "?word \<noteq> - 1" "?word \<noteq> 0" by blast
    then show ?thesis
    proof cases
      case full
      have "run_state (is_free self) count ?m (64 + w * 64) 0"
        using True full in_word count
        by (intro run_state_used [OF st]) (auto simp: fi)
      from IH [OF this count] show ?thesis
        by (subst scan_run.simps) (use True full ops in \<open>simp add: fi BITS_PER_WORD_def\<close>)
    next
      case empty
      let ?k = "min 64 (?n - w * 64)" and ?rs = "if rl = 0 then w * 64 else rs"
      have m: "w * 64 + ?k = ?m" "0 < ?k" using True by (auto simp: fi)
      have ext: "if count \<le> rl + ?k then first_fit (is_free self) count ?rs \<and> ?rs + count \<le> w * 64 + ?k
        else run_state (is_free self) count (w * 64 + ?k) ?rs (rl + ?k)"
        using empty in_word m by (intro run_state_extend [OF st]) auto
      have "rl + ?k < 2 ^ 64" using rl wb by simp
      then have "scan_run self count fi rs rl =
          (if count \<le> rl + ?k then Some (?rs, rl + ?k) else scan_run self count (64 + w * 64) ?rs (rl + ?k))"
        by (subst scan_run.simps) (use True empty ops in \<open>simp add: fi BITS_PER_WORD_def Let_def\<close>)
      then show ?thesis
        using ext m IH [of ?rs "rl + ?k"]
        by (cases "count \<le> rl + ?k") (auto simp: scan_result_def simp del: min.bounded_iff)
    next
      case part
      from scan_bits_correct [OF bits wb, of 0 ?n count rs rl] st True less.prems(3) obtain rs' rl' where
        r: "scan_bits ?n count w ?word [0..<64] rs rl = Some (rs', rl')"
          "if count \<le> rl' then first_fit (is_free self) count rs' \<and> rs' + count \<le> ?n
           else run_state (is_free self) count ?m rs' rl'"
        by (auto simp: fi)
      have "scan_run self count fi rs rl =
          (if count \<le> rl' then Some (rs', rl') else scan_run self count (64 + w * 64) rs' rl')"
        by (subst scan_run.simps) (use True part ops r(1) in \<open>simp add: fi BITS_PER_WORD_def Let_def\<close>)
      then show ?thesis
        using r(2) IH [of rs' rl'] by (cases "count \<le> rl'") (auto simp: scan_result_def)
    qed
  qed
qed


section \<open>Marking and releasing frames\<close>

definition set_free :: "bitmap_allocator \<Rightarrow> nat \<Rightarrow> bitmap_allocator" where
  "set_free self i =
     self\<lparr>bitmap := (bitmap self)[i div 64 := bitmap self ! (i div 64) AND NOT (push_bit (i mod 64) 1)],
          free_count := free_count self + 1\<rparr>"

lemma set_used_simps [simp]:
  "total_frames (set_used self i) = total_frames self" "free_count (set_used self i) = free_count self"
  "search_hint (set_used self i) = search_hint self" "hhdm_offset (set_used self i) = hhdm_offset self"
  "length (bitmap (set_used self i)) = length (bitmap self)"
  "check_page_poison (set_used self i) mem p = check_page_poison self mem p"
  by (simp_all add: set_used_def)

lemma set_free_simps [simp]:
  "total_frames (set_free self i) = total_frames self" "free_count (set_free self i) = Suc (free_count self)"
  "search_hint (set_free self i) = search_hint self" "hhdm_offset (set_free self i) = hhdm_offset self"
  "length (bitmap (set_free self i)) = length (bitmap self)"
  by (simp_all add: set_free_def)

lemma free_set_set_free:
  "i div 64 < length (bitmap self) \<Longrightarrow> i < total_frames self \<Longrightarrow>
   free_set (set_free self i) = insert i (free_set self)"
  by (auto simp: free_set_def set_free_def frame_used_clear simp del: push_bit_of_1)

text \<open>The layout part of the invariant, which the marking loops keep while the count is in flux.\<close>

definition pmm_layout :: "bitmap_allocator \<Rightarrow> bool" where
  "pmm_layout self =
     (length (bitmap self) = (total_frames self + 63) div 64 \<and> total_frames self \<le> 2 ^ 40)"

lemma pmm_inv_layout: "pmm_inv self \<Longrightarrow> pmm_layout self"
  by (simp add: pmm_inv_def pmm_layout_def)

lemma pmm_layout_index: "pmm_layout self \<Longrightarrow> i < total_frames self \<Longrightarrow> i div 64 < length (bitmap self)"
  by (auto simp: pmm_layout_def intro: word_index_in_range)

lemma pmm_layout_upd [simp]:
  "pmm_layout (set_used self i) = pmm_layout self" "pmm_layout (set_free self i) = pmm_layout self"
  by (simp_all add: pmm_layout_def)

lemma mark_frames_eq:
  assumes "pmm_layout self" "\<forall>i \<in> set is. rs + i < total_frames self"
    "poison \<longrightarrow> (\<forall>i \<in> set is. check_page_poison self mem (PhysAddr (frame_addr (rs + i))))"
  shows "mark_frames poison mem self rs is = Some (fold (\<lambda>i s. set_used s (rs + i)) is self)"
  using assms
proof (induction "is" arbitrary: self)
  case (Cons i "is")
  have b: "rs + i < 2 ^ 40" "(rs + i) div 64 < length (bitmap self)"
    using Cons.prems by (auto simp: pmm_layout_def pmm_layout_index)
  have "mark_frames poison mem self rs (i # is) = mark_frames poison mem (set_used self (rs + i)) rs is"
    using Cons.prems(3) b frame_address [OF b(1)]
    by (simp add: BITS_PER_WORD_def Let_def set_used_def)
  then show ?case using Cons by simp
qed simp

lemma fold_set_used:
  assumes "pmm_layout self" "\<forall>i \<in> set is. rs + i < total_frames self"
  shows "pmm_layout (fold (\<lambda>i s. set_used s (rs + i)) is self)"
    "free_set (fold (\<lambda>i s. set_used s (rs + i)) is self) = free_set self - (+) rs ` set is"
    "total_frames (fold (\<lambda>i s. set_used s (rs + i)) is self) = total_frames self"
    "free_count (fold (\<lambda>i s. set_used s (rs + i)) is self) = free_count self"
    "hhdm_offset (fold (\<lambda>i s. set_used s (rs + i)) is self) = hhdm_offset self"
  using assms
  by (induction "is" arbitrary: self) (auto simp: free_set_set_used pmm_layout_index)

text \<open>
  C7: \<^verbatim>\<open>allocate_frames\<close> with a count of two or more is first fit. Its word-at-a-time scan returns the
  lowest run of \<open>count\<close> consecutive free frames, marks exactly that run and keeps the invariant; it
  returns \<^const>\<open>None\<close>, changing nothing, exactly when no such run exists.
\<close>

theorem allocate_frames_first_fit:
  assumes inv: "pmm_inv self" and intact: "pages_intact poison mem self" and count: "2 \<le> count"
  shows "if \<exists>s. s + count \<le> total_frames self \<and> run_free (is_free self) s count
    then \<exists>s self'. allocate_frames poison mem self count = Some (Some (frame_at s), self') \<and>
      first_fit (is_free self) count s \<and> {s..<s + count} \<subseteq> free_set self \<and> pmm_inv self' \<and>
      free_set self' = free_set self - {s..<s + count} \<and> hhdm_offset self' = hhdm_offset self \<and>
      total_frames self' = total_frames self
    else allocate_frames poison mem self count = Some (None, self)"
proof -
  let ?n = "total_frames self"
  have sub: "{s..<s + count} \<subseteq> free_set self" if "s + count \<le> ?n" "run_free (is_free self) s count" for s
    using that by (auto simp: free_set_def run_free_def)
  have enough: "count \<le> free_count self" if "s + count \<le> ?n" "run_free (is_free self) s count" for s
    using card_mono [OF finite_free_set sub [OF that]] inv by (simp add: pmm_inv_def)
  from scan_run_correct [OF inv, of count 0 0 0] count obtain rs rl where
    r: "scan_run self count 0 0 0 = Some (rs, rl)" "scan_result self count (rs, rl)"
    by (auto simp: run_state_0)
  show ?thesis
  proof (cases "count \<le> rl")
    case False
    then have "\<not> (\<exists>s. s + count \<le> ?n \<and> run_free (is_free self) s count)"
      using r(2) by (simp add: scan_result_def)
    moreover have "allocate_frames poison mem self count = Some (None, self)"
      using False r(1) count by (simp add: allocate_frames_def)
    ultimately show ?thesis by simp
  next
    case True
    then have fit: "first_fit (is_free self) count rs" and end_le: "rs + count \<le> ?n"
      using r(2) by (simp_all add: scan_result_def)
    then have run: "run_free (is_free self) rs count" by (simp add: first_fit_def)
    note free = sub [OF end_le run] and fc = enough [OF end_le run]
    let ?self = "fold (\<lambda>i s. set_used s (rs + i)) [0..<count] self"
    have range: "\<forall>i \<in> set [0..<count]. rs + i < ?n" using end_le by auto
    note lay = pmm_inv_layout [OF inv]
    have mark: "mark_frames poison mem self rs [0..<count] = Some ?self"
      using free intact by (intro mark_frames_eq [OF lay range]) (auto simp: pages_intact_def subset_eq)
    note f = fold_set_used [OF lay range]
    have img: "(+) rs ` set [0..<count] = {rs..<rs + count}" by (simp add: add.commute)
    let ?new = "?self\<lparr>free_count := free_count self - count, search_hint := (rs + count) div 64\<rparr>"
    have b: "rs < 2 ^ 40" "rs + count < 2 ^ 64" using end_le lay count by (auto simp: pmm_layout_def)
    have "allocate_frames poison mem self count = Some (Some (frame_at rs), ?new)"
      using r(1) True count fc mark f(4) b frame_address [OF b(1)]
      by (simp add: allocate_frames_def BITS_PER_WORD_def)
    moreover have fs: "free_set ?new = free_set self - {rs..<rs + count}"
      using f(2) unfolding img by (simp add: free_set_def)
    moreover have "pmm_inv ?new"
    proof -
      have "card (free_set self - {rs..<rs + count}) = free_count self - count"
        using free inv by (simp add: card_Diff_subset pmm_inv_def)
      moreover have "(rs + count) div 64 \<le> (?n + 63) div 64" using end_le by (intro div_le_mono) simp
      ultimately show ?thesis using f fs by (simp add: pmm_inv_def pmm_layout_def)
    qed
    ultimately show ?thesis using fit free end_le run f(3,5) by auto
  qed
qed


section \<open>Deallocation and poisoning\<close>

definition frame_index :: "phys_frame \<Rightarrow> nat" where
  "frame_index f = unat (pa (frame_start f)) div 4096"

lemma frame_index_div: "unat (pa (frame_start f) div FRAME_SIZE) = frame_index f"
  by (simp add: frame_index_def FRAME_SIZE_def unat_div_distrib)

lemma frame_index_frame_at [simp]: "i < 2 ^ 40 \<Longrightarrow> frame_index (frame_at i) = i"
  using frame_address(4) [of i] by (simp add: frame_index_div)

lemma deallocate_frame_invalid:
  "total_frames self \<le> frame_index f \<Longrightarrow>
   deallocate_frame poison mem self f = Some (Inl InvalidFrame, self, mem)"
  by (simp add: deallocate_frame_def frame_index_div)

lemma deallocate_frame_double:
  assumes "pmm_inv self" "frame_index f \<in> free_set self"
  shows "deallocate_frame poison mem self f = None"
proof -
  have "frame_index f < total_frames self" "\<not> bit (bitmap self ! (frame_index f div 64)) (frame_index f mod 64)"
    using assms(2) by (simp_all add: free_set_def frame_used_def)
  then show ?thesis
    using pmm_layout_index [OF pmm_inv_layout [OF assms(1)]]
    by (simp add: deallocate_frame_def frame_index_div BITS_PER_WORD_def Let_def
        and_exp_eq_0_iff_not_bit)
qed

definition lower_hint :: "bitmap_allocator \<Rightarrow> nat \<Rightarrow> bitmap_allocator" where
  "lower_hint self w = (if w < search_hint self then self\<lparr>search_hint := w\<rparr> else self)"

lemma lower_hint_simps [simp]:
  "total_frames (lower_hint self w) = total_frames self" "free_count (lower_hint self w) = free_count self"
  "hhdm_offset (lower_hint self w) = hhdm_offset self" "bitmap (lower_hint self w) = bitmap self"
  "search_hint (lower_hint self w) \<le> search_hint self"
  by (simp_all add: lower_hint_def)

lemma free_set_lower_hint [simp]: "free_set (lower_hint self w) = free_set self"
  by (simp add: free_set_def)

lemma pmm_inv_lower_hint: "pmm_inv self \<Longrightarrow> pmm_inv (lower_hint self w)"
  by (auto simp: pmm_inv_def lower_hint_def free_set_def)

lemma poison_page_cong:
  "hhdm_offset s1 = hhdm_offset s2 \<Longrightarrow> poison_page s1 p mem = poison_page s2 p mem"
  by (simp add: poison_page_def)

lemma free_count_bound:
  assumes "pmm_inv self" shows "free_count self + 1 < 2 ^ 64"
proof -
  have "card (free_set self) \<le> card {..<total_frames self}"
    by (rule card_mono) (auto simp: free_set_def)
  then show ?thesis using assms by (simp add: pmm_inv_def)
qed

lemma deallocate_frame_eq:
  assumes inv: "pmm_inv self" and f: "frame_index f < total_frames self" "frame_index f \<notin> free_set self"
  shows "deallocate_frame poison mem self f =
    Some (Inr (), lower_hint (set_free self (frame_index f)) (frame_index f div 64),
      if poison then poison_page self (frame_start f) mem else mem)"
proof -
  note free_count_bound [OF inv]
  moreover have "bit (bitmap self ! (frame_index f div 64)) (frame_index f mod 64)"
    using f by (simp add: free_set_def frame_used_def)
  ultimately show ?thesis
    using pmm_layout_index [OF pmm_inv_layout [OF inv] f(1)] f(1)
    by (auto simp: deallocate_frame_def frame_index_div BITS_PER_WORD_def Let_def
        and_exp_eq_0_iff_not_bit set_free_def lower_hint_def poison_page_def)
qed

lemma pmm_inv_set_free:
  assumes inv: "pmm_inv self" and i: "i < total_frames self" "i \<notin> free_set self"
  shows "pmm_inv (lower_hint (set_free self i) w)"
    "free_set (lower_hint (set_free self i) w) = insert i (free_set self)"
proof -
  show f: "free_set (lower_hint (set_free self i) w) = insert i (free_set self)"
    using pmm_layout_index [OF pmm_inv_layout [OF inv] i(1)] i(1) by (simp add: free_set_set_free)
  show "pmm_inv (lower_hint (set_free self i) w)"
    using inv i(2) lower_hint_simps(5) [of "set_free self i" w] f by (simp add: pmm_inv_def del: free_set_lower_hint)
qed

lemma deallocate_frame_spec:
  assumes inv: "pmm_inv self" and f: "frame_index f < total_frames self" "frame_index f \<notin> free_set self"
  shows "\<exists>self'. deallocate_frame poison mem self f =
      Some (Inr (), self', if poison then poison_page self (frame_start f) mem else mem) \<and>
    pmm_inv self' \<and> free_set self' = insert (frame_index f) (free_set self) \<and>
    total_frames self' = total_frames self \<and> hhdm_offset self' = hhdm_offset self"
  using deallocate_frame_eq [OF assms, of poison mem]
    pmm_inv_set_free [OF assms, of "frame_index f div 64"] by simp


lemma pmm_inv_set_free_only:
  assumes "pmm_inv self" "i < total_frames self" "i \<notin> free_set self"
  shows "pmm_inv (set_free self i)" "free_set (set_free self i) = insert i (free_set self)"
  using pmm_inv_set_free [OF assms, of "search_hint self"] by (simp_all add: lower_hint_def)

lemma release_frames_Cons:
  assumes inv: "pmm_inv self" and i: "s + i < total_frames self" "s + i \<notin> free_set self"
  shows "release_frames poison mem self s (i # is) =
    release_frames poison (if poison then poison_page self (PhysAddr (frame_addr (s + i))) mem else mem)
      (set_free self (s + i)) s is"
proof -
  have b: "s + i < 2 ^ 40" using i(1) inv by (simp add: pmm_inv_def)
  have "bit (bitmap self ! ((s + i) div 64)) ((s + i) mod 64)"
    using i by (simp add: free_set_def frame_used_def)
  then show ?thesis
    using frame_address [OF b] pmm_layout_index [OF pmm_inv_layout [OF inv] i(1)] b free_count_bound [OF inv]
    by (simp add: BITS_PER_WORD_def Let_def and_exp_eq_0_iff_not_bit set_free_def poison_page_def)
qed

lemma release_frames_spec:
  assumes "pmm_inv self" "distinct is" "\<forall>i \<in> set is. s + i < total_frames self \<and> s + i \<notin> free_set self"
  shows "\<exists>self'. release_frames poison mem self s is =
      Some (self', if poison then fold (\<lambda>i. poison_page self (PhysAddr (frame_addr (s + i)))) is mem else mem) \<and>
    pmm_inv self' \<and> free_set self' = free_set self \<union> (+) s ` set is \<and>
    total_frames self' = total_frames self \<and> hhdm_offset self' = hhdm_offset self"
  using assms
proof (induction "is" arbitrary: self mem)
  case (Cons i "is")
  have i: "s + i < total_frames self" "s + i \<notin> free_set self" using Cons.prems(3) by auto
  note inv' = pmm_inv_set_free_only [OF Cons.prems(1) i]
  have pre: "distinct is"
    "\<forall>k \<in> set is. s + k < total_frames (set_free self (s + i)) \<and> s + k \<notin> free_set (set_free self (s + i))"
    using Cons.prems inv'(2) by auto
  have "poison_page (set_free self (s + i)) = poison_page self"
    by (intro ext) (simp add: poison_page_def)
  then show ?case
    using Cons.IH [OF inv'(1) pre] inv'(2)
    by (cases poison) (simp_all add: release_frames_Cons [OF Cons.prems(1) i] del: release_frames.simps)
qed simp

lemma release_frames_double:
  assumes "pmm_inv self" "distinct is" "\<forall>i \<in> set is. s + i < total_frames self"
    "\<exists>i \<in> set is. s + i \<in> free_set self"
  shows "release_frames poison mem self s is = None"
  using assms
proof (induction "is" arbitrary: self mem)
  case (Cons i "is")
  let ?f = "s + i"
  have lt: "?f < total_frames self" "?f div 64 < length (bitmap self)"
    using Cons.prems(3) pmm_layout_index [OF pmm_inv_layout [OF Cons.prems(1)]] by auto
  show ?case
  proof (cases "?f \<in> free_set self")
    case True
    then show ?thesis
      using lt by (auto simp: BITS_PER_WORD_def Let_def and_exp_eq_0_iff_not_bit free_set_def
          frame_used_def Option.bind_eq_None_conv)
  next
    case False
    note inv' = pmm_inv_set_free_only [OF Cons.prems(1) lt(1) False]
    show ?thesis
      unfolding release_frames_Cons [OF Cons.prems(1) lt(1) False]
      using Cons.prems False inv' by (intro Cons.IH) auto
  qed
qed simp

lemma deallocate_frames_spec:
  assumes inv: "pmm_inv self" and range: "frame_index f + count \<le> total_frames self"
    and used: "{frame_index f..<frame_index f + count} \<inter> free_set self = {}"
  shows "\<exists>self' mem'. deallocate_frames poison mem self f count = Some (Inr (), self', mem') \<and>
    pmm_inv self' \<and> free_set self' = free_set self \<union> {frame_index f..<frame_index f + count} \<and>
    total_frames self' = total_frames self"
proof -
  let ?s = "frame_index f"
  have d: "\<forall>i \<in> set [0..<count]. ?s + i < total_frames self \<and> ?s + i \<notin> free_set self"
    using range used by (auto simp: disjoint_iff)
  have b: "?s + count < 2 ^ 64" using range inv by (simp add: pmm_inv_def)
  from release_frames_spec [OF inv distinct_upt d, of poison mem] obtain self' mem' where
    r: "release_frames poison mem self ?s [0..<count] = Some (self', mem')" "pmm_inv self'"
      "free_set self' = free_set self \<union> (+) ?s ` {0..<count}" "total_frames self' = total_frames self"
    by auto
  have "deallocate_frames poison mem self f count = Some (Inr (), lower_hint self' (?s div 64), mem')"
    using r(1) b range by (simp add: deallocate_frames_def frame_index_div BITS_PER_WORD_def lower_hint_def Let_def)
  moreover have "pmm_inv (lower_hint self' (?s div 64))" using r(2) by (rule pmm_inv_lower_hint)
  ultimately show ?thesis using r(3,4) by (simp add: add.commute)
qed

lemma deallocate_frames_double:
  assumes inv: "pmm_inv self" and range: "frame_index f + count \<le> total_frames self"
    and free: "{frame_index f..<frame_index f + count} \<inter> free_set self \<noteq> {}"
  shows "deallocate_frames poison mem self f count = None"
proof -
  from free obtain j where "j \<in> free_set self" "frame_index f \<le> j" "j < frame_index f + count" by auto
  then have "release_frames poison mem self (frame_index f) [0..<count] = None"
    using range by (intro release_frames_double [OF inv]) (auto intro!: bexI [of _ "j - frame_index f"])
  then show ?thesis using range inv
    by (auto simp: deallocate_frames_def frame_index_div Let_def pmm_inv_def Option.bind_eq_None_conv)
qed


text \<open>
  The direct map: \<open>hhdm_ok\<close> says that every tracked frame has its page in the higher half, without
  wrapping. Then poisoning one page does not touch another.
\<close>

definition hhdm_ok :: "bitmap_allocator \<Rightarrow> bool" where
  "hhdm_ok self =
     (2 ^ 64 - 2 ^ 47 \<le> unat (va (hhdm_offset self)) \<and>
      unat (va (hhdm_offset self)) + total_frames self * 4096 \<le> 2 ^ 64)"

definition page_word :: "bitmap_allocator \<Rightarrow> nat \<Rightarrow> nat \<Rightarrow> u64" where
  "page_word self i k = va (virt_addr_add (hhdm_offset self) (frame_addr i)) + of_nat (4 * k)"

lemma unat_page_word:
  assumes ok: "hhdm_ok self" "total_frames self \<le> 2 ^ 40" and i: "i < total_frames self" "k < 1024"
  shows "unat (page_word self i k) = unat (va (hhdm_offset self)) + (i * 1024 + k) * 4"
proof -
  let ?h = "va (hhdm_offset self)"
  have le: "(i + 1) * 4096 \<le> total_frames self * 4096" using i(1) by (intro mult_le_mono) simp_all
  then have lt: "unat ?h + i * 4096 + 4096 \<le> 2 ^ 64" using ok(1) by (simp add: hhdm_ok_def)
  have a: "unat (frame_addr i) = i * 4096" using i(1) ok(2) by (intro unat_frame_addr) simp
  have "unat (?h + frame_addr i) = unat ?h + i * 4096"
    using lt a by (simp add: unat_word_ariths)
  moreover from this have "canonical (?h + frame_addr i)"
    using ok(1) by (simp add: canonical_iff hhdm_ok_def)
  ultimately have v: "unat (va (virt_addr_add (hhdm_offset self) (frame_addr i))) = unat ?h + i * 4096"
    by (simp add: virt_addr_add_def truncate_canonical)
  have k: "unat (of_nat (4 * k) :: u64) = 4 * k" using i(2) by (intro unat_of_nat_lt) simp
  show ?thesis unfolding page_word_def using v k lt i(2) by (simp add: unat_word_ariths del: of_nat_mult)
qed

lemma page_word_inj:
  assumes "hhdm_ok self" "total_frames self \<le> 2 ^ 40" "i < total_frames self" "j < total_frames self"
    "k < 1024" "l < 1024" "page_word self i k = page_word self j l"
  shows "i = j"
proof -
  have "i * 1024 + k = j * 1024 + l"
    using unat_page_word [OF assms(1,2,3,5)] unat_page_word [OF assms(1,2,4,6)] assms(7) by simp
  then have "(i * 1024 + k) div 1024 = (j * 1024 + l) div 1024" by simp
  then show ?thesis using assms(5,6) by simp
qed

lemma fold_write_const:
  "fold (\<lambda>i m. m(f i := c)) is mem a = (if a \<in> f ` set is then c else mem a)"
  by (induction "is" arbitrary: mem) auto

lemma poison_page_apply:
  "poison_page self (PhysAddr (frame_addr i)) mem a =
     (if \<exists>k < 1024. a = page_word self i k then PAGE_POISON_PATTERN else mem a)"
  unfolding poison_page_def Let_def fold_write_const page_word_def by auto

lemma check_page_poison_eq:
  "check_page_poison self mem (PhysAddr (frame_addr i)) =
     (mem (page_word self i 0) = PAGE_POISON_PATTERN \<longrightarrow>
        (\<forall>k < 1024. mem (page_word self i k) = PAGE_POISON_PATTERN))"
proof -
  have all: "(\<forall>k < 1024. P k) \<longleftrightarrow> P 0 \<and> (\<forall>k \<in> set [1..<1024]. P k)" for P :: "nat \<Rightarrow> bool"
  proof -
    have "k < 1024 \<longleftrightarrow> k = 0 \<or> k \<in> set [1..<1024]" for k :: nat unfolding set_upt atLeastLessThan_iff by linarith
    then show ?thesis by metis
  qed
  show ?thesis
    unfolding check_page_poison_def Let_def list_all_iff all [of "\<lambda>k. mem (page_word self i k) = PAGE_POISON_PATTERN"]
    by (simp add: page_word_def del: set_upt of_nat_mult)
qed

lemma pages_intact_dealloc:
  assumes inv: "pmm_inv self" "hhdm_ok self" "pages_intact poison mem self" and i: "i < total_frames self"
    and upd: "free_set self' = insert i (free_set self)" "hhdm_offset self' = hhdm_offset self"
  shows "pages_intact poison (if poison then poison_page self (PhysAddr (frame_addr i)) mem else mem) self'"
proof (cases poison)
  case True
  let ?mem = "poison_page self (PhysAddr (frame_addr i)) mem"
  have n: "total_frames self \<le> 2 ^ 40" using inv(1) by (simp add: pmm_inv_def)
  have "check_page_poison self ?mem (PhysAddr (frame_addr j))" if j: "j \<in> insert i (free_set self)" for j
  proof (cases "j = i")
    case True
    then show ?thesis by (auto simp: check_page_poison_eq poison_page_apply)
  next
    case False
    have "j < total_frames self" using j i by (auto simp: free_set_def)
    then have "?mem (page_word self j k) = mem (page_word self j k)" if "k < 1024" for k
      using page_word_inj [OF inv(2) n _ i that] False by (auto simp: poison_page_apply)
    moreover have "check_page_poison self mem (PhysAddr (frame_addr j))"
      using inv(3) j False True by (simp add: pages_intact_def)
    ultimately show ?thesis by (simp add: check_page_poison_eq)
  qed
  moreover have "check_page_poison self' = check_page_poison self"
    by (intro ext) (simp add: check_page_poison_def upd(2))
  ultimately show ?thesis using True by (simp add: pages_intact_def upd(1))
qed (simp add: pages_intact_def)


section \<open>The frame-allocator interface\<close>

text \<open>
  The contract of the traits \<^verbatim>\<open>FrameAllocator\<close> and \<^verbatim>\<open>FrameDeallocator\<close>: an allocation returns a frame
  that was free and takes it out of the free set, and fails only when nothing is free; returning a
  tracked frame that is in use makes it free again. The clients are the page-table mapper, the VMM
  and the zone allocator, which draw several frames in a row.
\<close>

fun alloc_n ::
  "('s \<Rightarrow> (phys_frame option \<times> 's) option) \<Rightarrow> nat \<Rightarrow> 's \<Rightarrow> (phys_frame list \<times> 's) option" where
  "alloc_n alloc 0 s = Some ([], s)"
| "alloc_n alloc (Suc n) s =
     do { (r, s') \<leftarrow> alloc s; f \<leftarrow> r; (fs, s'') \<leftarrow> alloc_n alloc n s'; Some (f # fs, s'') }"

locale frame_allocator =
  fixes alloc :: "'s \<Rightarrow> (phys_frame option \<times> 's) option"
    and dealloc :: "'s \<Rightarrow> phys_frame \<Rightarrow> 's option"
    and ainv :: "'s \<Rightarrow> bool" and avail :: "'s \<Rightarrow> phys_frame set" and tracked :: "'s \<Rightarrow> phys_frame set"
  assumes alloc_law: "ainv s \<Longrightarrow> \<exists>r s'. alloc s = Some (r, s') \<and> ainv s' \<and> tracked s' = tracked s \<and>
      (case r of None \<Rightarrow> avail s = {} \<and> s' = s | Some f \<Rightarrow> f \<in> avail s \<and> avail s' = avail s - {f})"
    and dealloc_law: "ainv s \<Longrightarrow> f \<in> tracked s \<Longrightarrow> f \<notin> avail s \<Longrightarrow>
      \<exists>s'. dealloc s f = Some s' \<and> ainv s' \<and> tracked s' = tracked s \<and> avail s' = insert f (avail s)"
    and avail_tracked: "ainv s \<Longrightarrow> avail s \<subseteq> tracked s"
    and avail_finite: "ainv s \<Longrightarrow> finite (avail s)"
    and tracked_ok: "ainv s \<Longrightarrow> f \<in> tracked s \<Longrightarrow> phys_frame_ok Size4KiB f"
begin

lemma alloc_n_distinct:
  assumes "ainv s" "n \<le> card (avail s)"
  shows "\<exists>fs s'. alloc_n alloc n s = Some (fs, s') \<and> length fs = n \<and> distinct fs \<and>
    set fs \<subseteq> avail s \<and> avail s' = avail s - set fs \<and> ainv s'"
  using assms
proof (induction n arbitrary: s)
  case (Suc n)
  from alloc_law [OF Suc.prems(1)] obtain r s1 where
    a: "alloc s = Some (r, s1)" "ainv s1"
      "case r of None \<Rightarrow> avail s = {} \<and> s1 = s | Some f \<Rightarrow> f \<in> avail s \<and> avail s1 = avail s - {f}"
    by auto
  from a(3) Suc.prems(2) obtain f where f: "r = Some f" "f \<in> avail s" "avail s1 = avail s - {f}"
    by (cases r) auto
  have "n \<le> card (avail s1)" using f Suc.prems avail_finite by simp
  from Suc.IH [OF a(2) this] obtain fs s2 where
    r: "alloc_n alloc n s1 = Some (fs, s2)" "length fs = n" "distinct fs" "set fs \<subseteq> avail s1"
      "avail s2 = avail s1 - set fs" "ainv s2" by blast
  have "alloc_n alloc (Suc n) s = Some (f # fs, s2)" using a(1) f(1) r(1) by simp
  moreover have "distinct (f # fs)" "set (f # fs) \<subseteq> avail s" "avail s2 = avail s - set (f # fs)"
    using r f by auto
  ultimately show ?case using r(2,6) by (intro exI [of _ "f # fs"] exI [of _ s2]) simp
qed simp

lemma alloc_dealloc_restores:
  assumes "ainv s" "avail s \<noteq> {}"
  shows "\<exists>f s1 s2. alloc s = Some (Some f, s1) \<and> f \<notin> avail s1 \<and> dealloc s1 f = Some s2 \<and>
    ainv s2 \<and> avail s2 = avail s"
proof -
  from alloc_law [OF assms(1)] assms(2) obtain f s1 where
    a: "alloc s = Some (Some f, s1)" "ainv s1" "tracked s1 = tracked s" "f \<in> avail s"
      "avail s1 = avail s - {f}" by (auto split: option.splits)
  have "f \<in> tracked s1" "f \<notin> avail s1" using a avail_tracked [OF assms(1)] by auto
  from dealloc_law [OF a(2) this] show ?thesis using a by (auto simp: insert_absorb)
qed

end

definition pmm_alloc :: "bool \<Rightarrow> bitmap_allocator \<times> word_memory \<Rightarrow>
    (phys_frame option \<times> bitmap_allocator \<times> word_memory) option" where
  "pmm_alloc poison s =
     (case s of (self, mem) \<Rightarrow> do { (r, self') \<leftarrow> allocate_frame poison mem self; Some (r, self', mem) })"

definition pmm_dealloc :: "bool \<Rightarrow> bitmap_allocator \<times> word_memory \<Rightarrow> phys_frame \<Rightarrow>
    (bitmap_allocator \<times> word_memory) option" where
  "pmm_dealloc poison s f = (case s of (self, mem) \<Rightarrow> frame_alloc_ref_deallocate poison mem self f)"

definition pmm_good :: "bool \<Rightarrow> bitmap_allocator \<times> word_memory \<Rightarrow> bool" where
  "pmm_good poison s =
     (case s of (self, mem) \<Rightarrow> pmm_inv self \<and> hhdm_ok self \<and> pages_intact poison mem self)"

definition pmm_avail :: "bitmap_allocator \<times> word_memory \<Rightarrow> phys_frame set" where
  "pmm_avail s = frame_at ` free_set (fst s)"

definition pmm_tracked :: "bitmap_allocator \<times> word_memory \<Rightarrow> phys_frame set" where
  "pmm_tracked s = frame_at ` {..<total_frames (fst s)}"

lemma frame_at_inj: "inj_on frame_at {..<2 ^ 40}"
  by (rule inj_onI) (metis frame_index_frame_at lessThan_iff)

lemma frame_at_ok: "i < 2 ^ 40 \<Longrightarrow> phys_frame_ok Size4KiB (frame_at i)"
  by (simp add: phys_frame_ok_def phys_ok_def frame_at_def unat_frame_addr)

interpretation pmm: frame_allocator "pmm_alloc poison" "pmm_dealloc poison" "pmm_good poison"
  pmm_avail pmm_tracked for poison
proof
  fix s assume "pmm_good poison s"
  then obtain self mem where s: "s = (self, mem)" "pmm_inv self" "hhdm_ok self" "pages_intact poison mem self"
    by (auto simp: pmm_good_def)
  have n: "total_frames self \<le> 2 ^ 40" using s(2) by (simp add: pmm_inv_def)
  have inj: "inj_on frame_at {..<total_frames self}" using n by (intro inj_on_subset [OF frame_at_inj]) auto
  have sub: "free_set self \<subseteq> {..<total_frames self}" by (auto simp: free_set_def)
  show "pmm_avail s \<subseteq> pmm_tracked s" using sub by (auto simp: pmm_avail_def pmm_tracked_def s(1))
  show "finite (pmm_avail s)" by (simp add: pmm_avail_def)
  show "phys_frame_ok Size4KiB f" if "f \<in> pmm_tracked s" for f
    using that n by (auto simp: pmm_tracked_def s(1) intro!: frame_at_ok)
  show "\<exists>r s'. pmm_alloc poison s = Some (r, s') \<and> pmm_good poison s' \<and> pmm_tracked s' = pmm_tracked s \<and>
      (case r of None \<Rightarrow> pmm_avail s = {} \<and> s' = s
       | Some f \<Rightarrow> f \<in> pmm_avail s \<and> pmm_avail s' = pmm_avail s - {f})"
  proof (cases "free_set self = {}")
    case True
    then have "allocate_frame poison mem self = Some (None, self)"
      using allocate_frame_spec [OF s(2,4)] by simp
    then show ?thesis using s True by (simp add: pmm_alloc_def pmm_good_def pmm_avail_def)
  next
    case False
    then obtain i where i: "i \<in> free_set self" "allocate_frame poison mem self = Some (Some (frame_at i),
        (set_used self i)\<lparr>free_count := free_count self - 1, search_hint := i div 64\<rparr>)"
      using allocate_frame_spec [OF s(2,4)] by auto
    let ?self = "(set_used self i)\<lparr>free_count := free_count self - 1, search_hint := i div 64\<rparr>"
    have "i div 64 \<le> length (bitmap self)"
      using i(1) pmm_layout_index [OF pmm_inv_layout [OF s(2)]] by (simp add: free_set_def less_imp_le)
    note u = pmm_inv_set_used [OF s(2) i(1) this]
    have c: "check_page_poison ?self = check_page_poison self"
      by (intro ext) (simp add: check_page_poison_def)
    have "pmm_good poison (?self, mem)"
      using u s(3,4) c by (simp add: pmm_good_def hhdm_ok_def pages_intact_def)
    moreover have "frame_at ` (free_set self - {i}) = frame_at ` free_set self - {frame_at i}"
      using inj_on_image_set_diff [OF inj, of "free_set self" "{i}"] i(1) sub by auto
    ultimately show ?thesis
      using i u(2) by (simp add: pmm_alloc_def s(1) pmm_avail_def pmm_tracked_def)
  qed
  show "\<exists>s'. pmm_dealloc poison s f = Some s' \<and> pmm_good poison s' \<and> pmm_tracked s' = pmm_tracked s \<and>
      pmm_avail s' = insert f (pmm_avail s)" if f: "f \<in> pmm_tracked s" "f \<notin> pmm_avail s" for f
  proof -
    from f obtain i where i: "f = frame_at i" "i < total_frames self" "i \<notin> free_set self"
      by (auto simp: pmm_tracked_def pmm_avail_def s(1))
    have ix: "frame_index f = i" "frame_start f = PhysAddr (frame_addr i)"
      using i n by (simp_all add: frame_at_def [symmetric]) (simp add: frame_at_def)
    from deallocate_frame_spec [OF s(2), of f poison mem] i ix obtain self' where
      d: "deallocate_frame poison mem self f =
           Some (Inr (), self', if poison then poison_page self (PhysAddr (frame_addr i)) mem else mem)"
        "pmm_inv self'" "free_set self' = insert i (free_set self)" "total_frames self' = total_frames self"
        "hhdm_offset self' = hhdm_offset self" by auto
    note intact = pages_intact_dealloc [OF s(2,3,4) i(2) d(3,5)]
    show ?thesis
      using d intact s(3)
      by (simp add: pmm_dealloc_def s(1) frame_alloc_ref_deallocate_def pmm_good_def hhdm_ok_def
          pmm_tracked_def pmm_avail_def i(1))
  qed
qed


section \<open>Initialisation\<close>

definition region_frames :: "phys_memory_region \<Rightarrow> nat set" where
  "region_frames r = {unat (pa (region_start r)) div 4096..<
     unat (pa (region_start r)) div 4096 + unat (region_size r) div 4096}"

text \<open>
  What the boot code promises of the memory map: usable regions are page-aligned, lie in the 52-bit
  physical address space and do not overlap.
\<close>

definition regions_ok :: "phys_memory_region list \<Rightarrow> bool" where
  "regions_ok regions =
     (list_all (\<lambda>r. unat (pa (region_start r)) mod 4096 = 0 \<and> unat (region_size r) mod 4096 = 0 \<and>
          unat (pa (region_start r)) + unat (region_size r) \<le> 2 ^ 52) (filter region_usable regions) \<and>
      sorted_wrt (\<lambda>a b. unat (pa (region_start a)) + unat (region_size a) \<le> unat (pa (region_start b)) \<or>
          unat (pa (region_start b)) + unat (region_size b) \<le> unat (pa (region_start a)))
        (filter region_usable regions))"

lemma aligned_end_le:
  fixes a b c :: nat
  assumes "a mod 4096 = 0" "a + b \<le> c" shows "a div 4096 + b div 4096 \<le> c div 4096"
proof -
  have "(a + b) div 4096 = a div 4096 + b div 4096" using assms(1) by (intro div_plus_div_distrib_dvd_left) auto
  then show ?thesis using div_le_mono [OF assms(2), of 4096] by simp
qed

lemma region_frames_disjoint:
  assumes "unat (pa (region_start r)) mod 4096 = 0" "unat (pa (region_start r')) mod 4096 = 0"
    "unat (pa (region_start r)) + unat (region_size r) \<le> unat (pa (region_start r')) \<or>
     unat (pa (region_start r')) + unat (region_size r') \<le> unat (pa (region_start r))"
  shows "region_frames r \<inter> region_frames r' = {}"
  using assms(3) aligned_end_le [OF assms(1)] aligned_end_le [OF assms(2)]
  by (fastforce simp: region_frames_def)

lemma clear_frames_spec:
  assumes "pmm_inv s" "n = total_frames s" "distinct is"
    "\<forall>i \<in> set is. start + i < n \<and> start + i \<notin> free_set s"
  shows "\<exists>s'. clear_frames n start is (bitmap s, free_count s) = Some (bitmap s', free_count s') \<and>
    pmm_inv s' \<and> free_set s' = free_set s \<union> (+) start ` set is \<and> total_frames s' = n"
  using assms
proof (induction "is" arbitrary: s)
  case (Cons i "is")
  let ?s = "set_free s (start + i)"
  have i: "start + i < total_frames s" "start + i \<notin> free_set s" using Cons.prems by auto
  note inv' = pmm_inv_set_free_only [OF Cons.prems(1) i]
  have b: "start + i < 2 ^ 64" using i(1) Cons.prems(1) by (simp add: pmm_inv_def)
  have "clear_frames n start (i # is) (bitmap s, free_count s) =
      clear_frames n start is (bitmap ?s, free_count ?s)"
    using i b Cons.prems(2) pmm_layout_index [OF pmm_inv_layout [OF Cons.prems(1)] i(1)]
      free_count_bound [OF Cons.prems(1)]
    by (simp add: BITS_PER_WORD_def Let_def set_free_def)
  moreover have "n = total_frames ?s" "distinct is"
    "\<forall>k \<in> set is. start + k < n \<and> start + k \<notin> free_set ?s"
    using Cons.prems inv'(2) by auto
  note Cons.IH [OF inv'(1) this]
  ultimately show ?case using inv'(2) by simp
qed auto

lemma reserve_frames_spec:
  assumes "pmm_inv s" "n = total_frames s" "\<forall>i \<in> set is. start + i < 2 ^ 64"
  shows "\<exists>s'. reserve_frames n start is (bitmap s, free_count s) = Some (bitmap s', free_count s') \<and>
    pmm_inv s' \<and> free_set s' = free_set s - (+) start ` set is \<and> total_frames s' = n"
  using assms
proof (induction "is" arbitrary: s)
  case (Cons i "is")
  let ?k = "start + i"
  have b: "?k < 2 ^ 64" using Cons.prems(3) by simp
  show ?case
  proof (cases "?k \<in> free_set s")
    case True
    let ?s = "(set_used s ?k)\<lparr>free_count := free_count s - 1, search_hint := search_hint s\<rparr>"
    have "search_hint s \<le> length (bitmap s)" using Cons.prems(1) by (simp add: pmm_inv_def)
    note u = pmm_inv_set_used [OF Cons.prems(1) True this]
    have k: "?k < total_frames s" "\<not> bit (bitmap s ! (?k div 64)) (?k mod 64)"
      using True by (simp_all add: free_set_def frame_used_def)
    have "0 < free_count s" using True Cons.prems(1) by (auto simp: pmm_inv_def card_gt_0_iff)
    then have "reserve_frames n start (i # is) (bitmap s, free_count s) =
        reserve_frames n start is (bitmap ?s, free_count ?s)"
      using k b Cons.prems(2) pmm_layout_index [OF pmm_inv_layout [OF Cons.prems(1)] k(1)]
      by (simp add: BITS_PER_WORD_def Let_def set_used_def and_exp_eq_0_iff_not_bit)
    moreover have "n = total_frames ?s" "\<forall>i \<in> set is. start + i < 2 ^ 64" using Cons.prems by simp_all
    note Cons.IH [OF u(1) this]
    ultimately show ?thesis using u(2) by auto
  next
    case False
    have "reserve_frames n start (i # is) (bitmap s, free_count s) =
        reserve_frames n start is (bitmap s, free_count s)"
      using False b Cons.prems(2) pmm_layout_index [OF pmm_inv_layout [OF Cons.prems(1)], of ?k]
      by (auto simp: BITS_PER_WORD_def Let_def and_exp_eq_0_iff_not_bit free_set_def frame_used_def)
    then show ?thesis using Cons.IH [OF Cons.prems(1,2)] Cons.prems(3) False by auto
  qed
qed auto

lemma clear_regions_spec:
  assumes "pmm_inv s" "n = total_frames s" "regions_ok regions"
    "\<forall>r \<in> set regions. region_usable r \<longrightarrow> region_frames r \<subseteq> {..<n} - free_set s"
  shows "\<exists>s'. clear_regions n regions (bitmap s, free_count s) = Some (bitmap s', free_count s') \<and>
    pmm_inv s' \<and> total_frames s' = n \<and>
    free_set s' = free_set s \<union> \<Union> (region_frames ` set (filter region_usable regions))"
  using assms
proof (induction regions arbitrary: s)
  case (Cons r rs)
  have rs: "regions_ok rs" using Cons.prems(3) by (auto simp: regions_ok_def split: if_splits)
  show ?case
  proof (cases "region_usable r")
    case False
    then show ?thesis using Cons.IH [OF Cons.prems(1,2) rs] Cons.prems(4) by simp
  next
    case True
    let ?st = "unat (pa (region_start r)) div 4096" and ?c = "unat (region_size r) div 4096"
    have fr: "(+) ?st ` set [0..<?c] = region_frames r" by (simp add: region_frames_def add.commute)
    have conv: "unat (pa (region_start r) div FRAME_SIZE) = ?st" "unat (region_size r div FRAME_SIZE) = ?c"
      by (simp_all add: FRAME_SIZE_def unat_div_distrib)
    have "\<forall>i \<in> set [0..<?c]. ?st + i < n \<and> ?st + i \<notin> free_set s"
      using Cons.prems(4) True fr by fastforce
    from clear_frames_spec [OF Cons.prems(1,2) distinct_upt this] obtain s1 where
      s1: "clear_frames n ?st [0..<?c] (bitmap s, free_count s) = Some (bitmap s1, free_count s1)"
        "pmm_inv s1" "free_set s1 = free_set s \<union> region_frames r" "total_frames s1 = n"
      unfolding fr by blast
    have "region_frames r \<inter> region_frames r' = {}" if "r' \<in> set rs" "region_usable r'" for r'
      using Cons.prems(3) True that by (intro region_frames_disjoint) (auto simp: regions_ok_def list_all_iff)
    then have "\<forall>r \<in> set rs. region_usable r \<longrightarrow> region_frames r \<subseteq> {..<n} - free_set s1"
      using Cons.prems(4) s1(3) by fastforce
    from Cons.IH [OF s1(2) s1(4) [symmetric] rs this] show ?thesis
      using True s1 conv by (auto simp: Un_assoc)
  qed
qed auto


definition region_end :: "phys_memory_region \<Rightarrow> u64" where
  "region_end r = pa (region_start r) + region_size r"

definition usable_top :: "phys_memory_region list \<Rightarrow> u64" where
  "usable_top regions = foldr max (map region_end (filter region_usable regions)) 0"

definition bitmap_size :: "nat \<Rightarrow> nat" where
  "bitmap_size n = (n + 63) div 64 * 8"

lemma region_end_bound:
  assumes "regions_ok regions" "r \<in> set regions" "region_usable r"
  shows "unat (region_end r) = unat (pa (region_start r)) + unat (region_size r)"
    "unat (region_end r) \<le> 2 ^ 52" "unat (pa (region_start r)) mod 4096 = 0" "unat (region_size r) mod 4096 = 0"
proof -
  have b: "unat (pa (region_start r)) + unat (region_size r) \<le> 2 ^ 52"
    and m: "unat (pa (region_start r)) mod 4096 = 0" "unat (region_size r) mod 4096 = 0"
    using assms by (auto simp: regions_ok_def list_all_iff)
  show u: "unat (region_end r) = unat (pa (region_start r)) + unat (region_size r)"
    using b by (simp add: region_end_def unat_word_ariths)
  then show "unat (region_end r) \<le> 2 ^ 52" using b by simp
  show "unat (pa (region_start r)) mod 4096 = 0" "unat (region_size r) mod 4096 = 0" by (rule m)+
qed

lemma usable_ends_eq:
  assumes "regions_ok regions"
  shows "usable_ends regions = Some (map region_end (filter region_usable regions))"
  using assms
proof (induction regions)
  case (Cons r rs)
  have rs: "regions_ok rs" using Cons.prems by (auto simp: regions_ok_def split: if_splits)
  show ?case
  proof (cases "region_usable r")
    case True
    then have "chk_add (pa (region_start r)) (region_size r) = Some (region_end r)"
      using region_end_bound [OF Cons.prems, of r] by (simp add: chk_add_Some_iff)
    then show ?thesis using True Cons.IH [OF rs] by simp
  qed (use Cons.IH [OF rs] in simp)
qed simp

lemma foldr_max_ge: "x \<in> set xs \<Longrightarrow> x \<le> foldr max xs 0" for x :: "'a::len word"
  by (induction xs) (auto simp: le_max_iff_disj)

lemma foldr_max_in: "foldr max xs 0 \<in> insert 0 (set xs)" for xs :: "'a::len word list"
  by (induction xs) (auto simp: max_def)

lemma usable_top_bound: "regions_ok regions \<Longrightarrow> unat (usable_top regions) \<le> 2 ^ 52"
  using foldr_max_in [of "map region_end (filter region_usable regions)"] region_end_bound(2) [of regions]
  by (auto simp: usable_top_def)

lemma region_frames_below_top:
  assumes "regions_ok regions" "r \<in> set regions" "region_usable r"
  shows "region_frames r \<subseteq> {..<unat (usable_top regions) div 4096}"
proof -
  have "region_end r \<le> usable_top regions"
    unfolding usable_top_def using assms by (intro foldr_max_ge) auto
  then have "unat (pa (region_start r)) + unat (region_size r) \<le> unat (usable_top regions)"
    by (simp add: word_le_nat_alt region_end_bound(1) [OF assms])
  from aligned_end_le [OF region_end_bound(3) [OF assms] this] show ?thesis
    by (auto simp: region_frames_def)
qed

lemma fresh_bitmap:
  assumes "n \<le> 2 ^ 40"
  shows "pmm_inv \<lparr>bitmap = replicate ((n + 63) div 64) (- 1), bitmap_ptr = b, total_frames = n, free_count = 0,
      search_hint = 0, hhdm_offset = h\<rparr>"
    "free_set \<lparr>bitmap = replicate ((n + 63) div 64) (- 1), bitmap_ptr = b, total_frames = n, free_count = 0,
      search_hint = 0, hhdm_offset = h\<rparr> = {}"
proof -
  show f: "free_set \<lparr>bitmap = replicate ((n + 63) div 64) (- 1), bitmap_ptr = b, total_frames = n, free_count = 0,
      search_hint = 0, hhdm_offset = h\<rparr> = {}"
    by (auto simp: free_set_def frame_used_def)
  then show "pmm_inv \<lparr>bitmap = replicate ((n + 63) div 64) (- 1), bitmap_ptr = b, total_frames = n, free_count = 0,
      search_hint = 0, hhdm_offset = h\<rparr>"
    using assms by (simp add: pmm_inv_def)
qed

definition usable_frames :: "phys_memory_region list \<Rightarrow> nat set" where
  "usable_frames regions = \<Union> (region_frames ` set (filter region_usable regions))"

definition bitmap_frames :: "phys_memory_region \<Rightarrow> nat \<Rightarrow> nat set" where
  "bitmap_frames r n =
     {unat (pa (region_start r)) div 4096..<unat (pa (region_start r)) div 4096 + (bitmap_size n + 4095) div 4096}"

lemma populate_bitmap:
  assumes ok: "regions_ok regions" and n: "n = unat (usable_top regions) div 4096"
    and r: "r \<in> set regions" "region_usable r"
  shows "\<exists>bm free bm' free'.
      clear_regions n regions (replicate ((n + 63) div 64) (- 1), 0) = Some (bm, free) \<and>
      reserve_frames n (unat (pa (region_start r)) div 4096) [0..<(bitmap_size n + 4095) div 4096] (bm, free)
        = Some (bm', free') \<and>
      pmm_inv \<lparr>bitmap = bm', bitmap_ptr = b, total_frames = n, free_count = free', search_hint = 0, hhdm_offset = h\<rparr> \<and>
      free_set \<lparr>bitmap = bm', bitmap_ptr = b, total_frames = n, free_count = free', search_hint = 0, hhdm_offset = h\<rparr> =
        usable_frames regions - bitmap_frames r n"
proof -
  let ?st = "unat (pa (region_start r)) div 4096" and ?c = "(bitmap_size n + 4095) div 4096"
  let ?s = "\<lparr>bitmap = replicate ((n + 63) div 64) (- 1), bitmap_ptr = b, total_frames = n, free_count = 0,
      search_hint = 0, hhdm_offset = h\<rparr>"
  have n40: "n \<le> 2 ^ 40" using usable_top_bound [OF ok] div_le_mono [of _ "2 ^ 52" 4096] by (simp add: n)
  note fresh = fresh_bitmap [OF n40, of b h]
  have "\<forall>r \<in> set regions. region_usable r \<longrightarrow> region_frames r \<subseteq> {..<n} - free_set ?s"
    unfolding fresh(2) using region_frames_below_top [OF ok] by (simp add: n)
  from clear_regions_spec [OF fresh(1) _ ok this] obtain s1 where
    s1: "clear_regions n regions (replicate ((n + 63) div 64) (- 1), 0) = Some (bitmap s1, free_count s1)"
      "pmm_inv s1" "total_frames s1 = n" "free_set s1 = usable_frames regions"
    by (auto simp: fresh(2) usable_frames_def)
  have "?c \<le> 2 ^ 40" using div_le_mono [of "n + 63" "2 ^ 40 + 63" 64] n40
    by (simp add: bitmap_size_def div_le_mono [of _ "2 ^ 40" 4096])
  then have "\<forall>i \<in> set [0..<?c]. ?st + i < 2 ^ 64"
    using region_end_bound(1,2) [OF ok r] div_le_dividend [of "unat (pa (region_start r))" 4096] by auto
  from reserve_frames_spec [OF s1(2) s1(3) [symmetric] this] obtain s2 where
    s2: "reserve_frames n ?st [0..<?c] (bitmap s1, free_count s1) = Some (bitmap s2, free_count s2)"
      "pmm_inv s2" "free_set s2 = free_set s1 - (+) ?st ` {0..<?c}" "total_frames s2 = n" by auto
  let ?r = "\<lparr>bitmap = bitmap s2, bitmap_ptr = b, total_frames = n, free_count = free_count s2, search_hint = 0, hhdm_offset = h\<rparr>"
  have fs: "free_set ?r = free_set s2" using s2(4) by (simp add: free_set_def)
  then have "pmm_inv ?r" using s2(2,4) by (simp add: pmm_inv_def)
  moreover have "free_set ?r = usable_frames regions - bitmap_frames r n"
    using s2(3) s1(4) by (simp add: fs bitmap_frames_def add.commute)
  ultimately show ?thesis using s1(1) s2(1) by blast
qed


lemma bitmap_allocator_new_eq:
  assumes ok: "regions_ok regions" and n: "n = unat (usable_top regions) div 4096"
    and pos: "usable_top regions \<noteq> 0"
  shows "bitmap_allocator_new regions hhdm =
    (case filter (\<lambda>r. region_usable r \<and> bitmap_size n \<le> unat (region_size r)) regions of
       [] \<Rightarrow> Some (Inl NoBitmapRegion)
     | r # _ \<Rightarrow>
        do { (bm, free) \<leftarrow> clear_regions n regions (replicate ((n + 63) div 64) (- 1), 0);
             (bm', free') \<leftarrow> reserve_frames n (unat (pa (region_start r)) div 4096)
                [0..<(bitmap_size n + 4095) div 4096] (bm, free);
             Some (Inr \<lparr>bitmap = bm', bitmap_ptr = virt_addr_add hhdm (pa (region_start r)), total_frames = n,
                        free_count = free', search_hint = 0, hhdm_offset = hhdm\<rparr>) })"
proof -
  have n40: "n \<le> 2 ^ 40" using usable_top_bound [OF ok] div_le_mono [of _ "2 ^ 52" 4096] by (simp add: n)
  have "(n + 63) div 64 \<le> 2 ^ 35" using div_le_mono [of "n + 63" "2 ^ 40 + 63" 64] n40 by simp
  then have bytes: "bitmap_size n \<le> 2 ^ 38" "unat (of_nat (bitmap_size n) :: u64) = bitmap_size n"
    by (simp_all add: bitmap_size_def unat_of_nat_lt del: of_nat_mult of_nat_add)
  let ?b = "of_nat (bitmap_size n + 4095) :: u64"
  have b: "unat ?b = bitmap_size n + 4095" using bytes(1) by (intro unat_of_nat_lt) simp
  obtain c where c: "chk_add (of_nat (bitmap_size n)) FRAME_SIZE = Some c" "unat c = bitmap_size n + 4096"
  proof -
    have "unat (of_nat (bitmap_size n + 4096) :: u64) = bitmap_size n + 4096"
      using bytes(1) by (intro unat_of_nat_lt) simp
    then show ?thesis using that bytes(2) by (simp add: chk_add_Some_iff FRAME_SIZE_def del: of_nat_add)
  qed
  have d: "chk_sub c 1 = Some ?b" using b c(2) by (simp add: chk_sub_Some_iff del: of_nat_add)
  have cnt: "unat (?b div FRAME_SIZE) = (bitmap_size n + 4095) div 4096"
    by (simp add: FRAME_SIZE_def unat_div_distrib b del: of_nat_add)
  have tot: "unat (usable_top regions div FRAME_SIZE) = n"
    by (simp add: FRAME_SIZE_def unat_div_distrib n)
  have st: "unat (pa (region_start r) div FRAME_SIZE) = unat (pa (region_start r)) div 4096" for r
    by (simp add: FRAME_SIZE_def unat_div_distrib)
  have cmp: "of_nat (bitmap_size n) \<le> region_size r \<longleftrightarrow> bitmap_size n \<le> unat (region_size r)" for r
    by (simp add: word_le_nat_alt bytes(2))
  have bs: "(n + 63) div 64 * 8 = bitmap_size n" by (simp add: bitmap_size_def)
  have us: "us_add n 64 = Some (n + 64)" "us_sub (n + 64) 1 = Some (n + 63)"
    "us_mul ((n + 63) div 64) 8 = Some (bitmap_size n)"
    using n40 bytes(1) by (simp_all add: bs [symmetric])
  show ?thesis
    unfolding bitmap_allocator_new_def usable_ends_eq [OF ok] BITS_PER_WORD_def using pos
    by (simp only: Option.bind.bind_lunit usable_top_def [symmetric] Let_def if_False tot us c(1) d cnt st cmp)
qed

text \<open>
  C18: \<^verbatim>\<open>BitmapAllocator::new\<close> on a well-formed memory map does not panic. If it succeeds, the invariant
  holds, the bitmap is stored at the start of a usable region that can hold it, as seen through the
  direct map, and the free frames are exactly the frames of the usable regions without those that
  store the bitmap; if it fails, there is no usable memory or no usable region can hold the
  bitmap.
\<close>

theorem bitmap_allocator_new_correct:
  assumes "regions_ok regions"
  defines "n \<equiv> unat (usable_top regions) div 4096"
  shows "\<exists>res. bitmap_allocator_new regions hhdm = Some res \<and>
    (case res of
       Inr self \<Rightarrow> pmm_inv self \<and> total_frames self = n \<and> hhdm_offset self = hhdm \<and>
         (\<exists>r \<in> set regions. region_usable r \<and> bitmap_size n \<le> unat (region_size r) \<and>
            bitmap_ptr self = virt_addr_add hhdm (pa (region_start r)) \<and>
            free_set self = usable_frames regions - bitmap_frames r n)
     | Inl OutOfMemory \<Rightarrow> usable_top regions = 0
     | Inl NoBitmapRegion \<Rightarrow>
         (\<forall>r \<in> set regions. region_usable r \<longrightarrow> unat (region_size r) < bitmap_size n)
     | Inl _ \<Rightarrow> False)"
proof (cases "usable_top regions = 0")
  case True
  then have "bitmap_allocator_new regions hhdm = Some (Inl OutOfMemory)"
    by (simp add: bitmap_allocator_new_def usable_ends_eq [OF assms(1)] usable_top_def)
  then show ?thesis using True by simp
next
  case False
  note eq = bitmap_allocator_new_eq [OF assms(1) _ False, of n hhdm]
  show ?thesis
  proof (cases "filter (\<lambda>r. region_usable r \<and> bitmap_size n \<le> unat (region_size r)) regions")
    case Nil
    then show ?thesis using eq by (auto simp: n_def filter_empty_conv not_le)
  next
    case (Cons r rs)
    then have r: "r \<in> set regions" "region_usable r" "bitmap_size n \<le> unat (region_size r)"
      by (auto dest: filter_eq_ConsD)
    from populate_bitmap [OF assms(1) _ r(1,2), of n "virt_addr_add hhdm (pa (region_start r))" hhdm] show ?thesis
      using eq Cons r by (auto simp: n_def)
  qed
qed


section \<open>Properties\<close>

definition tiny_pmm :: bitmap_allocator where
  "tiny_pmm = \<lparr>bitmap = [2], bitmap_ptr = VirtAddr 0xFFFF800000001000, total_frames = 4, free_count = 3, search_hint = 0,
     hhdm_offset = VirtAddr 0xFFFF800000000000\<rparr>"

lemma free_set_filter:
  "free_set self = set (filter (\<lambda>i. \<not> frame_used (bitmap self) i) [0..<total_frames self])"
  by (auto simp: free_set_def)

lemma tiny_pmm_free: "free_set tiny_pmm = {0, 2, 3}"
  unfolding free_set_filter
  by (simp add: tiny_pmm_def frame_used_def upt_rec) (simp only: numeral_2_eq_2 numeral_3_eq_3)

lemma tiny_pmm_frames: "total_frames tiny_pmm = 4"
  by (simp add: tiny_pmm_def)

lemma tiny_pmm_ok: "pmm_inv tiny_pmm" "hhdm_ok tiny_pmm" "pages_intact False mem tiny_pmm"
  by (simp add: pmm_inv_def tiny_pmm_free) (simp_all add: tiny_pmm_def hhdm_ok_def pages_intact_def)

theorem allocate_frames_first_fit_witness:
  "\<exists>s self'. allocate_frames False (\<lambda>_. 0) tiny_pmm 2 = Some (Some (frame_at s), self') \<and>
     free_set self' = free_set tiny_pmm - {s..<s + 2} \<and> pmm_inv self'"
proof -
  have "\<exists>s. s + 2 \<le> total_frames tiny_pmm \<and> run_free (is_free tiny_pmm) s 2"
    by (intro exI [of _ 2]) (auto simp: tiny_pmm_def run_free_def frame_used_def numeral_2_eq_2 less_Suc_eq)
  note * = allocate_frames_first_fit [OF tiny_pmm_ok(1,3), of 2 "\<lambda>_. 0", unfolded if_P [OF this]]
  show ?thesis using * [OF order_refl] by blast
qed

theorem bitmap_allocator_new_correct_witness:
  "\<exists>res. bitmap_allocator_new
      [\<lparr>region_start = PhysAddr 0x1000, region_size = 0x8000, region_usable = True\<rparr>]
      (VirtAddr 0xFFFF800000000000) = Some res \<and>
    (case res of
       Inr self \<Rightarrow> pmm_inv self \<and> total_frames self = 9
     | Inl OutOfMemory \<Rightarrow> False | Inl NoBitmapRegion \<Rightarrow> False | Inl _ \<Rightarrow> False)"
  using bitmap_allocator_new_correct
    [of "[\<lparr>region_start = PhysAddr 0x1000, region_size = 0x8000, region_usable = True\<rparr>]"
      "VirtAddr 0xFFFF800000000000"]
  by (auto simp: regions_ok_def usable_top_def region_end_def bitmap_size_def
      split: sum.splits pmm_error.splits)

text \<open>
  \<^verbatim>\<open>allocate_frame\<close> never panics on a well-formed allocator whose free pages are intact. It returns
  \<^const>\<open>None\<close> only when no frame is free; otherwise it returns a frame that was free, removes exactly
  that frame from the free set and keeps the invariant.
\<close>

lemma allocate_frame_correct:
  assumes "pmm_inv self" "pages_intact poison mem self"
  shows "\<exists>r self'. allocate_frame poison mem self = Some (r, self') \<and> pmm_inv self' \<and>
    (case r of None \<Rightarrow> free_set self = {} \<and> self' = self
     | Some f \<Rightarrow> \<exists>i \<in> free_set self. f = frame_at i \<and> free_set self' = free_set self - {i})"
proof (cases "free_set self = {}")
  case True
  then show ?thesis using allocate_frame_spec [OF assms] assms(1) by simp
next
  case False
  with allocate_frame_spec [OF assms] obtain i where i: "i \<in> free_set self"
    "allocate_frame poison mem self = Some (Some (frame_at i),
      (set_used self i)\<lparr>free_count := free_count self - 1, search_hint := i div 64\<rparr>)" by auto
  have "i div 64 \<le> length (bitmap self)"
    using i(1) pmm_layout_index [OF pmm_inv_layout [OF assms(1)]] by (simp add: free_set_def less_imp_le)
  from pmm_inv_set_used [OF assms(1) i(1) this] show ?thesis using i by auto
qed

text \<open>
  C28: \<^verbatim>\<open>deallocate_frame\<close> on every branch: a frame beyond the tracked range is \<^verbatim>\<open>InvalidFrame\<close>, a frame
  that is already free panics (the double-free assertion), and any other frame becomes free, with
  the invariant kept and, when poisoning is on, the page filled with the poison pattern.
\<close>

theorem deallocate_frame_correct:
  assumes "pmm_inv self"
  shows "if total_frames self \<le> frame_index f
      then deallocate_frame poison mem self f = Some (Inl InvalidFrame, self, mem)
    else if frame_index f \<in> free_set self then deallocate_frame poison mem self f = None
    else \<exists>self'. deallocate_frame poison mem self f =
        Some (Inr (), self', if poison then poison_page self (frame_start f) mem else mem) \<and>
      pmm_inv self' \<and> free_set self' = insert (frame_index f) (free_set self)"
  using deallocate_frame_invalid [of self f poison mem] deallocate_frame_double [OF assms, of f poison mem]
    deallocate_frame_spec [OF assms, of f poison mem] by auto

theorem deallocate_frame_correct_witness:
  "\<exists>self'. deallocate_frame False (\<lambda>_. 0) tiny_pmm (frame_at 1) = Some (Inr (), self', \<lambda>_. 0) \<and>
     pmm_inv self' \<and> free_set self' = {0, 1, 2, 3}"
  using deallocate_frame_correct [OF tiny_pmm_ok(1), of "frame_at 1" False "\<lambda>_. 0"]
  by (simp add: tiny_pmm_free tiny_pmm_frames insert_commute)

text \<open>
  \<^verbatim>\<open>deallocate_frames\<close> on every branch: a range that leaves the tracked frames is \<^verbatim>\<open>InvalidFrame\<close>, a
  range that contains a free frame panics, and any other range becomes free as a whole.
\<close>

lemma deallocate_frames_correct:
  assumes "pmm_inv self" "frame_index f + count < 2 ^ 64"
  shows "if total_frames self < frame_index f + count
      then deallocate_frames poison mem self f count = Some (Inl InvalidFrame, self, mem)
    else if {frame_index f..<frame_index f + count} \<inter> free_set self \<noteq> {}
      then deallocate_frames poison mem self f count = None
    else \<exists>self' mem'. deallocate_frames poison mem self f count = Some (Inr (), self', mem') \<and>
      pmm_inv self' \<and> free_set self' = free_set self \<union> {frame_index f..<frame_index f + count}"
proof (cases "total_frames self < frame_index f + count")
  case True
  then show ?thesis using assms(2) by (simp add: deallocate_frames_def frame_index_div Let_def)
next
  case False
  then show ?thesis
    using deallocate_frames_spec [OF assms(1), of f count poison mem]
      deallocate_frames_double [OF assms(1), of f count poison mem] by auto
qed

end
