(* ===== verification/Page_Tables.thy ===== *)
theory Page_Tables
  imports Pmm
begin

text \<open>
  Four-level page tables: the entries of
  \<^verbatim>\<open>kernel/kernel/src/arch/x86_64/structures/paging.rs\<close>, the walker and builder
  \<^verbatim>\<open>PageTableMapper\<close> of \<^verbatim>\<open>kernel/kernel/src/arch/x86_64/paging/mapper.rs\<close> and the flags, errors and
  flush tokens of \<^verbatim>\<open>kernel/mm/src/mapper.rs\<close>.

  Physical memory is a store \<open>table_memory\<close> from the physical address of a 4 KiB frame to the 512
  entries it holds; the mapper reaches it through the higher-half direct map, whose offset it
  carries. The closure that supplies frames for new tables is an argument together with its state.
  The lemmas describe the tables as a tree: mapping, unmapping and changing flags at one page
  change the translation of the addresses of that page and of no other, for all three page sizes.
\<close>

section \<open>Entries and flags\<close>

type_synonym page_table_flags = u64
type_synonym map_flags = u64

definition ADDR_MASK :: u64 where "ADDR_MASK = 0x000FFFFFFFFFF000"

definition PRESENT :: page_table_flags where "PRESENT = 2 ^ 0"
definition WRITABLE :: page_table_flags where "WRITABLE = 2 ^ 1"
definition USER :: page_table_flags where "USER = 2 ^ 2"
definition WRITE_THROUGH :: page_table_flags where "WRITE_THROUGH = 2 ^ 3"
definition CACHE_DISABLE :: page_table_flags where "CACHE_DISABLE = 2 ^ 4"
definition PAT_4K :: page_table_flags where "PAT_4K = 2 ^ 7"
definition HUGE_PAGE :: page_table_flags where "HUGE_PAGE = 2 ^ 7"
definition GLOBAL :: page_table_flags where "GLOBAL = 2 ^ 8"
definition PAT_HUGE :: page_table_flags where "PAT_HUGE = 2 ^ 12"
definition NO_EXECUTE :: page_table_flags where "NO_EXECUTE = 2 ^ 63"

definition flags_all :: page_table_flags where
  "flags_all = PRESENT OR WRITABLE OR USER OR WRITE_THROUGH OR CACHE_DISABLE OR PAT_4K OR HUGE_PAGE
     OR GLOBAL OR PAT_HUGE OR NO_EXECUTE"

text \<open>The operations of \<^verbatim>\<open>bitflags\<close> types: \<^verbatim>\<open>from_bits_truncate\<close>, \<^verbatim>\<open>contains\<close> and complement.\<close>

definition flags_from_bits_truncate :: "u64 \<Rightarrow> page_table_flags" where
  "flags_from_bits_truncate b = b AND flags_all"

definition flags_contains :: "u64 \<Rightarrow> u64 \<Rightarrow> bool" where
  "flags_contains f g = (f AND g = g)"

definition flags_not :: "page_table_flags \<Rightarrow> page_table_flags" where
  "flags_not f = flags_from_bits_truncate (NOT f)"

datatype page_table_entry = PageTableEntry (pte_bits: u64)

definition pte_empty :: page_table_entry where "pte_empty = PageTableEntry 0"

definition pte_new :: "phys_addr \<Rightarrow> page_table_flags \<Rightarrow> page_table_entry" where
  "pte_new phys_addr flags = PageTableEntry ((pa phys_addr AND ADDR_MASK) OR flags)"

definition pte_is_present :: "page_table_entry \<Rightarrow> bool" where
  "pte_is_present e = (pte_bits e AND 1 \<noteq> 0)"

definition pte_address :: "page_table_entry \<Rightarrow> phys_addr" where
  "pte_address e = PhysAddr (pte_bits e AND ADDR_MASK)"

definition pte_flags :: "page_table_entry \<Rightarrow> page_table_flags" where
  "pte_flags e = flags_from_bits_truncate (pte_bits e AND NOT ADDR_MASK)"

type_synonym page_table = "page_table_entry list"
type_synonym table_memory = "u64 \<Rightarrow> page_table"

definition page_table_zero :: "page_table \<Rightarrow> page_table" where
  "page_table_zero entries = replicate (length entries) pte_empty"

definition MF_WRITABLE :: map_flags where "MF_WRITABLE = 2 ^ 0"
definition MF_EXECUTABLE :: map_flags where "MF_EXECUTABLE = 2 ^ 1"
definition MF_USER :: map_flags where "MF_USER = 2 ^ 2"
definition MF_GLOBAL :: map_flags where "MF_GLOBAL = 2 ^ 3"
definition MF_CACHE_DISABLE :: map_flags where "MF_CACHE_DISABLE = 2 ^ 4"
definition MF_WRITE_COMBINE :: map_flags where "MF_WRITE_COMBINE = 2 ^ 5"

datatype unmap_error = NotMapped | HugePage
datatype mapper_unmap_error = MapNotMapped | SizeMismatch

text \<open>
  The flush token \<^verbatim>\<open>MapFlush\<close>; consuming it by \<^verbatim>\<open>flush\<close>, \<^verbatim>\<open>ignore\<close> or going out of scope yields the
  addresses whose translation is flushed from the TLB.
\<close>

record map_flush =
  mf_virt :: virt_addr
  needs_flush :: bool

definition map_flush_new :: "virt_addr \<Rightarrow> map_flush" where
  "map_flush_new virt = \<lparr>mf_virt = virt, needs_flush = True\<rparr>"

definition map_flush_drop :: "map_flush \<Rightarrow> virt_addr list" where
  "map_flush_drop self = (if needs_flush self then [mf_virt self] else [])"

definition map_flush_flush :: "map_flush \<Rightarrow> virt_addr list" where
  "map_flush_flush self =
     (let self' = self\<lparr>needs_flush := False\<rparr> in mf_virt self' # map_flush_drop self')"

definition map_flush_ignore :: "map_flush \<Rightarrow> virt_addr list" where
  "map_flush_ignore self = map_flush_drop (self\<lparr>needs_flush := False\<rparr>)"

section \<open>The mapper\<close>

datatype translate_result =
    Page4KiB phys_frame page_table_flags
  | Page2MiB phys_addr page_table_flags
  | Page1GiB phys_addr page_table_flags
  | TNotMapped

definition mapper_phys_to_virt :: "virt_addr \<Rightarrow> phys_addr \<Rightarrow> virt_addr option" where
  "mapper_phys_to_virt hhdm phys =
     do { room \<leftarrow> chk_sub (- 1) (va hhdm); assert_that (pa phys \<le> room);
          Some (virt_addr_add hhdm (pa phys)) }"

definition table_at :: "virt_addr \<Rightarrow> table_memory \<Rightarrow> phys_addr \<Rightarrow> page_table option" where
  "table_at hhdm mem phys =
     do { ok \<leftarrow> phys_addr_is_aligned phys 4096; assert_that ok;
          mapper_phys_to_virt hhdm phys;
          Some (mem (pa phys)) }"

definition intermediate_flags_for :: "page_table_flags \<Rightarrow> page_table_flags" where
  "intermediate_flags_for leaf_flags =
     (let flags = PRESENT OR WRITABLE
      in if flags_contains leaf_flags USER then flags OR USER else flags)"

definition map_flags_to_native :: "map_flags \<Rightarrow> page_table_flags" where
  "map_flags_to_native flags =
     (let native = PRESENT;
          native = (if flags_contains flags MF_WRITABLE then native OR WRITABLE else native);
          native = (if \<not> flags_contains flags MF_EXECUTABLE then native OR NO_EXECUTE else native);
          native = (if flags_contains flags MF_USER then native OR USER else native);
          native = (if flags_contains flags MF_GLOBAL then native OR GLOBAL else native);
          native = (if flags_contains flags MF_CACHE_DISABLE then native OR CACHE_DISABLE else native)
      in if flags_contains flags MF_WRITE_COMBINE
         then (native OR (PAT_4K OR PAT_HUGE)) AND flags_not (CACHE_DISABLE OR WRITE_THROUGH)
         else native)"

definition ensure_table ::
  "('s \<Rightarrow> (phys_frame \<times> 's) option) \<Rightarrow> virt_addr \<Rightarrow> phys_addr \<Rightarrow> usize \<Rightarrow> page_table_flags \<Rightarrow>
   table_memory \<Rightarrow> 's \<Rightarrow> (phys_addr \<times> table_memory \<times> 's) option" where
  "ensure_table alloc hhdm table_phys index intermediate_flags mem s =
     do { table \<leftarrow> table_at hhdm mem table_phys;
          entry \<leftarrow> idx table index;
          if pte_is_present entry
          then do {
            let combined = pte_flags entry OR intermediate_flags;
            mem' \<leftarrow> (if combined \<noteq> pte_flags entry
                    then do { table' \<leftarrow> upd_idx table index (pte_new (pte_address entry) combined);
                              Some (mem(pa table_phys := table')) }
                    else Some mem);
            Some (pte_address entry, mem', s) }
          else do {
            (frame, s') \<leftarrow> alloc s;
            let new_frame = frame_start frame;
            mapper_phys_to_virt hhdm new_frame;
            let mem' = mem(pa new_frame := replicate 512 pte_empty);
            table' \<leftarrow> upd_idx (mem' (pa table_phys)) index (pte_new new_frame intermediate_flags);
            Some (new_frame, mem'(pa table_phys := table'), s') } }"

definition map_2mib ::
  "('s \<Rightarrow> (phys_frame \<times> 's) option) \<Rightarrow> virt_addr \<Rightarrow> phys_addr \<Rightarrow> virt_addr \<Rightarrow> phys_addr \<Rightarrow>
   page_table_flags \<Rightarrow> table_memory \<Rightarrow> 's \<Rightarrow> (table_memory \<times> 's) option" where
  "map_2mib alloc hhdm pml4_phys virt_addr phys_addr flags mem s =
     do { ok \<leftarrow> phys_addr_is_aligned phys_addr 0x200000; assert_that ok;
          let pml4_idx = page_table_index_as_usize (pml4_index virt_addr);
          let pdpt_idx = page_table_index_as_usize (pdpt_index virt_addr);
          let pd_idx = page_table_index_as_usize (pd_index virt_addr);
          let intermediate = intermediate_flags_for flags;
          (pdpt_phys, mem, s) \<leftarrow> ensure_table alloc hhdm pml4_phys pml4_idx intermediate mem s;
          (pd_phys, mem, s) \<leftarrow> ensure_table alloc hhdm pdpt_phys pdpt_idx intermediate mem s;
          pd \<leftarrow> table_at hhdm mem pd_phys;
          pd' \<leftarrow> upd_idx pd pd_idx (pte_new phys_addr (flags OR HUGE_PAGE));
          Some (mem(pa pd_phys := pd'), s) }"

definition map_1gib ::
  "('s \<Rightarrow> (phys_frame \<times> 's) option) \<Rightarrow> virt_addr \<Rightarrow> phys_addr \<Rightarrow> virt_addr \<Rightarrow> phys_addr \<Rightarrow>
   page_table_flags \<Rightarrow> table_memory \<Rightarrow> 's \<Rightarrow> (table_memory \<times> 's) option" where
  "map_1gib alloc hhdm pml4_phys virt_addr phys_addr flags mem s =
     do { ok \<leftarrow> phys_addr_is_aligned phys_addr 0x40000000; assert_that ok;
          let pml4_idx = page_table_index_as_usize (pml4_index virt_addr);
          let pdpt_idx = page_table_index_as_usize (pdpt_index virt_addr);
          let intermediate = intermediate_flags_for flags;
          (pdpt_phys, mem, s) \<leftarrow> ensure_table alloc hhdm pml4_phys pml4_idx intermediate mem s;
          pdpt \<leftarrow> table_at hhdm mem pdpt_phys;
          pdpt' \<leftarrow> upd_idx pdpt pdpt_idx (pte_new phys_addr (flags OR HUGE_PAGE));
          Some (mem(pa pdpt_phys := pdpt'), s) }"

definition map_4k ::
  "('s \<Rightarrow> (phys_frame \<times> 's) option) \<Rightarrow> virt_addr \<Rightarrow> phys_addr \<Rightarrow> virt_addr \<Rightarrow> phys_addr \<Rightarrow>
   page_table_flags \<Rightarrow> table_memory \<Rightarrow> 's \<Rightarrow> (table_memory \<times> 's) option" where
  "map_4k alloc hhdm pml4_phys virt_addr phys_addr flags mem s =
     do { ok \<leftarrow> phys_addr_is_aligned phys_addr 4096; assert_that ok;
          let pml4_idx = page_table_index_as_usize (pml4_index virt_addr);
          let pdpt_idx = page_table_index_as_usize (pdpt_index virt_addr);
          let pd_idx = page_table_index_as_usize (pd_index virt_addr);
          let pt_idx = page_table_index_as_usize (pt_index virt_addr);
          let intermediate = intermediate_flags_for flags;
          (pdpt_phys, mem, s) \<leftarrow> ensure_table alloc hhdm pml4_phys pml4_idx intermediate mem s;
          (pd_phys, mem, s) \<leftarrow> ensure_table alloc hhdm pdpt_phys pdpt_idx intermediate mem s;
          (pt_phys, mem, s) \<leftarrow> ensure_table alloc hhdm pd_phys pd_idx intermediate mem s;
          pt \<leftarrow> table_at hhdm mem pt_phys;
          pt' \<leftarrow> upd_idx pt pt_idx (pte_new phys_addr flags);
          Some (mem(pa pt_phys := pt'), s) }"

definition unmap_4k ::
  "virt_addr \<Rightarrow> phys_addr \<Rightarrow> virt_addr \<Rightarrow> table_memory \<Rightarrow>
   ((unmap_error + phys_frame) \<times> table_memory) option" where
  "unmap_4k hhdm pml4_phys virt_addr mem =
     do { let pml4_idx = page_table_index_as_usize (pml4_index virt_addr);
          let pdpt_idx = page_table_index_as_usize (pdpt_index virt_addr);
          let pd_idx = page_table_index_as_usize (pd_index virt_addr);
          let pt_idx = page_table_index_as_usize (pt_index virt_addr);
          pml4 \<leftarrow> table_at hhdm mem pml4_phys;
          pml4e \<leftarrow> idx pml4 pml4_idx;
          if \<not> pte_is_present pml4e then Some (Inl NotMapped, mem) else do {
          pdpt \<leftarrow> table_at hhdm mem (pte_address pml4e);
          pdpte \<leftarrow> idx pdpt pdpt_idx;
          if \<not> pte_is_present pdpte then Some (Inl NotMapped, mem)
          else if flags_contains (pte_flags pdpte) HUGE_PAGE then Some (Inl HugePage, mem) else do {
          pd \<leftarrow> table_at hhdm mem (pte_address pdpte);
          pde \<leftarrow> idx pd pd_idx;
          if \<not> pte_is_present pde then Some (Inl NotMapped, mem)
          else if flags_contains (pte_flags pde) HUGE_PAGE then Some (Inl HugePage, mem) else do {
          pt \<leftarrow> table_at hhdm mem (pte_address pde);
          pte \<leftarrow> idx pt pt_idx;
          if \<not> pte_is_present pte then Some (Inl NotMapped, mem) else do {
          frame \<leftarrow> phys_frame_containing_address Size4KiB (pte_address pte);
          pt' \<leftarrow> upd_idx pt pt_idx pte_empty;
          Some (Inr frame, mem(pa (pte_address pde) := pt')) }}}}}"

definition translate ::
  "virt_addr \<Rightarrow> phys_addr \<Rightarrow> virt_addr \<Rightarrow> table_memory \<Rightarrow> translate_result option" where
  "translate hhdm pml4_phys virt_addr mem =
     do { let pml4_idx = page_table_index_as_usize (pml4_index virt_addr);
          let pdpt_idx = page_table_index_as_usize (pdpt_index virt_addr);
          let pd_idx = page_table_index_as_usize (pd_index virt_addr);
          let pt_idx = page_table_index_as_usize (pt_index virt_addr);
          pml4 \<leftarrow> table_at hhdm mem pml4_phys;
          pml4e \<leftarrow> idx pml4 pml4_idx;
          if \<not> pte_is_present pml4e then Some TNotMapped else do {
          pdpt \<leftarrow> table_at hhdm mem (pte_address pml4e);
          pdpte \<leftarrow> idx pdpt pdpt_idx;
          if \<not> pte_is_present pdpte then Some TNotMapped
          else if flags_contains (pte_flags pdpte) HUGE_PAGE
          then Some (Page1GiB (pte_address pdpte) (pte_flags pdpte)) else do {
          pd \<leftarrow> table_at hhdm mem (pte_address pdpte);
          pde \<leftarrow> idx pd pd_idx;
          if \<not> pte_is_present pde then Some TNotMapped
          else if flags_contains (pte_flags pde) HUGE_PAGE
          then Some (Page2MiB (pte_address pde) (pte_flags pde)) else do {
          pt \<leftarrow> table_at hhdm mem (pte_address pde);
          pte \<leftarrow> idx pt pt_idx;
          if \<not> pte_is_present pte then Some TNotMapped else do {
          frame \<leftarrow> phys_frame_containing_address Size4KiB (pte_address pte);
          Some (Page4KiB frame (pte_flags pte)) }}}}}"

definition translate_addr ::
  "virt_addr \<Rightarrow> phys_addr \<Rightarrow> virt_addr \<Rightarrow> table_memory \<Rightarrow> phys_addr option option" where
  "translate_addr hhdm pml4_phys virt_addr mem =
     do { r \<leftarrow> translate hhdm pml4_phys virt_addr mem;
          (case r of
             Page4KiB frame _ \<Rightarrow>
               do { p \<leftarrow> phys_addr_add (frame_start frame) (virt_addr_page_offset virt_addr); Some (Some p) }
           | Page2MiB phys_start _ \<Rightarrow>
               do { p \<leftarrow> phys_addr_add phys_start (va virt_addr AND 0x1FFFFF); Some (Some p) }
           | Page1GiB phys_start _ \<Rightarrow>
               do { p \<leftarrow> phys_addr_add phys_start (va virt_addr AND 0x3FFFFFFF); Some (Some p) }
           | TNotMapped \<Rightarrow> Some None) }"

definition update_flags_4k ::
  "virt_addr \<Rightarrow> phys_addr \<Rightarrow> virt_addr \<Rightarrow> page_table_flags \<Rightarrow> table_memory \<Rightarrow>
   ((unmap_error + unit) \<times> table_memory) option" where
  "update_flags_4k hhdm pml4_phys virt_addr new_flags mem =
     do { let pml4_idx = page_table_index_as_usize (pml4_index virt_addr);
          let pdpt_idx = page_table_index_as_usize (pdpt_index virt_addr);
          let pd_idx = page_table_index_as_usize (pd_index virt_addr);
          let pt_idx = page_table_index_as_usize (pt_index virt_addr);
          pml4 \<leftarrow> table_at hhdm mem pml4_phys;
          pml4e \<leftarrow> idx pml4 pml4_idx;
          if \<not> pte_is_present pml4e then Some (Inl NotMapped, mem) else do {
          pdpt \<leftarrow> table_at hhdm mem (pte_address pml4e);
          pdpte \<leftarrow> idx pdpt pdpt_idx;
          if \<not> pte_is_present pdpte then Some (Inl NotMapped, mem)
          else if flags_contains (pte_flags pdpte) HUGE_PAGE then Some (Inl HugePage, mem) else do {
          pd \<leftarrow> table_at hhdm mem (pte_address pdpte);
          pde \<leftarrow> idx pd pd_idx;
          if \<not> pte_is_present pde then Some (Inl NotMapped, mem)
          else if flags_contains (pte_flags pde) HUGE_PAGE then Some (Inl HugePage, mem) else do {
          pt \<leftarrow> table_at hhdm mem (pte_address pde);
          pte \<leftarrow> idx pt pt_idx;
          if \<not> pte_is_present pte then Some (Inl NotMapped, mem) else do {
          pt' \<leftarrow> upd_idx pt pt_idx (pte_new (pte_address pte) new_flags);
          Some (Inr (), mem(pa (pte_address pde) := pt')) }}}}}"

definition unmap_2mib ::
  "virt_addr \<Rightarrow> phys_addr \<Rightarrow> virt_addr \<Rightarrow> table_memory \<Rightarrow>
   ((unmap_error + phys_frame) \<times> table_memory) option" where
  "unmap_2mib hhdm pml4_phys virt_addr mem =
     do { let pml4_idx = page_table_index_as_usize (pml4_index virt_addr);
          let pdpt_idx = page_table_index_as_usize (pdpt_index virt_addr);
          let pd_idx = page_table_index_as_usize (pd_index virt_addr);
          pml4 \<leftarrow> table_at hhdm mem pml4_phys;
          pml4e \<leftarrow> idx pml4 pml4_idx;
          if \<not> pte_is_present pml4e then Some (Inl NotMapped, mem) else do {
          pdpt \<leftarrow> table_at hhdm mem (pte_address pml4e);
          pdpte \<leftarrow> idx pdpt pdpt_idx;
          if \<not> pte_is_present pdpte then Some (Inl NotMapped, mem)
          else if flags_contains (pte_flags pdpte) HUGE_PAGE then Some (Inl HugePage, mem) else do {
          pd \<leftarrow> table_at hhdm mem (pte_address pdpte);
          pde \<leftarrow> idx pd pd_idx;
          if \<not> pte_is_present pde then Some (Inl NotMapped, mem)
          else if \<not> flags_contains (pte_flags pde) HUGE_PAGE then Some (Inl HugePage, mem) else do {
          frame \<leftarrow> phys_frame_containing_address Size2MiB (pte_address pde);
          pd' \<leftarrow> upd_idx pd pd_idx pte_empty;
          Some (Inr frame, mem(pa (pte_address pdpte) := pd')) }}}}"

definition unmap_1gib ::
  "virt_addr \<Rightarrow> phys_addr \<Rightarrow> virt_addr \<Rightarrow> table_memory \<Rightarrow>
   ((unmap_error + phys_frame) \<times> table_memory) option" where
  "unmap_1gib hhdm pml4_phys virt_addr mem =
     do { let pml4_idx = page_table_index_as_usize (pml4_index virt_addr);
          let pdpt_idx = page_table_index_as_usize (pdpt_index virt_addr);
          pml4 \<leftarrow> table_at hhdm mem pml4_phys;
          pml4e \<leftarrow> idx pml4 pml4_idx;
          if \<not> pte_is_present pml4e then Some (Inl NotMapped, mem) else do {
          pdpt \<leftarrow> table_at hhdm mem (pte_address pml4e);
          pdpte \<leftarrow> idx pdpt pdpt_idx;
          if \<not> pte_is_present pdpte then Some (Inl NotMapped, mem)
          else if \<not> flags_contains (pte_flags pdpte) HUGE_PAGE then Some (Inl HugePage, mem) else do {
          frame \<leftarrow> phys_frame_containing_address Size1GiB (pte_address pdpte);
          pdpt' \<leftarrow> upd_idx pdpt pdpt_idx pte_empty;
          Some (Inr frame, mem(pa (pte_address pml4e) := pdpt')) }}}"

definition update_flags_2mib ::
  "virt_addr \<Rightarrow> phys_addr \<Rightarrow> virt_addr \<Rightarrow> page_table_flags \<Rightarrow> table_memory \<Rightarrow>
   ((unmap_error + unit) \<times> table_memory) option" where
  "update_flags_2mib hhdm pml4_phys virt_addr new_flags mem =
     do { let pml4_idx = page_table_index_as_usize (pml4_index virt_addr);
          let pdpt_idx = page_table_index_as_usize (pdpt_index virt_addr);
          let pd_idx = page_table_index_as_usize (pd_index virt_addr);
          pml4 \<leftarrow> table_at hhdm mem pml4_phys;
          pml4e \<leftarrow> idx pml4 pml4_idx;
          if \<not> pte_is_present pml4e then Some (Inl NotMapped, mem) else do {
          pdpt \<leftarrow> table_at hhdm mem (pte_address pml4e);
          pdpte \<leftarrow> idx pdpt pdpt_idx;
          if \<not> pte_is_present pdpte then Some (Inl NotMapped, mem)
          else if flags_contains (pte_flags pdpte) HUGE_PAGE then Some (Inl HugePage, mem) else do {
          pd \<leftarrow> table_at hhdm mem (pte_address pdpte);
          pde \<leftarrow> idx pd pd_idx;
          if \<not> pte_is_present pde then Some (Inl NotMapped, mem)
          else if \<not> flags_contains (pte_flags pde) HUGE_PAGE then Some (Inl HugePage, mem) else do {
          pd' \<leftarrow> upd_idx pd pd_idx (pte_new (pte_address pde) (new_flags OR HUGE_PAGE));
          Some (Inr (), mem(pa (pte_address pdpte) := pd')) }}}}"

definition update_flags_1gib ::
  "virt_addr \<Rightarrow> phys_addr \<Rightarrow> virt_addr \<Rightarrow> page_table_flags \<Rightarrow> table_memory \<Rightarrow>
   ((unmap_error + unit) \<times> table_memory) option" where
  "update_flags_1gib hhdm pml4_phys virt_addr new_flags mem =
     do { let pml4_idx = page_table_index_as_usize (pml4_index virt_addr);
          let pdpt_idx = page_table_index_as_usize (pdpt_index virt_addr);
          pml4 \<leftarrow> table_at hhdm mem pml4_phys;
          pml4e \<leftarrow> idx pml4 pml4_idx;
          if \<not> pte_is_present pml4e then Some (Inl NotMapped, mem) else do {
          pdpt \<leftarrow> table_at hhdm mem (pte_address pml4e);
          pdpte \<leftarrow> idx pdpt pdpt_idx;
          if \<not> pte_is_present pdpte then Some (Inl NotMapped, mem)
          else if \<not> flags_contains (pte_flags pdpte) HUGE_PAGE then Some (Inl HugePage, mem) else do {
          pdpt' \<leftarrow> upd_idx pdpt pdpt_idx (pte_new (pte_address pdpte) (new_flags OR HUGE_PAGE));
          Some (Inr (), mem(pa (pte_address pml4e) := pdpt')) }}}"

text \<open>
  The trait implementations \<^verbatim>\<open>PageMapper<S>\<close> for the three sizes; the errors are translated to those of
  the trait.
\<close>

fun unmap_error_convert :: "unmap_error \<Rightarrow> mapper_unmap_error" where
  "unmap_error_convert NotMapped = MapNotMapped"
| "unmap_error_convert HugePage = SizeMismatch"

definition page_mapper_4k_map ::
  "('s \<Rightarrow> (phys_frame \<times> 's) option) \<Rightarrow> virt_addr \<Rightarrow> phys_addr \<Rightarrow> page \<Rightarrow> phys_frame \<Rightarrow>
   map_flags \<Rightarrow> table_memory \<Rightarrow> 's \<Rightarrow> (map_flush \<times> table_memory \<times> 's) option" where
  "page_mapper_4k_map alloc hhdm root page frame flags mem s =
     do { let native = map_flags_to_native flags;
          let virt = page_start page;
          (mem', s') \<leftarrow> map_4k alloc hhdm root virt (frame_start frame) native mem s;
          Some (map_flush_new virt, mem', s') }"

definition page_mapper_4k_unmap ::
  "virt_addr \<Rightarrow> phys_addr \<Rightarrow> page \<Rightarrow> table_memory \<Rightarrow>
   ((mapper_unmap_error + phys_frame \<times> map_flush) \<times> table_memory) option" where
  "page_mapper_4k_unmap hhdm root page mem =
     do { let virt = page_start page;
          (r, mem') \<leftarrow> unmap_4k hhdm root virt mem;
          Some (case r of Inl e \<Rightarrow> Inl (unmap_error_convert e)
                | Inr frame \<Rightarrow> Inr (frame, map_flush_new virt), mem') }"

definition page_mapper_4k_update_flags ::
  "virt_addr \<Rightarrow> phys_addr \<Rightarrow> page \<Rightarrow> map_flags \<Rightarrow> table_memory \<Rightarrow>
   ((mapper_unmap_error + map_flush) \<times> table_memory) option" where
  "page_mapper_4k_update_flags hhdm root page flags mem =
     do { let virt = page_start page;
          let native = map_flags_to_native flags;
          (r, mem') \<leftarrow> update_flags_4k hhdm root virt native mem;
          Some (case r of Inl e \<Rightarrow> Inl (unmap_error_convert e)
                | Inr _ \<Rightarrow> Inr (map_flush_new virt), mem') }"

definition page_mapper_2mib_map ::
  "('s \<Rightarrow> (phys_frame \<times> 's) option) \<Rightarrow> virt_addr \<Rightarrow> phys_addr \<Rightarrow> page \<Rightarrow> phys_frame \<Rightarrow>
   map_flags \<Rightarrow> table_memory \<Rightarrow> 's \<Rightarrow> (map_flush \<times> table_memory \<times> 's) option" where
  "page_mapper_2mib_map alloc hhdm root page frame flags mem s =
     do { let native = map_flags_to_native flags;
          let virt = page_start page;
          (mem', s') \<leftarrow> map_2mib alloc hhdm root virt (frame_start frame) native mem s;
          Some (map_flush_new virt, mem', s') }"

definition page_mapper_2mib_unmap ::
  "virt_addr \<Rightarrow> phys_addr \<Rightarrow> page \<Rightarrow> table_memory \<Rightarrow>
   ((mapper_unmap_error + phys_frame \<times> map_flush) \<times> table_memory) option" where
  "page_mapper_2mib_unmap hhdm root page mem =
     do { let virt = page_start page;
          (r, mem') \<leftarrow> unmap_2mib hhdm root virt mem;
          Some (case r of Inl e \<Rightarrow> Inl (unmap_error_convert e)
                | Inr frame \<Rightarrow> Inr (frame, map_flush_new virt), mem') }"

definition page_mapper_2mib_update_flags ::
  "virt_addr \<Rightarrow> phys_addr \<Rightarrow> page \<Rightarrow> map_flags \<Rightarrow> table_memory \<Rightarrow>
   ((mapper_unmap_error + map_flush) \<times> table_memory) option" where
  "page_mapper_2mib_update_flags hhdm root page flags mem =
     do { let virt = page_start page;
          let native = map_flags_to_native flags;
          (r, mem') \<leftarrow> update_flags_2mib hhdm root virt native mem;
          Some (case r of Inl e \<Rightarrow> Inl (unmap_error_convert e)
                | Inr _ \<Rightarrow> Inr (map_flush_new virt), mem') }"

definition page_mapper_1gib_map ::
  "('s \<Rightarrow> (phys_frame \<times> 's) option) \<Rightarrow> virt_addr \<Rightarrow> phys_addr \<Rightarrow> page \<Rightarrow> phys_frame \<Rightarrow>
   map_flags \<Rightarrow> table_memory \<Rightarrow> 's \<Rightarrow> (map_flush \<times> table_memory \<times> 's) option" where
  "page_mapper_1gib_map alloc hhdm root page frame flags mem s =
     do { let native = map_flags_to_native flags;
          let virt = page_start page;
          (mem', s') \<leftarrow> map_1gib alloc hhdm root virt (frame_start frame) native mem s;
          Some (map_flush_new virt, mem', s') }"

definition page_mapper_1gib_unmap ::
  "virt_addr \<Rightarrow> phys_addr \<Rightarrow> page \<Rightarrow> table_memory \<Rightarrow>
   ((mapper_unmap_error + phys_frame \<times> map_flush) \<times> table_memory) option" where
  "page_mapper_1gib_unmap hhdm root page mem =
     do { let virt = page_start page;
          (r, mem') \<leftarrow> unmap_1gib hhdm root virt mem;
          Some (case r of Inl e \<Rightarrow> Inl (unmap_error_convert e)
                | Inr frame \<Rightarrow> Inr (frame, map_flush_new virt), mem') }"

definition page_mapper_1gib_update_flags ::
  "virt_addr \<Rightarrow> phys_addr \<Rightarrow> page \<Rightarrow> map_flags \<Rightarrow> table_memory \<Rightarrow>
   ((mapper_unmap_error + map_flush) \<times> table_memory) option" where
  "page_mapper_1gib_update_flags hhdm root page flags mem =
     do { let virt = page_start page;
          let native = map_flags_to_native flags;
          (r, mem') \<leftarrow> update_flags_1gib hhdm root virt native mem;
          Some (case r of Inl e \<Rightarrow> Inl (unmap_error_convert e)
                | Inr _ \<Rightarrow> Inr (map_flush_new virt), mem') }"

text \<open>The trait \<^verbatim>\<open>PageMapper<S>\<close>: the size selects the implementation.\<close>

fun page_mapper_map ::
  "page_size \<Rightarrow> ('s \<Rightarrow> (phys_frame \<times> 's) option) \<Rightarrow> virt_addr \<Rightarrow> phys_addr \<Rightarrow> page \<Rightarrow> phys_frame \<Rightarrow>
   map_flags \<Rightarrow> table_memory \<Rightarrow> 's \<Rightarrow> (map_flush \<times> table_memory \<times> 's) option" where
  "page_mapper_map Size4KiB = page_mapper_4k_map"
| "page_mapper_map Size2MiB = page_mapper_2mib_map"
| "page_mapper_map Size1GiB = page_mapper_1gib_map"

fun page_mapper_unmap ::
  "page_size \<Rightarrow> virt_addr \<Rightarrow> phys_addr \<Rightarrow> page \<Rightarrow> table_memory \<Rightarrow>
   ((mapper_unmap_error + phys_frame \<times> map_flush) \<times> table_memory) option" where
  "page_mapper_unmap Size4KiB = page_mapper_4k_unmap"
| "page_mapper_unmap Size2MiB = page_mapper_2mib_unmap"
| "page_mapper_unmap Size1GiB = page_mapper_1gib_unmap"

fun page_mapper_update_flags ::
  "page_size \<Rightarrow> virt_addr \<Rightarrow> phys_addr \<Rightarrow> page \<Rightarrow> map_flags \<Rightarrow> table_memory \<Rightarrow>
   ((mapper_unmap_error + map_flush) \<times> table_memory) option" where
  "page_mapper_update_flags Size4KiB = page_mapper_4k_update_flags"
| "page_mapper_update_flags Size2MiB = page_mapper_2mib_update_flags"
| "page_mapper_update_flags Size1GiB = page_mapper_1gib_update_flags"

text \<open>
  The closure that the callers of the mapper pass for new tables: it takes a frame from the
  allocator and panics when there is none.
\<close>

definition expect_frame :: "('s \<Rightarrow> (phys_frame option \<times> 's) option) \<Rightarrow> 's \<Rightarrow> (phys_frame \<times> 's) option" where
  "expect_frame allocate s = do { (r, s') \<leftarrow> allocate s; frame \<leftarrow> r; Some (frame, s') }"

section \<open>Entries as bit fields\<close>

lemmas page_mapper_map_def = page_mapper_4k_map_def page_mapper_2mib_map_def page_mapper_1gib_map_def
lemmas page_mapper_unmap_def = page_mapper_4k_unmap_def page_mapper_2mib_unmap_def page_mapper_1gib_unmap_def
lemmas page_mapper_update_flags_def =
  page_mapper_4k_update_flags_def page_mapper_2mib_update_flags_def page_mapper_1gib_update_flags_def

lemma bit_ADDR_MASK: "bit ADDR_MASK n \<longleftrightarrow> 12 \<le> n \<and> n < 52"
proof -
  have m: "ADDR_MASK = mask 52 AND NOT (mask 12)" by (simp add: ADDR_MASK_def mask_eq_exp_minus_1)
  show ?thesis unfolding m by (auto simp: bit_and_iff bit_not_iff bit_mask_iff)
qed

lemmas flag_defs = PRESENT_def WRITABLE_def USER_def WRITE_THROUGH_def CACHE_DISABLE_def PAT_4K_def
  HUGE_PAGE_def GLOBAL_def PAT_HUGE_def NO_EXECUTE_def

lemma bit_flag: "k < 64 \<Longrightarrow> bit (2 ^ k :: u64) n \<longleftrightarrow> n = k"
  by (auto simp: bit_exp_iff)

lemma flag_positions:
  "0 < (64 :: nat)" "1 < (64 :: nat)" "2 < (64 :: nat)" "3 < (64 :: nat)" "4 < (64 :: nat)"
  "7 < (64 :: nat)" "8 < (64 :: nat)" "12 < (64 :: nat)" "63 < (64 :: nat)"
  by simp_all

lemma bit_flags_all: "bit flags_all n \<longleftrightarrow> n \<in> {0, 1, 2, 3, 4, 7, 8, 12, 63}"
  unfolding flags_all_def flag_defs bit_or_iff flag_positions [THEN bit_flag] insert_iff empty_iff
  by blast

lemma flags_contains_exp: "flags_contains f (2 ^ n) \<longleftrightarrow> n < 64 \<longrightarrow> bit f n" for n :: nat
proof -
  have "flags_contains f (2 ^ n) \<longleftrightarrow> (\<forall>k < 64. (bit f k \<and> bit (2 ^ n :: u64) k) = bit (2 ^ n :: u64) k)"
    by (simp add: flags_contains_def bit_eq_iff [of "f AND 2 ^ n"] bit_and_iff)
  then show ?thesis by (auto simp: bit_exp_iff)
qed

definition pte_huge :: "page_table_entry \<Rightarrow> bool" where
  "pte_huge e = flags_contains (pte_flags e) HUGE_PAGE"

lemma pte_huge_bit: "pte_huge e \<longleftrightarrow> bit (pte_bits e) 7"
  unfolding pte_huge_def HUGE_PAGE_def flags_contains_exp
  by (simp add: pte_flags_def flags_from_bits_truncate_def bit_and_iff bit_not_iff bit_ADDR_MASK
      bit_flags_all)

lemma pte_is_present_bit: "pte_is_present e \<longleftrightarrow> bit (pte_bits e) 0"
  by (simp add: pte_is_present_def bit_0 and_one_eq odd_iff_mod_2_eq_one)

lemma pte_new_bit: "bit (pte_bits (pte_new p f)) n \<longleftrightarrow> (bit (pa p) n \<and> 12 \<le> n \<and> n < 52) \<or> bit f n"
  by (auto simp: pte_new_def bit_or_iff bit_and_iff bit_ADDR_MASK)

lemma pte_new_present [simp]: "pte_is_present (pte_new p f) \<longleftrightarrow> bit f 0"
  and pte_new_huge [simp]: "pte_huge (pte_new p f) \<longleftrightarrow> bit f 7"
  by (simp_all add: pte_is_present_bit pte_huge_bit pte_new_bit)

lemma pte_empty_simps [simp]: "\<not> pte_is_present pte_empty" "\<not> pte_huge pte_empty"
  by (simp_all add: pte_is_present_bit pte_huge_bit pte_empty_def)

lemma pte_address_aligned [simp]: "4096 dvd unat (pa (pte_address e))"
proof -
  have "pte_bits e AND ADDR_MASK = (pte_bits e AND ADDR_MASK) AND NOT (mask 12)"
    by (auto simp: bit_eq_iff bit_and_iff bit_not_iff bit_mask_iff bit_ADDR_MASK)
  then have "unat (pa (pte_address e)) =
      unat (pte_bits e AND ADDR_MASK) - unat (pte_bits e AND ADDR_MASK) mod 2 ^ 12"
    unfolding pte_address_def phys_addr.sel by (metis unat_and_not_mask)
  then show ?thesis using mod_dvd_sub [of 12 "unat (pte_bits e AND ADDR_MASK)"] by simp
qed

lemma phys_ok_bits: "phys_ok p \<Longrightarrow> bit (pa p) n \<Longrightarrow> n < 52"
proof (rule ccontr)
  assume "phys_ok p" and b: "bit (pa p) n" and n: "\<not> n < 52"
  then have "unat (pa p) mod 2 ^ 52 = unat (pa p)" by (simp add: phys_ok_def)
  then have "pa p AND mask 52 = pa p" by (simp add: word_unat_eq_iff unat_and_mask)
  then have "bit (pa p AND mask 52) n" using b by simp
  then show False using n by (simp add: bit_and_iff bit_mask_iff)
qed

lemma aligned_bits: "2 ^ k dvd unat a \<Longrightarrow> bit a n \<Longrightarrow> k \<le> n" for a :: u64
  by (metis and_not_mask_aligned bit_and_not_mask)

lemma pte_address_new:
  assumes "phys_ok p" "4096 dvd unat (pa p)" "f AND ADDR_MASK = 0"
  shows "pte_address (pte_new p f) = p"
proof -
  have "(bit (pa p) n \<and> 12 \<le> n \<and> n < 52 \<or> bit f n) \<and> 12 \<le> n \<and> n < 52 \<longleftrightarrow> bit (pa p) n" for n
  proof -
    have "\<not> (bit f n \<and> 12 \<le> n \<and> n < 52)"
      using arg_cong [OF assms(3), of "\<lambda>w. bit w n"] by (simp add: bit_and_iff bit_ADDR_MASK)
    moreover have "bit (pa p) n \<Longrightarrow> 12 \<le> n \<and> n < 52"
      using phys_ok_bits [OF assms(1)] aligned_bits [of 12 "pa p" n] assms(2) by simp
    ultimately show ?thesis by blast
  qed
  then have "pte_bits (pte_new p f) AND ADDR_MASK = pa p"
    by (auto simp: bit_eq_iff bit_and_iff pte_new_bit bit_ADDR_MASK)
  then show ?thesis by (simp add: pte_address_def)
qed

lemma pte_flags_no_address: "pte_flags e AND ADDR_MASK = 0"
  by (auto simp: bit_eq_iff pte_flags_def flags_from_bits_truncate_def bit_and_iff bit_not_iff)

lemma phys_ok_pte_address [simp]: "phys_ok (pte_address e)"
proof -
  have "pte_bits e AND ADDR_MASK = (pte_bits e AND ADDR_MASK) AND mask 52"
    by (auto simp: bit_eq_iff bit_and_iff bit_mask_iff bit_ADDR_MASK)
  then have "unat (pa (pte_address e)) = unat (pte_bits e AND ADDR_MASK) mod 2 ^ 52"
    unfolding pte_address_def phys_addr.sel by (metis unat_and_mask)
  then show ?thesis by (simp add: phys_ok_def)
qed

lemma phys_addr_is_aligned_4096: "phys_addr_is_aligned p 4096 = Some (4096 dvd unat (pa p))"
  using phys_addr_is_aligned_eq [of 12 p] by simp

lemma intermediate_flags_bits [simp]:
  "bit (intermediate_flags_for f) 0" "\<not> bit (intermediate_flags_for f) 7"
  "intermediate_flags_for f AND ADDR_MASK = 0"
proof -
  have *: "bit (intermediate_flags_for f) n \<longleftrightarrow> n \<in> {0, 1} \<or> n = 2 \<and> flags_contains f USER" for n
    unfolding intermediate_flags_for_def Let_def PRESENT_def WRITABLE_def USER_def
      if_distrib [where f = "\<lambda>w. bit w n"] bit_or_iff flag_positions [THEN bit_flag] by auto
  show "bit (intermediate_flags_for f) 0" "\<not> bit (intermediate_flags_for f) 7" by (simp_all add: *)
  show "intermediate_flags_for f AND ADDR_MASK = 0"
    by (rule bit_word_eqI) (auto simp: bit_and_iff * bit_ADDR_MASK)
qed

section \<open>The tables as a tree\<close>

text \<open>
  \<open>walk\<close> follows table indices from a table to the table they lead to, through entries that are
  present and not huge. A well-formed tree reaches each table by one path only.
\<close>

fun walk :: "table_memory \<Rightarrow> u64 \<Rightarrow> nat list \<Rightarrow> u64 option" where
  "walk m t [] = Some t"
| "walk m t (i # is) =
     (let e = m t ! i
      in if i < 512 \<and> pte_is_present e \<and> \<not> pte_huge e then walk m (pa (pte_address e)) is else None)"

definition accessible :: "virt_addr \<Rightarrow> u64 \<Rightarrow> bool" where
  "accessible hhdm t = (4096 dvd unat t \<and> unat t + unat (va hhdm) < 2 ^ 64)"

definition tables :: "table_memory \<Rightarrow> u64 \<Rightarrow> u64 set" where
  "tables m r = {t. \<exists>p. length p \<le> 3 \<and> walk m r p = Some t}"

definition pt_wf :: "virt_addr \<Rightarrow> u64 \<Rightarrow> table_memory \<Rightarrow> bool" where
  "pt_wf hhdm r m =
     ((\<forall>t. length (m t) = 512) \<and> (\<forall>t \<in> tables m r. accessible hhdm t) \<and>
      (\<forall>p q t. length p \<le> 3 \<longrightarrow> length q \<le> 3 \<longrightarrow> walk m r p = Some t \<longrightarrow> walk m r q = Some t \<longrightarrow> p = q) \<and>
      (\<forall>i < 512. \<not> pte_huge (m r ! i)))"

text \<open>The entry a walk of four indices ends at, with the number of levels below it.\<close>

fun resolve :: "table_memory \<Rightarrow> u64 \<Rightarrow> nat list \<Rightarrow> (nat \<times> page_table_entry) option" where
  "resolve m t [] = None"
| "resolve m t (i # is) =
     (let e = m t ! i
      in if \<not> (i < 512 \<and> pte_is_present e) then None
         else if is = [] \<or> pte_huge e then Some (length is, e)
         else resolve m (pa (pte_address e)) is)"

definition indices :: "virt_addr \<Rightarrow> nat list" where
  "indices v = [page_table_index_as_usize (pml4_index v), page_table_index_as_usize (pdpt_index v),
     page_table_index_as_usize (pd_index v), page_table_index_as_usize (pt_index v)]"

lemma length_indices [simp]: "length (indices v) = 4" by (simp add: indices_def)

lemma walk_append: "walk m t (p @ q) = Option.bind (walk m t p) (\<lambda>u. walk m u q)"
  by (induction p arbitrary: t) (auto simp: Let_def)

lemma table_at_accessible: "accessible h (pa t) \<Longrightarrow> table_at h m t = Some (m (pa t))"
  and phys_to_virt_accessible: "accessible h (pa t) \<Longrightarrow> \<exists>v. mapper_phys_to_virt h t = Some v"
proof -
  assume a: "accessible h (pa t)"
  have s: "chk_sub (- 1) (va h) = Some (- 1 - va h)" by (simp add: chk_sub_def)
  have "unat (- 1 - va h) = 2 ^ 64 - 1 - unat (va h)"
    by (subst unat_sub) (simp_all add: unsigned_minus_1_eq_mask mask_eq_exp_minus_1)
  moreover have "unat (pa t) + unat (va h) < 2 ^ 64" using a by (simp add: accessible_def)
  ultimately have v: "pa t \<le> - 1 - va h" by (simp add: word_le_nat_alt)
  then show "\<exists>v. mapper_phys_to_virt h t = Some v" by (simp add: mapper_phys_to_virt_def s)
  then show "table_at h m t = Some (m (pa t))"
    using a by (auto simp: table_at_def phys_addr_is_aligned_4096 accessible_def)
qed

lemma walk_in_tables: "walk m r p = Some t \<Longrightarrow> length p \<le> 3 \<Longrightarrow> t \<in> tables m r"
  by (auto simp: tables_def)

lemma pt_wfD:
  assumes "pt_wf h r m"
  shows "length (m t) = 512" "t \<in> tables m r \<Longrightarrow> accessible h t"
    "walk m r p = Some t \<Longrightarrow> walk m r q = Some t \<Longrightarrow> length p \<le> 3 \<Longrightarrow> length q \<le> 3 \<Longrightarrow> p = q"
    "i < 512 \<Longrightarrow> \<not> pte_huge (m r ! i)"
  using assms unfolding pt_wf_def by blast+

lemma pt_wf_same_walks:
  assumes wf: "pt_wf h r m" and walk: "\<And>q. length q \<le> 3 \<Longrightarrow> walk m' r q = walk m r q"
    and len: "\<And>t. length (m' t) = 512" and root: "\<And>i. i < 512 \<Longrightarrow> \<not> pte_huge (m' r ! i)"
  shows "pt_wf h r m'"
proof -
  have tab: "tables m' r = tables m r" using walk by (auto simp: tables_def)
  have inj: "p = q" if "length p \<le> 3" "length q \<le> 3" "walk m' r p = Some t" "walk m' r q = Some t" for p q t
    using pt_wfD(3) [OF wf, of p t q] that walk by simp
  show ?thesis unfolding pt_wf_def tab using len root inj pt_wfD(2) [OF wf] by blast
qed

lemma walk_cong:
  assumes "\<And>a j b v. s = a @ j # b \<Longrightarrow> walk m u a = Some v \<Longrightarrow> m' v ! j = m v ! j"
  shows "walk m' u s = walk m u s \<and> resolve m' u s = resolve m u s"
  using assms
proof (induction s arbitrary: u)
  case (Cons i s)
  have e: "m' u ! i = m u ! i" using Cons.prems [of "[]" i s u] by simp
  show ?case
  proof (cases "i < 512 \<and> pte_is_present (m u ! i) \<and> \<not> pte_huge (m u ! i)")
    case True
    have "walk m' (pa (pte_address (m u ! i))) s = walk m (pa (pte_address (m u ! i))) s \<and>
        resolve m' (pa (pte_address (m u ! i))) s = resolve m (pa (pte_address (m u ! i))) s"
    proof (rule Cons.IH)
      fix a j b v assume "s = a @ j # b" "walk m (pa (pte_address (m u ! i))) a = Some v"
      then show "m' v ! j = m v ! j" using Cons.prems [of "i # a" j b v] True by (simp add: Let_def)
    qed
    then show ?thesis using True by (simp add: e Let_def)
  next
    case False
    then show ?thesis by (auto simp: e Let_def)
  qed
qed simp

lemma resolve_append:
  "walk m t p = Some u \<Longrightarrow> s \<noteq> [] \<Longrightarrow> resolve m t (p @ s) = resolve m u s"
  by (induction p arbitrary: t) (auto simp: Let_def split: if_splits)

lemma walk_range: "walk m t p = Some u \<Longrightarrow> \<forall>i \<in> set p. i < 512"
  by (induction p arbitrary: t) (auto simp: Let_def split: if_splits)

text \<open>Writing one slot, at index \<open>i\<close> of the table reached by \<open>p\<close>.\<close>

lemma slot_miss:
  assumes wf: "pt_wf h r m" and p: "walk m r p = Some t" "length p \<le> 3"
    and q: "length q \<le> 4" and miss: "take (Suc (length p)) q \<noteq> p @ [i]"
  shows "walk (m(t := (m t)[i := e])) r q = walk m r q \<and>
    resolve (m(t := (m t)[i := e])) r q = resolve m r q"
proof (rule walk_cong)
  fix a j b v assume d: "q = a @ j # b" "walk m r a = Some v"
  show "(m(t := (m t)[i := e])) v ! j = m v ! j"
  proof (cases "v = t \<and> j = i")
    case True
    then have "walk m r a = Some t" using d by simp
    from pt_wfD(3) [OF wf this p(1)] have "a = p" using d(1) p(2) q by simp
    then show ?thesis using miss d True by simp
  next
    case False then show ?thesis by auto
  qed
qed

lemma slot_path:
  assumes "pt_wf h r m" "walk m r p = Some t" "length p \<le> 3"
  shows "walk (m(t := (m t)[i := e])) r p = Some t"
  using slot_miss [OF assms, of p i e] assms(2,3) by simp

lemma slot_below:
  assumes wf: "pt_wf h r m" and p: "walk m r (p @ [i]) = Some u" "walk m r p = Some t"
    and len: "length p + length s \<le> 3"
  shows "walk (m(t := (m t)[j := e])) u s = walk m u s \<and>
    resolve (m(t := (m t)[j := e])) u s = resolve m u s"
proof (rule walk_cong)
  fix a k b v assume d: "s = a @ k # b" "walk m u a = Some v"
  have "v \<noteq> t"
  proof
    assume "v = t"
    then have w: "walk m r (p @ [i] @ a) = Some t"
      using walk_append [of m r "p @ [i]" a] d(2) p(1) by simp
    have "p @ [i] @ a = p" by (rule pt_wfD(3) [OF wf w p(2)]) (use d(1) len in simp_all)
    then show False by simp
  qed
  then show "(m(t := (m t)[j := e])) v ! k = m v ! k" by simp
qed

text \<open>Replacing a leaf entry, or an entry that is not present, by another such entry.\<close>

definition stops :: "nat \<Rightarrow> page_table_entry \<Rightarrow> bool" where
  "stops k e = (k = 3 \<or> \<not> pte_is_present e \<or> pte_huge e)"

lemma take_Suc_split:
  assumes "take (Suc (length p)) q = p @ [i]" obtains s where "q = p @ i # s"
proof
  show "q = p @ i # drop (Suc (length p)) q"
    by (subst append_take_drop_id [of "Suc (length p)" q, symmetric], simp only: assms) simp
qed

lemma leaf_write:
  assumes wf: "pt_wf h r m" and p: "walk m r p = Some t" "length p \<in> {1, 2, 3}" and i: "i < 512"
    and old: "stops (length p) (m t ! i)" and new: "stops (length p) e"
  defines "m' \<equiv> m(t := (m t)[i := e])"
  shows "pt_wf h r m'" and "length q \<le> 3 \<Longrightarrow> walk m' r q = walk m r q"
    and "length q = 4 \<Longrightarrow> resolve m' r q =
      (if take (Suc (length p)) q = p @ [i]
       then if pte_is_present e then Some (3 - length p, e) else None else resolve m r q)"
proof -
  note len = pt_wfD(1) [OF wf]
  have lp: "length p \<le> 3" "p \<noteq> []" using p(2) by auto
  have path: "walk m' r p = Some t" unfolding m'_def by (rule slot_path [OF wf p(1) lp(1)])
  have entry: "m' t ! i = e" using len i by (simp add: m'_def)
  have miss: "walk m' r q = walk m r q \<and> resolve m' r q = resolve m r q"
    if "length q \<le> 4" "take (Suc (length p)) q \<noteq> p @ [i]" for q
    unfolding m'_def by (rule slot_miss [OF wf p(1) lp(1) that])
  show walk: "walk m' r q = walk m r q" if "length q \<le> 3" for q
  proof (cases "take (Suc (length p)) q = p @ [i]")
    case True
    then obtain s where q: "q = p @ i # s" by (rule take_Suc_split)
    then have k: "length p \<noteq> 3" using that by simp
    have "walk m t (i # s) = None" using k old by (auto simp: stops_def Let_def)
    moreover have "walk m' t (i # s) = None" using k new by (auto simp: entry stops_def Let_def)
    ultimately show ?thesis unfolding q walk_append p(1) path by (simp only: bind.bind_lunit)
  qed (use miss that in simp)
  show "resolve m' r q = (if take (Suc (length p)) q = p @ [i]
       then if pte_is_present e then Some (3 - length p, e) else None else resolve m r q)"
    if "length q = 4" for q
  proof (cases "take (Suc (length p)) q = p @ [i]")
    case True
    then obtain s where q: "q = p @ i # s" by (rule take_Suc_split)
    have s: "length s = 3 - length p" using that q by simp
    have "s = [] \<longleftrightarrow> length p = 3" using s lp(1) by auto
    then have "resolve m' t (i # s) = (if pte_is_present e then Some (3 - length p, e) else None)"
      using new i by (auto simp: entry Let_def stops_def s)
    then show ?thesis using True by (simp add: q resolve_append [OF path])
  qed (use miss that in simp)
  have root: "t \<noteq> r" using pt_wfD(3) [OF wf p(1), of "[]"] lp by auto
  show "pt_wf h r m'"
    using pt_wf_same_walks [OF wf walk] pt_wfD(1,4) [OF wf] root by (simp add: m'_def)
qed

text \<open>Setting flags of an entry that points to a table.\<close>

definition tree_le :: "u64 \<Rightarrow> table_memory \<Rightarrow> table_memory \<Rightarrow> bool" where
  "tree_le r m m' =
     ((\<forall>q u. length q \<le> 3 \<longrightarrow> walk m r q = Some u \<longrightarrow> walk m' r q = Some u) \<and>
      (\<forall>q. length q = 4 \<longrightarrow> resolve m' r q = resolve m r q))"

lemma tree_le_refl [simp]: "tree_le r m m"
  and tree_le_trans: "tree_le r m m' \<Longrightarrow> tree_le r m' m'' \<Longrightarrow> tree_le r m m''"
  by (auto simp: tree_le_def)

text \<open>The tree only grows, and memory changes only at its tables.\<close>

definition writes_tables :: "u64 \<Rightarrow> table_memory \<Rightarrow> table_memory \<Rightarrow> bool" where
  "writes_tables r m m' = (tables m r \<subseteq> tables m' r \<and> (\<forall>t. t \<notin> tables m' r \<longrightarrow> m' t = m t))"

lemma writes_tables_refl [simp]: "writes_tables r m m"
  by (simp add: writes_tables_def)

lemma tree_le_tables: "tree_le r m m' \<Longrightarrow> tables m r \<subseteq> tables m' r"
  by (auto simp: tree_le_def tables_def)

lemma writes_tables_trans:
  "writes_tables r m m' \<Longrightarrow> writes_tables r m' m'' \<Longrightarrow> writes_tables r m m''"
  unfolding writes_tables_def by (metis subset_trans subsetD)

lemma reflag_write:
  assumes wf: "pt_wf h r m" and p: "walk m r p = Some t" "length p \<le> 2" and i: "i < 512"
    and old: "pte_is_present (m t ! i)" "\<not> pte_huge (m t ! i)"
    and new: "pte_is_present e" "\<not> pte_huge e" "pte_address e = pte_address (m t ! i)"
  defines "m' \<equiv> m(t := (m t)[i := e])"
  shows "pt_wf h r m'" "tree_le r m m'" "\<And>q. length q \<le> 3 \<Longrightarrow> walk m' r q = walk m r q"
proof -
  have entry: "m' t ! i = e" using pt_wfD(1) [OF wf] i by (simp add: m'_def)
  have lp: "length p \<le> 3" using p(2) by simp
  have path: "walk m' r p = Some t" unfolding m'_def by (rule slot_path [OF wf p(1) lp])
  define u where "u = pa (pte_address (m t ! i))"
  have step: "walk m t (i # s) = walk m u s" "walk m' t (i # s) = walk m' u s"
    "s \<noteq> [] \<Longrightarrow> resolve m t (i # s) = resolve m u s" "s \<noteq> [] \<Longrightarrow> resolve m' t (i # s) = resolve m' u s" for s
    using i old new by (simp_all add: entry u_def Let_def)
  have wu: "walk m r (p @ [i]) = Some u" using p(1) step(1) [of "[]"] by (simp add: walk_append del: walk.simps(2))
  have *: "walk m' r q = walk m r q \<and> (length q = 4 \<longrightarrow> resolve m' r q = resolve m r q)"
    if q: "length q \<le> 4" for q
  proof (cases "take (Suc (length p)) q = p @ [i]")
    case True
    then obtain s where s: "q = p @ i # s" by (rule take_Suc_split)
    have below: "walk m' u s = walk m u s \<and> resolve m' u s = resolve m u s"
      unfolding m'_def by (rule slot_below [OF wf wu p(1)]) (use q s in simp)
    show ?thesis
    proof (intro conjI impI)
      show "walk m' r q = walk m r q"
        unfolding s walk_append p(1) path bind.bind_lunit step by (simp add: below)
      assume "length q = 4"
      then have ne: "s \<noteq> []" using s p(2) by auto
      show "resolve m' r q = resolve m r q"
        unfolding s resolve_append [OF p(1) list.distinct(2)] resolve_append [OF path list.distinct(2)]
          step(3,4) [OF ne] by (simp add: below)
    qed
  next
    case False
    then show ?thesis unfolding m'_def using slot_miss [OF wf p(1) lp q] by blast
  qed
  then show walk: "walk m' r q = walk m r q" if "length q \<le> 3" for q using that by simp
  show "tree_le r m m'" using * by (simp add: tree_le_def)
  have "\<not> pte_huge (m' r ! j)" if "j < 512" for j
    using that pt_wfD(1,4) [OF wf] new(2) by (cases "t = r \<and> j = i") (auto simp: m'_def nth_list_update)
  then show "pt_wf h r m'"
    using pt_wf_same_walks [OF wf walk] pt_wfD(1) [OF wf] by (simp add: m'_def)
qed

text \<open>Linking a new, empty table.\<close>

lemma link_write:
  assumes wf: "pt_wf h r m" and p: "walk m r p = Some t" "length p \<le> 2" and i: "i < 512"
    and old: "\<not> pte_is_present (m t ! i)"
    and n: "n \<notin> tables m r" "accessible h n"
    and new: "pte_is_present e" "\<not> pte_huge e" "pa (pte_address e) = n"
  defines "m' \<equiv> m(n := replicate 512 pte_empty, t := (m t)[i := e])"
  shows "pt_wf h r m'" "tree_le r m m'" "walk m' r (p @ [i]) = Some n"
    "\<And>q u. walk m' r q = Some u \<Longrightarrow> length q \<le> 3 \<Longrightarrow> q = p @ [i] \<and> u = n \<or> walk m r q = Some u"
proof -
  define m1 where "m1 = m(n := replicate 512 pte_empty)"
  have lp: "length p \<le> 3" using p(2) by simp
  have tn: "t \<noteq> n" using walk_in_tables [OF p(1) lp] n(1) by auto
  have m': "m' = m1(t := (m1 t)[i := e])" using tn by (simp add: m'_def m1_def)
  have m1: "walk m1 r q = walk m r q \<and> resolve m1 r q = resolve m r q" if "length q \<le> 4" for q
  proof (rule walk_cong)
    fix a j b v assume "q = a @ j # b" "walk m r a = Some v"
    then have "v \<noteq> n" using that n(1) walk_in_tables by force
    then show "m1 v ! j = m v ! j" by (simp add: m1_def)
  qed
  have "r \<noteq> n" using walk_in_tables [of m r "[]" r] n(1) by auto
  then have wf1: "pt_wf h r m1"
    using pt_wf_same_walks [OF wf, of m1] m1 pt_wfD(1,4) [OF wf] by (simp add: m1_def)
  have p1: "walk m1 r p = Some t" using m1 p lp by simp
  have path: "walk m' r p = Some t" unfolding m' by (rule slot_path [OF wf1 p1 lp])
  have entry: "m' t ! i = e" "m' n ! j = pte_empty" if "j < 512" for j
    using pt_wfD(1) [OF wf] i tn that by (simp_all add: m'_def)
  have step: "walk m' t (i # s) = walk m' n s" "s \<noteq> [] \<Longrightarrow> resolve m' t (i # s) = resolve m' n s" for s
    using i new entry(1) [OF i] by (simp_all add: Let_def)
  have empty: "walk m' n s = (if s = [] then Some n else None)" "resolve m' n s = None" for s
    using entry(2) by (cases s; auto simp: Let_def)+
  have miss: "walk m' r q = walk m r q \<and> resolve m' r q = resolve m r q"
    if "length q \<le> 4" "take (Suc (length p)) q \<noteq> p @ [i]" for q
    using slot_miss [OF wf1 p1 lp that, of e] m1 [OF that(1)] by (simp add: m')
  have hit: "walk m' r (p @ i # s) = (if s = [] then Some n else None)" for s
    unfolding walk_append path bind.bind_lunit step empty ..
  show "walk m' r (p @ [i]) = Some n" by (simp add: hit)
  have walk: "walk m' r q = (if q = p @ [i] then Some n else if take (Suc (length p)) q = p @ [i] then None
      else walk m r q)" if "length q \<le> 3" for q
  proof (cases "take (Suc (length p)) q = p @ [i]")
    case True
    then obtain s where "q = p @ i # s" by (rule take_Suc_split)
    then show ?thesis using hit by auto
  next
    case False then show ?thesis using miss [of q] that by auto
  qed
  have stuck: "walk m r (p @ i # s) = None" for s using old p(1) by (simp add: walk_append Let_def)
  show "tree_le r m m'"
    unfolding tree_le_def
  proof (intro conjI allI impI)
    fix q u assume q: "length q \<le> 3" "walk m r q = Some u"
    have "take (Suc (length p)) q \<noteq> p @ [i]" using stuck q(2) by (metis option.distinct(1) take_Suc_split)
    then show "walk m' r q = Some u" using miss [of q] q by simp
  next
    fix q :: "nat list" assume q: "length q = 4"
    show "resolve m' r q = resolve m r q"
    proof (cases "take (Suc (length p)) q = p @ [i]")
      case True
      then obtain s where s: "q = p @ i # s" by (rule take_Suc_split)
      then have "s \<noteq> []" using q p(2) by auto
      then have "resolve m' r q = None"
        unfolding s resolve_append [OF path list.distinct(2)] by (simp add: step(2) empty del: resolve.simps(2))
      moreover have "resolve m r q = None"
        unfolding s resolve_append [OF p(1) list.distinct(2)] using old by (simp add: Let_def)
      ultimately show ?thesis by simp
    qed (use miss [of q] q in simp)
  qed
  show tabs: "walk m' r q = Some u \<Longrightarrow> length q \<le> 3 \<Longrightarrow> q = p @ [i] \<and> u = n \<or> walk m r q = Some u" for q u
    using walk [of q] by (auto split: if_splits)
  then have sub: "tables m' r \<subseteq> insert n (tables m r)" by (auto simp: tables_def)
  have inj: "q = q'" if "length q \<le> 3" "length q' \<le> 3" "walk m' r q = Some u" "walk m' r q' = Some u" for q q' u
    using tabs [OF that(3,1)] tabs [OF that(4,2)] pt_wfD(3) [OF wf _ _ that(1,2)] n(1)
      walk_in_tables [OF _ that(1), of m r u] walk_in_tables [OF _ that(2), of m r u] by blast
  have "\<not> pte_huge (m' r ! j)" if "j < 512" for j
    using that pt_wfD(1,4) [OF wf1] new(2) by (cases "t = r \<and> j = i") (auto simp: m' nth_list_update)
  moreover have "length (m' v) = 512" for v using pt_wfD(1) [OF wf] by (simp add: m'_def)
  moreover have "accessible h v" if "v \<in> tables m' r" for v
    using that sub n(2) pt_wfD(2) [OF wf] by blast
  ultimately show "pt_wf h r m'" unfolding pt_wf_def using inj by blast
qed

section \<open>Mapping with frames from an allocator\<close>

definition frames_fresh :: "virt_addr \<Rightarrow> u64 \<Rightarrow> table_memory \<Rightarrow> phys_frame set \<Rightarrow> bool" where
  "frames_fresh h r m F =
     (\<forall>f \<in> F. accessible h (pa (frame_start f)) \<and> pa (frame_start f) \<notin> tables m r)"

lemma frames_fresh_tables:
  "frames_fresh h r m F \<Longrightarrow> (\<And>t. t \<in> tables m' r \<Longrightarrow> t \<in> tables m r \<or> (\<forall>f \<in> F'. pa (frame_start f) \<noteq> t)) \<Longrightarrow>
   F' \<subseteq> F \<Longrightarrow> frames_fresh h r m' F'"
  by (auto simp: frames_fresh_def)

lemma combined_flags:
  assumes "bit f 0" "\<not> bit f 7" "f AND ADDR_MASK = 0" "pte_is_present e" "\<not> pte_huge e"
  defines "e' \<equiv> pte_new (pte_address e) (pte_flags e OR f)"
  shows "pte_is_present e'" "\<not> pte_huge e'" "pte_address e' = pte_address e"
proof -
  have "\<not> bit (pte_flags e) 7" using assms(5) by (simp add: pte_huge_def HUGE_PAGE_def flags_contains_exp [of _ 7, simplified])
  then show "pte_is_present e'" "\<not> pte_huge e'" using assms(1,2) by (simp_all add: e'_def bit_or_iff)
  show "pte_address e' = pte_address e"
    unfolding e'_def by (rule pte_address_new)
      (simp_all add: bit.conj_disj_distrib2 pte_flags_no_address assms(3))
qed

abbreviation frame_addrs :: "phys_frame set \<Rightarrow> u64 set" where
  "frame_addrs F \<equiv> (\<lambda>f. pa (frame_start f)) ` F"

text \<open>
  What an operation on the page at \<open>path\<close> may write, with the frames at \<open>A\<close> free before: the tables on
  the path and new tables in free frames. Every table of the tree was there before or is such a frame.
\<close>

definition path_writes :: "u64 \<Rightarrow> nat list \<Rightarrow> u64 set \<Rightarrow> table_memory \<Rightarrow> table_memory \<Rightarrow> bool" where
  "path_writes r path A m m' =
     ((\<forall>q u. length q \<le> 3 \<longrightarrow> walk m' r q = Some u \<longrightarrow> walk m r q = Some u \<or> u \<in> A) \<and>
      (\<forall>u. m' u \<noteq> m u \<longrightarrow> u \<in> A \<or> (\<exists>j \<le> 3. walk m r (take j path) = Some u)))"

lemma path_writes_refl [simp]: "path_writes r path A m m"
  by (simp add: path_writes_def)

lemma path_writes_step:
  assumes w: "path_writes r path A m0 m" and t: "walk m r (take k path) = Some t" "k \<le> 3"
    and walks: "\<forall>q u. length q \<le> 3 \<longrightarrow> walk m' r q = Some u \<longrightarrow> walk m r q = Some u \<or> u \<in> A"
    and writes: "\<forall>u. m' u \<noteq> m u \<longrightarrow> u = t \<or> u \<in> A"
  shows "path_writes r path A m0 m'"
proof -
  have "length (take k path) \<le> 3" using t(2) by simp
  then have "t \<in> A \<or> walk m0 r (take k path) = Some t" using w t(1) unfolding path_writes_def by blast
  then have "u \<in> A \<or> (\<exists>j \<le> 3. walk m0 r (take j path) = Some u)" if "m' u \<noteq> m0 u" for u
    using that w writes t(2) unfolding path_writes_def by metis
  moreover have "walk m0 r q = Some u \<or> u \<in> A" if "length q \<le> 3" "walk m' r q = Some u" for q u
    using that w walks unfolding path_writes_def by blast
  ultimately show ?thesis unfolding path_writes_def by blast
qed

text \<open>The state of a mapping operation that has reached depth \<open>k\<close> of \<open>path\<close>, starting from memory \<open>m0\<close>.\<close>

definition build_inv ::
  "virt_addr \<Rightarrow> u64 \<Rightarrow> table_memory \<Rightarrow> nat list \<Rightarrow> u64 set \<Rightarrow> nat \<Rightarrow> phys_addr \<Rightarrow> table_memory \<Rightarrow>
   phys_frame set \<Rightarrow> bool" where
  "build_inv h r m0 path A k t m F =
     (pt_wf h r m \<and> frames_fresh h r m F \<and> walk m r (take k path) = Some (pa t) \<and>
      tree_le r m0 m \<and> writes_tables r m0 m \<and> path_writes r path A m0 m \<and>
      (\<forall>q u. length q \<le> 3 \<longrightarrow> walk m r q = Some u \<longrightarrow> walk m0 r q = Some u \<or> length q \<le> k))"

lemma build_inv_start:
  "pt_wf h r m \<Longrightarrow> frames_fresh h r m F \<Longrightarrow> build_inv h r m path A 0 (PhysAddr r) m F"
  by (simp add: build_inv_def)

lemma build_inv_leaf:
  assumes b: "build_inv h r m0 path A k t m F" and k: "k \<in> {1, 2, 3}"
    and path: "length path = 4" "\<forall>i \<in> set path. i < 512"
    and free: "k = 3 \<or> walk m0 r (take (Suc k) path) = None" and e: "stops k e"
  defines "m' \<equiv> m(pa t := (m (pa t))[path ! k := e])"
  shows "table_at h m t = Some (m (pa t))" "path ! k < length (m (pa t))" "pt_wf h r m'"
    "frames_fresh h r m' F" "writes_tables r m0 m'" "path_writes r path A m0 m'"
    "length q = 4 \<Longrightarrow> resolve m' r q =
      (if take (Suc k) q = take (Suc k) path then if pte_is_present e then Some (3 - k, e) else None
       else resolve m0 r q)"
proof -
  have wf: "pt_wf h r m" and w: "walk m r (take k path) = Some (pa t)" using b by (simp_all add: build_inv_def)
  have lk: "length (take k path) = k" and k4: "k < length path" using k path(1) by auto
  have i: "path ! k < 512" using path(2) k4 by simp
  have sk: "take (Suc k) path = take k path @ [path ! k]" using k4 by (rule take_Suc_conv_app_nth)
  show "table_at h m t = Some (m (pa t))"
    using table_at_accessible pt_wfD(2) [OF wf] walk_in_tables [OF w] lk k by auto
  show "path ! k < length (m (pa t))" using i pt_wfD(1) [OF wf] by simp
  have old: "stops k (m (pa t) ! (path ! k))"
  proof (rule ccontr)
    assume s: "\<not> stops k (m (pa t) ! (path ! k))"
    then have "\<exists>u. walk m r (take (Suc k) path) = Some u"
      using w i by (auto simp: sk walk_append stops_def Let_def)
    moreover have "length (take (Suc k) path) \<le> 3" "\<not> length (take (Suc k) path) \<le> k"
      using s k k4 by (auto simp: stops_def)
    ultimately have "walk m0 r (take (Suc k) path) \<noteq> None" using b unfolding build_inv_def by blast
    then show False using free s by (auto simp: stops_def)
  qed
  note lw = leaf_write [OF wf w, unfolded lk, OF k i old e, folded m'_def sk]
  show "pt_wf h r m'" by (rule lw)
  show "frames_fresh h r m' F" using b lw(2) by (auto simp: build_inv_def frames_fresh_def tables_def)
  have tab: "tables m' r = tables m r" using lw(2) by (auto simp: tables_def)
  have "pa t \<in> tables m r" using walk_in_tables [OF w] lk k by auto
  then have "writes_tables r m m'" unfolding writes_tables_def tab by (auto simp: m'_def)
  then show "writes_tables r m0 m'" using b by (auto simp: build_inv_def intro: writes_tables_trans)
  show "path_writes r path A m0 m'"
  proof (rule path_writes_step [OF _ w])
    show "path_writes r path A m0 m" using b by (simp add: build_inv_def)
    show "k \<le> 3" using k by auto
    show "\<forall>u. m' u \<noteq> m u \<longrightarrow> u = pa t \<or> u \<in> A" by (simp add: m'_def)
    show "\<forall>q u. length q \<le> 3 \<longrightarrow> walk m' r q = Some u \<longrightarrow> walk m r q = Some u \<or> u \<in> A" using lw(2) by auto
  qed
  show "length q = 4 \<Longrightarrow> resolve m' r q =
      (if take (Suc k) q = take (Suc k) path then if pte_is_present e then Some (3 - k, e) else None
       else resolve m0 r q)"
    using lw(3) [of q] b by (simp add: build_inv_def tree_le_def)
qed

definition leaf_set :: "u64 \<Rightarrow> table_memory \<Rightarrow> virt_addr \<Rightarrow> nat \<Rightarrow> page_table_entry \<Rightarrow> table_memory \<Rightarrow> bool" where
  "leaf_set r m v k e m' = (\<forall>q. length q = 4 \<longrightarrow> resolve m' r q =
     (if take (Suc k) q = take (Suc k) (indices v) then if pte_is_present e then Some (3 - k, e) else None
      else resolve m r q))"

lemma indices_range [simp]: "\<forall>i \<in> set (indices v). i < 512" by (simp add: indices_def)

lemma indices_nth:
  "indices v ! 0 = page_table_index_as_usize (pml4_index v)"
  "indices v ! Suc 0 = page_table_index_as_usize (pdpt_index v)"
  "indices v ! Suc (Suc 0) = page_table_index_as_usize (pd_index v)"
  "indices v ! Suc (Suc (Suc 0)) = page_table_index_as_usize (pt_index v)"
  by (simp_all add: indices_def)

lemma phys_addr_is_aligned_huge:
  "phys_addr_is_aligned p 0x200000 = Some (2 ^ 21 dvd unat (pa p))"
  "phys_addr_is_aligned p 0x40000000 = Some (2 ^ 30 dvd unat (pa p))"
  using phys_addr_is_aligned_eq [of 21 p] phys_addr_is_aligned_eq [of 30 p] by simp_all

context frame_allocator
begin

lemma ensure_table_spec:
  assumes wf: "pt_wf h r m" and fresh: "frames_fresh h r m (avail s \<union> X)" and s: "ainv s" "avail s \<noteq> {}"
    and X: "avail s \<inter> X = {}" and p: "walk m r p = Some (pa t)" "length p \<le> 2" and i: "i < 512"
    and clear: "pte_is_present (m (pa t) ! i) \<Longrightarrow> \<not> pte_huge (m (pa t) ! i)"
    and f: "bit f 0" "\<not> bit f 7" "f AND ADDR_MASK = 0"
  shows "\<exists>t' m' s'. ensure_table (expect_frame alloc) h t i f m s = Some (t', m', s') \<and>
    pt_wf h r m' \<and> frames_fresh h r m' (avail s' \<union> X) \<and> ainv s' \<and> avail s' \<subseteq> avail s \<and>
    card (avail s) \<le> Suc (card (avail s')) \<and> tree_le r m m' \<and> writes_tables r m m' \<and> walk m' r (p @ [i]) = Some (pa t') \<and>
    (\<forall>q u. length q \<le> 3 \<longrightarrow> walk m' r q = Some u \<longrightarrow>
      walk m r q = Some u \<or> q = p @ [i] \<and> u \<in> frame_addrs (avail s)) \<and>
    (\<forall>u. m' u \<noteq> m u \<longrightarrow> u = pa t \<or> u \<in> frame_addrs (avail s))"
proof -
  note len = pt_wfD(1) [OF wf]
  have lp: "length p \<le> 3" using p(2) by simp
  have acc: "table_at h m t = Some (m (pa t))"
    using table_at_accessible pt_wfD(2) [OF wf] walk_in_tables [OF p(1) lp] by blast
  define e where "e = m (pa t) ! i"
  show ?thesis
  proof (cases "pte_is_present e")
    case True
    define e' where "e' = (if pte_flags e OR f \<noteq> pte_flags e then pte_new (pte_address e) (pte_flags e OR f) else e)"
    define m' where "m' = m(pa t := (m (pa t))[i := e'])"
    have huge: "\<not> pte_huge e" using clear True by (simp add: e_def)
    have e': "pte_is_present e'" "\<not> pte_huge e'" "pte_address e' = pte_address e"
      using combined_flags [OF f True huge] True huge by (simp_all add: e'_def)
    note w = reflag_write [OF wf p i, folded e_def, OF True huge e', folded m'_def]
    have "ensure_table (expect_frame alloc) h t i f m s = Some (pte_address e, m', s)"
      using True i len by (auto simp: ensure_table_def acc e'_def m'_def e_def)
    moreover have "frames_fresh h r m' (avail s \<union> X)"
      using fresh w(3) by (auto simp: frames_fresh_def tables_def)
    moreover have "walk m' r (p @ [i]) = Some (pa (pte_address e))"
      using w(3) [of "p @ [i]"] p True huge i by (simp add: walk_append Let_def e_def)
    moreover have "writes_tables r m m'"
      using tree_le_tables [OF w(2)] walk_in_tables [OF p(1) lp] by (auto simp: writes_tables_def m'_def)
    moreover have "\<forall>u. m' u \<noteq> m u \<longrightarrow> u = pa t" by (simp add: m'_def)
    ultimately show ?thesis using w s(1) by auto
  next
    case False
    from alloc_law [OF s(1)] s(2) obtain g s' where a: "alloc s = Some (Some g, s')" "ainv s'"
      "g \<in> avail s" "avail s' = avail s - {g}" by (auto split: option.splits)
    have g: "pa (frame_start g) \<notin> tables m r" "accessible h (pa (frame_start g))"
      using fresh a(3) by (auto simp: frames_fresh_def)
    have ok: "phys_ok (frame_start g)" "4096 dvd unat (pa (frame_start g))"
      using tracked_ok [OF s(1)] avail_tracked [OF s(1)] a(3) by (auto simp: phys_frame_ok_def)
    define e' where "e' = pte_new (frame_start g) f"
    have e': "pte_is_present e'" "\<not> pte_huge e'" "pa (pte_address e') = pa (frame_start g)"
      using f pte_address_new [OF ok f(3)] by (simp_all add: e'_def)
    define m' where "m' = m(pa (frame_start g) := replicate 512 pte_empty, pa t := (m (pa t))[i := e'])"
    note w = link_write [OF wf p i, folded e_def, OF False g e', folded m'_def]
    have tg: "pa t \<noteq> pa (frame_start g)" using walk_in_tables [OF p(1) lp] g(1) by auto
    obtain v where "mapper_phys_to_virt h (frame_start g) = Some v"
      using phys_to_virt_accessible [OF g(2)] by blast
    then have "ensure_table (expect_frame alloc) h t i f m s = Some (frame_start g, m', s')"
      using False i len tg by (simp add: ensure_table_def acc e_def expect_frame_def a(1) m'_def e'_def Let_def)
    moreover have "frames_fresh h r m' (avail s' \<union> X)"
    proof (rule frames_fresh_tables [OF fresh])
      fix u assume "u \<in> tables m' r"
      moreover have "g \<notin> avail s' \<union> X" using a(3,4) X by blast
      then have "\<forall>f \<in> avail s' \<union> X. pa (frame_start f) \<noteq> pa (frame_start g)"
        by (metis phys_addr.expand phys_frame.expand)
      ultimately show "u \<in> tables m r \<or> (\<forall>f \<in> avail s' \<union> X. pa (frame_start f) \<noteq> u)"
        using w(4) by (fastforce simp: tables_def)
    qed (auto simp: a(4))
    moreover have "\<forall>q u. length q \<le> 3 \<longrightarrow> walk m' r q = Some u \<longrightarrow>
        walk m r q = Some u \<or> q = p @ [i] \<and> u \<in> frame_addrs (avail s)"
      using w(4) a(3) by blast
    moreover have "\<forall>u. m' u \<noteq> m u \<longrightarrow> u = pa t \<or> u \<in> frame_addrs (avail s)" using a(3) by (simp add: m'_def)
    moreover have "writes_tables r m m'"
      using tree_le_tables [OF w(2)] walk_in_tables [OF p(1) lp] walk_in_tables [OF w(3)] p(2)
      by (auto simp: writes_tables_def m'_def)
    ultimately show ?thesis using w(1-3) a avail_finite [OF s(1)] by (auto simp: card_Diff_singleton)
  qed
qed

lemma build_inv_step:
  assumes b: "build_inv h r m0 path A k t m (avail s \<union> X)" and A: "frame_addrs (avail s) \<subseteq> A" and s: "ainv s" "avail s \<noteq> {}" and X: "avail s \<inter> X = {}"
    and k: "k \<le> 2"
    and path: "length path = 4" "\<forall>i \<in> set path. i < 512"
    and free: "\<forall>d e. resolve m0 r path = Some (d, e) \<longrightarrow> d < 3 - k"
    and f: "bit f 0" "\<not> bit f 7" "f AND ADDR_MASK = 0"
  shows "\<exists>t' m' s'. ensure_table (expect_frame alloc) h t (path ! k) f m s = Some (t', m', s') \<and>
    ainv s' \<and> avail s' \<subseteq> avail s \<and> card (avail s) \<le> Suc (card (avail s')) \<and>
    build_inv h r m0 path A (Suc k) t' m' (avail s' \<union> X)"
proof -
  have k4: "k < length path" using k path(1) by simp
  have sk: "take (Suc k) path = take k path @ [path ! k]" using k4 by (rule take_Suc_conv_app_nth)
  have w: "walk m r (take k path) = Some (pa t)" using b by (simp add: build_inv_def)
  have i: "path ! k < 512" using path(2) k4 by simp
  have clear: "\<not> pte_huge (m (pa t) ! (path ! k))" if "pte_is_present (m (pa t) ! (path ! k))"
  proof
    assume "pte_huge (m (pa t) ! (path ! k))"
    moreover have "path = take k path @ path ! k # drop (Suc k) path" using k4 by (rule id_take_nth_drop)
    ultimately have "resolve m r path = Some (length (drop (Suc k) path), m (pa t) ! (path ! k))"
      using resolve_append [OF w, of "path ! k # drop (Suc k) path"] that i by (simp add: Let_def)
    then have "resolve m0 r path = Some (3 - k, m (pa t) ! (path ! k))"
      using b path(1) by (simp add: build_inv_def tree_le_def)
    then show False using free by blast
  qed
  have wf: "pt_wf h r m" and fr: "frames_fresh h r m (avail s \<union> X)"
    using b by (auto simp: build_inv_def)
  have lk: "length (take k path) \<le> 2" using k by simp
  from ensure_table_spec [OF wf fr s X w lk i clear f, folded sk] obtain t' m' s' where e: "ensure_table (expect_frame alloc) h t (path ! k) f m s = Some (t', m', s')"
    "pt_wf h r m'" "frames_fresh h r m' (avail s' \<union> X)" "ainv s'" "avail s' \<subseteq> avail s"
    "card (avail s) \<le> Suc (card (avail s'))" "tree_le r m m'" "walk m' r (take (Suc k) path) = Some (pa t')"
    "\<forall>q u. length q \<le> 3 \<longrightarrow> walk m' r q = Some u \<longrightarrow>
      walk m r q = Some u \<or> q = take (Suc k) path \<and> u \<in> frame_addrs (avail s)"
    "writes_tables r m m'" "\<forall>u. m' u \<noteq> m u \<longrightarrow> u = pa t \<or> u \<in> frame_addrs (avail s)" by blast
  have "build_inv h r m0 path A (Suc k) t' m' (avail s' \<union> X)"
    unfolding build_inv_def
  proof (intro conjI allI impI)
    show "tree_le r m0 m'" using b e(7) tree_le_trans by (auto simp: build_inv_def)
    show "writes_tables r m0 m'"
      using b e(10) by (auto simp: build_inv_def intro: writes_tables_trans)
    show "path_writes r path A m0 m'"
    proof (rule path_writes_step [OF _ w])
      show "path_writes r path A m0 m" using b by (simp add: build_inv_def)
      show "k \<le> 3" using k by simp
    qed (use e(9,11) A in blast)+
    fix q u assume "length q \<le> 3" "walk m' r q = Some u"
    then have "walk m r q = Some u \<or> q = take (Suc k) path" using e(9) by blast
    then show "walk m0 r q = Some u \<or> length q \<le> Suc k"
      using b \<open>length q \<le> 3\<close> unfolding build_inv_def by (metis le_SucI length_take min.cobounded2)
  qed (use e in auto)
  then show ?thesis using e by blast
qed

lemma map_specs:
  assumes wf: "pt_wf h r m" and fresh: "frames_fresh h r m (avail s \<union> X)" and s: "ainv s" "3 \<le> card (avail s)"
    and X: "avail s \<inter> X = {}"
  shows map_4k_spec: "4096 dvd unat (pa p) \<Longrightarrow> \<forall>d e. resolve m r (indices v) = Some (d, e) \<longrightarrow> d = 0 \<Longrightarrow>
      \<exists>m' s'. map_4k (expect_frame alloc) h (PhysAddr r) v p fl m s = Some (m', s') \<and> ainv s' \<and>
        avail s' \<subseteq> avail s \<and> card (avail s) \<le> card (avail s') + 3 \<and> pt_wf h r m' \<and>
        frames_fresh h r m' (avail s' \<union> X) \<and> writes_tables r m m' \<and>
        path_writes r (indices v) (frame_addrs (avail s)) m m' \<and> leaf_set r m v 3 (pte_new p fl) m'"
    and map_2mib_spec: "2 ^ 21 dvd unat (pa p) \<Longrightarrow> \<forall>d e. resolve m r (indices v) = Some (d, e) \<longrightarrow> d < 2 \<Longrightarrow>
      walk m r (take 3 (indices v)) = None \<Longrightarrow>
      \<exists>m' s'. map_2mib (expect_frame alloc) h (PhysAddr r) v p fl m s = Some (m', s') \<and> ainv s' \<and>
        avail s' \<subseteq> avail s \<and> card (avail s) \<le> card (avail s') + 3 \<and> pt_wf h r m' \<and>
        frames_fresh h r m' (avail s' \<union> X) \<and> writes_tables r m m' \<and>
        path_writes r (indices v) (frame_addrs (avail s)) m m' \<and> leaf_set r m v 2 (pte_new p (fl OR HUGE_PAGE)) m'"
    and map_1gib_spec: "2 ^ 30 dvd unat (pa p) \<Longrightarrow> walk m r (take 2 (indices v)) = None \<Longrightarrow>
      \<exists>m' s'. map_1gib (expect_frame alloc) h (PhysAddr r) v p fl m s = Some (m', s') \<and> ainv s' \<and>
        avail s' \<subseteq> avail s \<and> card (avail s) \<le> card (avail s') + 3 \<and> pt_wf h r m' \<and>
        frames_fresh h r m' (avail s' \<union> X) \<and> writes_tables r m m' \<and>
        path_writes r (indices v) (frame_addrs (avail s)) m m' \<and> leaf_set r m v 1 (pte_new p (fl OR HUGE_PAGE)) m'"
proof -
  note f = intermediate_flags_bits [of fl] and path = length_indices [of v] indices_range [of v]
  let ?A = "frame_addrs (avail s)"
  have b0: "build_inv h r m (indices v) ?A 0 (PhysAddr r) m (avail s \<union> X)" by (rule build_inv_start [OF wf fresh])
  have ne: "avail s \<noteq> {}" using s(2) by auto
  have d3: "\<forall>d e. resolve m r (indices v) = Some (d, e) \<longrightarrow> d < 3 - 0"
    using pt_wfD(4) [OF wf] by (auto simp: indices_def Let_def split: if_splits)
  from build_inv_step [OF b0 order_refl s(1) ne X _ path d3 f] obtain t1 m1 s1 where
    1: "ensure_table (expect_frame alloc) h (PhysAddr r) (indices v ! 0) (intermediate_flags_for fl) m s =
      Some (t1, m1, s1)" "ainv s1" "avail s1 \<subseteq> avail s" "card (avail s) \<le> Suc (card (avail s1))"
    "build_inv h r m (indices v) ?A (Suc 0) t1 m1 (avail s1 \<union> X)" by auto
  have X1: "avail s1 \<noteq> {}" "avail s1 \<inter> X = {}" using 1(3,4) s(2) X by auto
  have A1: "frame_addrs (avail s1) \<subseteq> ?A" using 1(3) by blast
  show "\<exists>m' s'. map_1gib (expect_frame alloc) h (PhysAddr r) v p fl m s = Some (m', s') \<and> ainv s' \<and>
        avail s' \<subseteq> avail s \<and> card (avail s) \<le> card (avail s') + 3 \<and> pt_wf h r m' \<and>
        frames_fresh h r m' (avail s' \<union> X) \<and> writes_tables r m m' \<and>
        path_writes r (indices v) (frame_addrs (avail s)) m m' \<and> leaf_set r m v 1 (pte_new p (fl OR HUGE_PAGE)) m'"
    if a: "2 ^ 30 dvd unat (pa p)" "walk m r (take 2 (indices v)) = None"
  proof -
    have "stops (Suc 0) (pte_new p (fl OR HUGE_PAGE))" by (simp add: stops_def HUGE_PAGE_def bit_or_iff)
    from build_inv_leaf [OF 1(5) _ path _ this] a(2) 1(1-4) a(1) show ?thesis
      by (auto simp: map_1gib_def phys_addr_is_aligned_huge indices_nth leaf_set_def numeral_2_eq_2)
  qed
  have 2: "\<exists>t2 m2 s2. ensure_table (expect_frame alloc) h t1 (indices v ! Suc 0) (intermediate_flags_for fl) m1 s1 =
      Some (t2, m2, s2) \<and> ainv s2 \<and> avail s2 \<subseteq> avail s1 \<and> card (avail s1) \<le> Suc (card (avail s2)) \<and>
      build_inv h r m (indices v) ?A (Suc (Suc 0)) t2 m2 (avail s2 \<union> X)"
    if "\<forall>d e. resolve m r (indices v) = Some (d, e) \<longrightarrow> d < 2"
    using build_inv_step [OF 1(5) A1 1(2) X1 _ path _ f] that by auto
  show "\<exists>m' s'. map_2mib (expect_frame alloc) h (PhysAddr r) v p fl m s = Some (m', s') \<and> ainv s' \<and>
        avail s' \<subseteq> avail s \<and> card (avail s) \<le> card (avail s') + 3 \<and> pt_wf h r m' \<and>
        frames_fresh h r m' (avail s' \<union> X) \<and> writes_tables r m m' \<and>
        path_writes r (indices v) (frame_addrs (avail s)) m m' \<and> leaf_set r m v 2 (pte_new p (fl OR HUGE_PAGE)) m'"
    if a: "2 ^ 21 dvd unat (pa p)" "\<forall>d e. resolve m r (indices v) = Some (d, e) \<longrightarrow> d < 2"
      "walk m r (take 3 (indices v)) = None"
  proof -
    from 2 [OF a(2)] obtain t2 m2 s2 where
      2: "ensure_table (expect_frame alloc) h t1 (indices v ! Suc 0) (intermediate_flags_for fl) m1 s1 =
        Some (t2, m2, s2)" "ainv s2" "avail s2 \<subseteq> avail s1" "card (avail s1) \<le> Suc (card (avail s2))"
      "build_inv h r m (indices v) ?A (Suc (Suc 0)) t2 m2 (avail s2 \<union> X)" by blast
    have "stops (Suc (Suc 0)) (pte_new p (fl OR HUGE_PAGE))" by (simp add: stops_def HUGE_PAGE_def bit_or_iff)
    from build_inv_leaf [OF 2(5) _ path _ this] a 1(1-4) 2(1-4) show ?thesis
      by (auto simp: map_2mib_def phys_addr_is_aligned_huge indices_nth leaf_set_def numeral_2_eq_2 numeral_3_eq_3)
  qed
  show "\<exists>m' s'. map_4k (expect_frame alloc) h (PhysAddr r) v p fl m s = Some (m', s') \<and> ainv s' \<and>
        avail s' \<subseteq> avail s \<and> card (avail s) \<le> card (avail s') + 3 \<and> pt_wf h r m' \<and>
        frames_fresh h r m' (avail s' \<union> X) \<and> writes_tables r m m' \<and>
        path_writes r (indices v) (frame_addrs (avail s)) m m' \<and> leaf_set r m v 3 (pte_new p fl) m'"
    if a: "4096 dvd unat (pa p)" "\<forall>d e. resolve m r (indices v) = Some (d, e) \<longrightarrow> d = 0"
  proof -
    from 2 a(2) obtain t2 m2 s2 where
      2: "ensure_table (expect_frame alloc) h t1 (indices v ! Suc 0) (intermediate_flags_for fl) m1 s1 =
        Some (t2, m2, s2)" "ainv s2" "avail s2 \<subseteq> avail s1" "card (avail s1) \<le> Suc (card (avail s2))"
      "build_inv h r m (indices v) ?A (Suc (Suc 0)) t2 m2 (avail s2 \<union> X)" by fastforce
    have X2: "avail s2 \<noteq> {}" "avail s2 \<inter> X = {}" using 1(4) 2(3,4) s(2) X1(2) by auto
    have A2: "frame_addrs (avail s2) \<subseteq> ?A" using 2(3) A1 by blast
    from build_inv_step [OF 2(5) A2 2(2) X2 _ path _ f] a(2) obtain t3 m3 s3 where
      3: "ensure_table (expect_frame alloc) h t2 (indices v ! Suc (Suc 0)) (intermediate_flags_for fl) m2 s2 =
        Some (t3, m3, s3)" "ainv s3" "avail s3 \<subseteq> avail s2" "card (avail s2) \<le> Suc (card (avail s3))"
      "build_inv h r m (indices v) ?A (Suc (Suc (Suc 0))) t3 m3 (avail s3 \<union> X)" by auto
    have "stops (Suc (Suc (Suc 0))) (pte_new p fl)" by (simp add: stops_def)
    from build_inv_leaf [OF 3(5) _ path _ this] a 1(1-4) 2(1-4) 3(1-4) show ?thesis
      by (auto simp: map_4k_def phys_addr_is_aligned_4096 indices_nth leaf_set_def numeral_2_eq_2 numeral_3_eq_3)
  qed
qed

end

section \<open>Translation, unmapping and protection\<close>

fun decode :: "(nat \<times> page_table_entry) option \<Rightarrow> translate_result" where
  "decode None = TNotMapped"
| "decode (Some (d, e)) =
     (if d = 0 then Page4KiB (PhysFrame (pte_address e)) (pte_flags e)
      else if d = 1 then Page2MiB (pte_address e) (pte_flags e)
      else Page1GiB (pte_address e) (pte_flags e))"

text \<open>The tables on the way to \<open>v\<close>, as the code reads them.\<close>

lemma table_at_levels:
  fixes v :: virt_addr
  assumes wf: "pt_wf h r m"
  defines "e0 \<equiv> m r ! (indices v ! 0)"
  defines "e1 \<equiv> m (pa (pte_address e0)) ! (indices v ! Suc 0)"
  defines "e2 \<equiv> m (pa (pte_address e1)) ! (indices v ! Suc (Suc 0))"
  shows "table_at h m (PhysAddr r) = Some (m r)"
    "pte_is_present e0 \<Longrightarrow> table_at h m (pte_address e0) = Some (m (pa (pte_address e0)))"
    "pte_is_present e0 \<Longrightarrow> pte_is_present e1 \<Longrightarrow> \<not> pte_huge e1 \<Longrightarrow>
       table_at h m (pte_address e1) = Some (m (pa (pte_address e1)))"
    "pte_is_present e0 \<Longrightarrow> pte_is_present e1 \<Longrightarrow> \<not> pte_huge e1 \<Longrightarrow> pte_is_present e2 \<Longrightarrow> \<not> pte_huge e2 \<Longrightarrow>
       table_at h m (pte_address e2) = Some (m (pa (pte_address e2)))"
proof -
  have r0: "\<not> pte_huge e0" using pt_wfD(4) [OF wf] by (simp add: e0_def indices_nth)
  have acc: "table_at h m t = Some (m (pa t))" if "walk m r q = Some (pa t)" "length q \<le> 3" for q t
    using table_at_accessible pt_wfD(2) [OF wf] walk_in_tables [OF that] by blast
  show "table_at h m (PhysAddr r) = Some (m r)" using acc [of "[]" "PhysAddr r"] by simp
  assume p0: "pte_is_present e0"
  then show "table_at h m (pte_address e0) = Some (m (pa (pte_address e0)))"
    using acc [of "[indices v ! 0]"] r0 by (simp add: e0_def indices_nth)
  assume p1: "pte_is_present e1" "\<not> pte_huge e1"
  then show "table_at h m (pte_address e1) = Some (m (pa (pte_address e1)))"
    using acc [of "[indices v ! 0, indices v ! Suc 0]"] r0 p0 by (simp add: e0_def e1_def indices_nth)
  assume p2: "pte_is_present e2" "\<not> pte_huge e2"
  then show "table_at h m (pte_address e2) = Some (m (pa (pte_address e2)))"
    using acc [of "[indices v ! 0, indices v ! Suc 0, indices v ! Suc (Suc 0)]"] r0 p0 p1
    by (simp add: e0_def e1_def e2_def indices_nth)
qed

lemma aligned_frame [simp]: "pa (pte_address e) AND NOT (mask 12) = pa (pte_address e)"
  by (rule and_not_mask_aligned) (use pte_address_aligned in simp)

lemma translate_resolve:
  assumes wf: "pt_wf h r m"
  shows "translate h (PhysAddr r) v m = Some (decode (resolve m r (indices v)))"
  using pt_wfD(4) [OF wf, of "page_table_index_as_usize (pml4_index v)"] table_at_levels(1) [OF wf]
    table_at_levels(2-4) [OF wf, of v]
  by (simp add: translate_def indices_def pt_wfD(1) [OF wf] phys_frame_containing_address_eq Let_def
      flip: pte_huge_def)

lemma walk_levels:
  fixes v :: virt_addr
  assumes wf: "pt_wf h r m"
  defines "e0 \<equiv> m r ! (indices v ! 0)"
  defines "e1 \<equiv> m (pa (pte_address e0)) ! (indices v ! Suc 0)"
  defines "e2 \<equiv> m (pa (pte_address e1)) ! (indices v ! Suc (Suc 0))"
  shows "walk m r (take 1 (indices v)) = (if pte_is_present e0 then Some (pa (pte_address e0)) else None)"
    "walk m r (take 2 (indices v)) =
      (if pte_is_present e0 \<and> pte_is_present e1 \<and> \<not> pte_huge e1 then Some (pa (pte_address e1)) else None)"
    "walk m r (take 3 (indices v)) =
      (if pte_is_present e0 \<and> pte_is_present e1 \<and> \<not> pte_huge e1 \<and> pte_is_present e2 \<and> \<not> pte_huge e2
       then Some (pa (pte_address e2)) else None)"
  using pt_wfD(4) [OF wf, of "page_table_index_as_usize (pml4_index v)"]
  by (auto simp: e0_def e1_def e2_def indices_def Let_def)

lemma unmap_4k_eq:
  assumes wf: "pt_wf h r m"
  shows "walk m r (take 3 (indices v)) = None \<Longrightarrow> \<exists>err. unmap_4k h (PhysAddr r) v m = Some (Inl err, m)"
    and "walk m r (take 3 (indices v)) = Some t \<Longrightarrow> unmap_4k h (PhysAddr r) v m =
      (let e = m t ! (indices v ! 3)
       in if pte_is_present e then Some (Inr (PhysFrame (pte_address e)), m(t := (m t)[indices v ! 3 := pte_empty]))
          else Some (Inl NotMapped, m))"
  using table_at_levels(1) [OF wf] table_at_levels(2-4) [OF wf, of v] walk_levels(3) [OF wf, of v]
  by (auto simp: unmap_4k_def indices_nth numeral_3_eq_3 pt_wfD(1) [OF wf] phys_frame_containing_address_eq Let_def
      simp flip: pte_huge_def split: if_splits)

lemma update_flags_4k_eq:
  assumes wf: "pt_wf h r m"
  shows "walk m r (take 3 (indices v)) = None \<Longrightarrow> \<exists>err. update_flags_4k h (PhysAddr r) v fl m = Some (Inl err, m)"
    and "walk m r (take 3 (indices v)) = Some t \<Longrightarrow> update_flags_4k h (PhysAddr r) v fl m =
      (let e = m t ! (indices v ! 3)
       in if pte_is_present e then Some (Inr (), m(t := (m t)[indices v ! 3 := pte_new (pte_address e) fl]))
          else Some (Inl NotMapped, m))"
  using table_at_levels(1) [OF wf] table_at_levels(2-4) [OF wf, of v] walk_levels(3) [OF wf, of v]
  by (auto simp: update_flags_4k_def indices_nth numeral_3_eq_3 pt_wfD(1) [OF wf] Let_def
      simp flip: pte_huge_def split: if_splits)

lemma unmap_2mib_eq:
  assumes wf: "pt_wf h r m"
  shows "walk m r (take 2 (indices v)) = None \<Longrightarrow> \<exists>err. unmap_2mib h (PhysAddr r) v m = Some (Inl err, m)"
    and "walk m r (take 2 (indices v)) = Some t \<Longrightarrow> unmap_2mib h (PhysAddr r) v m =
      (let e = m t ! (indices v ! 2)
       in if pte_is_present e \<and> pte_huge e
          then Some (Inr (PhysFrame (PhysAddr (pa (pte_address e) AND NOT (mask 21)))),
                     m(t := (m t)[indices v ! 2 := pte_empty]))
          else Some (Inl (if pte_is_present e then HugePage else NotMapped), m))"
  using table_at_levels(1) [OF wf] table_at_levels(2-4) [OF wf, of v] walk_levels(2) [OF wf, of v]
  by (auto simp: unmap_2mib_def indices_nth numeral_2_eq_2 pt_wfD(1) [OF wf] phys_frame_containing_address_eq
      Let_def simp flip: pte_huge_def split: if_splits)

lemma update_flags_2mib_eq:
  assumes wf: "pt_wf h r m"
  shows "walk m r (take 2 (indices v)) = None \<Longrightarrow> \<exists>err. update_flags_2mib h (PhysAddr r) v fl m = Some (Inl err, m)"
    and "walk m r (take 2 (indices v)) = Some t \<Longrightarrow> update_flags_2mib h (PhysAddr r) v fl m =
      (let e = m t ! (indices v ! 2)
       in if pte_is_present e \<and> pte_huge e
          then Some (Inr (), m(t := (m t)[indices v ! 2 := pte_new (pte_address e) (fl OR HUGE_PAGE)]))
          else Some (Inl (if pte_is_present e then HugePage else NotMapped), m))"
  using table_at_levels(1) [OF wf] table_at_levels(2-4) [OF wf, of v] walk_levels(2) [OF wf, of v]
  by (auto simp: update_flags_2mib_def indices_nth numeral_2_eq_2 pt_wfD(1) [OF wf]
      Let_def simp flip: pte_huge_def split: if_splits)

lemma unmap_1gib_eq:
  assumes wf: "pt_wf h r m"
  shows "walk m r (take 1 (indices v)) = None \<Longrightarrow> \<exists>err. unmap_1gib h (PhysAddr r) v m = Some (Inl err, m)"
    and "walk m r (take 1 (indices v)) = Some t \<Longrightarrow> unmap_1gib h (PhysAddr r) v m =
      (let e = m t ! (indices v ! 1)
       in if pte_is_present e \<and> pte_huge e
          then Some (Inr (PhysFrame (PhysAddr (pa (pte_address e) AND NOT (mask 30)))),
                     m(t := (m t)[indices v ! 1 := pte_empty]))
          else Some (Inl (if pte_is_present e then HugePage else NotMapped), m))"
  using table_at_levels(1) [OF wf] table_at_levels(2-4) [OF wf, of v] walk_levels(1) [OF wf, of v]
  by (auto simp: unmap_1gib_def indices_nth pt_wfD(1) [OF wf] phys_frame_containing_address_eq
      Let_def simp flip: pte_huge_def split: if_splits)

lemma update_flags_1gib_eq:
  assumes wf: "pt_wf h r m"
  shows "walk m r (take 1 (indices v)) = None \<Longrightarrow> \<exists>err. update_flags_1gib h (PhysAddr r) v fl m = Some (Inl err, m)"
    and "walk m r (take 1 (indices v)) = Some t \<Longrightarrow> update_flags_1gib h (PhysAddr r) v fl m =
      (let e = m t ! (indices v ! 1)
       in if pte_is_present e \<and> pte_huge e
          then Some (Inr (), m(t := (m t)[indices v ! 1 := pte_new (pte_address e) (fl OR HUGE_PAGE)]))
          else Some (Inl (if pte_is_present e then HugePage else NotMapped), m))"
  using table_at_levels(1) [OF wf] table_at_levels(2-4) [OF wf, of v] walk_levels(1) [OF wf, of v]
  by (auto simp: update_flags_1gib_def indices_nth pt_wfD(1) [OF wf]
      Let_def simp flip: pte_huge_def split: if_splits)

text \<open>The three page sizes at once: the depth of the leaf entry and the flags it carries.\<close>

fun leaf_depth :: "page_size \<Rightarrow> nat" where
  "leaf_depth Size4KiB = 3" | "leaf_depth Size2MiB = 2" | "leaf_depth Size1GiB = 1"

fun leaf_flags :: "page_size \<Rightarrow> page_table_flags \<Rightarrow> page_table_flags" where
  "leaf_flags Size4KiB fl = fl" | "leaf_flags Size2MiB fl = fl OR HUGE_PAGE" | "leaf_flags Size1GiB fl = fl OR HUGE_PAGE"

definition is_leaf :: "page_size \<Rightarrow> page_table_entry \<Rightarrow> bool" where
  "is_leaf sz e = (pte_is_present e \<and> (sz \<noteq> Size4KiB \<longrightarrow> pte_huge e))"

lemma page_mapper_unmap_eq:
  fixes pg :: page and sz :: page_size
  assumes wf: "pt_wf h r m"
  defines "v \<equiv> page_start pg" and "k \<equiv> leaf_depth sz"
  shows "\<exists>err. page_mapper_unmap sz h (PhysAddr r) pg m =
    (case walk m r (take k (indices v)) of None \<Rightarrow> Some (Inl err, m)
     | Some t \<Rightarrow> let e = m t ! (indices v ! k)
         in if is_leaf sz e then Some (Inr (PhysFrame (PhysAddr (pa (pte_address e) AND NOT (mask (page_shift sz)))),
                  map_flush_new v), m(t := (m t)[indices v ! k := pte_empty]))
            else Some (Inl err, m))"
proof (cases sz)
  case Size4KiB
  show ?thesis
  proof (cases "walk m r (take 3 (indices v))")
    case None
    then show ?thesis using unmap_4k_eq(1) [OF wf, of v] Size4KiB by (auto simp: page_mapper_unmap_def v_def k_def)
  next
    case (Some t)
    then show ?thesis using unmap_4k_eq(2) [OF wf Some] Size4KiB
      by (auto simp: page_mapper_unmap_def v_def k_def is_leaf_def Let_def)
  qed
next
  case Size2MiB
  show ?thesis
  proof (cases "walk m r (take 2 (indices v))")
    case None
    then show ?thesis using unmap_2mib_eq(1) [OF wf, of v] Size2MiB by (auto simp: page_mapper_unmap_def v_def k_def)
  next
    case (Some t)
    then show ?thesis using unmap_2mib_eq(2) [OF wf Some] Size2MiB
      by (auto simp: page_mapper_unmap_def v_def k_def is_leaf_def Let_def)
  qed
next
  case Size1GiB
  show ?thesis
  proof (cases "walk m r (take 1 (indices v))")
    case None
    then show ?thesis using unmap_1gib_eq(1) [OF wf, of v] Size1GiB by (auto simp: page_mapper_unmap_def v_def k_def)
  next
    case (Some t)
    then show ?thesis using unmap_1gib_eq(2) [OF wf Some] Size1GiB
      by (auto simp: page_mapper_unmap_def v_def k_def is_leaf_def Let_def)
  qed
qed

lemma page_mapper_update_flags_eq:
  fixes pg :: page and sz :: page_size
  assumes wf: "pt_wf h r m"
  defines "v \<equiv> page_start pg" and "k \<equiv> leaf_depth sz"
  shows "\<exists>err. page_mapper_update_flags sz h (PhysAddr r) pg fl m =
    (case walk m r (take k (indices v)) of None \<Rightarrow> Some (Inl err, m)
     | Some t \<Rightarrow> let e = m t ! (indices v ! k)
         in if is_leaf sz e then Some (Inr (map_flush_new v), m(t := (m t)[indices v ! k := pte_new (pte_address e) (leaf_flags sz (map_flags_to_native fl))]))
            else Some (Inl err, m))"
proof (cases sz)
  case Size4KiB
  show ?thesis
  proof (cases "walk m r (take 3 (indices v))")
    case None
    then show ?thesis using update_flags_4k_eq(1) [OF wf, of v "map_flags_to_native fl"] Size4KiB by (auto simp: page_mapper_update_flags_def v_def k_def)
  next
    case (Some t)
    then show ?thesis using update_flags_4k_eq(2) [OF wf Some, of "map_flags_to_native fl"] Size4KiB
      by (auto simp: page_mapper_update_flags_def v_def k_def is_leaf_def Let_def)
  qed
next
  case Size2MiB
  show ?thesis
  proof (cases "walk m r (take 2 (indices v))")
    case None
    then show ?thesis using update_flags_2mib_eq(1) [OF wf, of v "map_flags_to_native fl"] Size2MiB by (auto simp: page_mapper_update_flags_def v_def k_def)
  next
    case (Some t)
    then show ?thesis using update_flags_2mib_eq(2) [OF wf Some, of "map_flags_to_native fl"] Size2MiB
      by (auto simp: page_mapper_update_flags_def v_def k_def is_leaf_def Let_def)
  qed
next
  case Size1GiB
  show ?thesis
  proof (cases "walk m r (take 1 (indices v))")
    case None
    then show ?thesis using update_flags_1gib_eq(1) [OF wf, of v "map_flags_to_native fl"] Size1GiB by (auto simp: page_mapper_update_flags_def v_def k_def)
  next
    case (Some t)
    then show ?thesis using update_flags_1gib_eq(2) [OF wf Some, of "map_flags_to_native fl"] Size1GiB
      by (auto simp: page_mapper_update_flags_def v_def k_def is_leaf_def Let_def)
  qed
qed

text \<open>Two canonical addresses lie in one page when their indices agree down to the leaf.\<close>

definition same_page :: "page_size \<Rightarrow> virt_addr \<Rightarrow> virt_addr \<Rightarrow> bool" where
  "same_page sz v w = (unat (va v) div 2 ^ page_shift sz = unat (va w) div 2 ^ page_shift sz)"

lemma digits_below_48:
  fixes a :: nat
  shows "a div 2 ^ 12 mod 2 ^ 36 = ((a div 2 ^ 39 mod 512 * 512 + a div 2 ^ 30 mod 512) * 512
      + a div 2 ^ 21 mod 512) * 512 + a div 2 ^ 12 mod 512"
    "a div 2 ^ 21 mod 2 ^ 27 = (a div 2 ^ 39 mod 512 * 512 + a div 2 ^ 30 mod 512) * 512 + a div 2 ^ 21 mod 512"
    "a div 2 ^ 30 mod 2 ^ 18 = a div 2 ^ 39 mod 512 * 512 + a div 2 ^ 30 mod 512"
proof -
  have split: "x mod (512 * n) = 512 * (x div 512 mod n) + x mod 512" for x n :: nat
    by (simp add: mod_mult2_eq)
  have d: "a div 2 ^ 12 div 512 = a div 2 ^ 21" "a div 2 ^ 21 div 512 = a div 2 ^ 30"
    "a div 2 ^ 30 div 512 = a div 2 ^ 39" by (simp_all add: div_mult2_eq [symmetric])
  show 3: "a div 2 ^ 30 mod 2 ^ 18 = a div 2 ^ 39 mod 512 * 512 + a div 2 ^ 30 mod 512"
    using split [of "a div 2 ^ 30" 512] d by simp
  show 2: "a div 2 ^ 21 mod 2 ^ 27 = (a div 2 ^ 39 mod 512 * 512 + a div 2 ^ 30 mod 512) * 512 + a div 2 ^ 21 mod 512"
    using split [of "a div 2 ^ 21" "2 ^ 18"] d 3 by simp
  show "a div 2 ^ 12 mod 2 ^ 36 = ((a div 2 ^ 39 mod 512 * 512 + a div 2 ^ 30 mod 512) * 512
      + a div 2 ^ 21 mod 512) * 512 + a div 2 ^ 12 mod 512"
    using split [of "a div 2 ^ 12" "2 ^ 27"] d 2 by simp
qed

lemma canonical_div_inj:
  assumes c: "canonical a" "canonical b" and s: "s \<le> 47"
    and e: "unat a div 2 ^ s mod 2 ^ (48 - s) = unat b div 2 ^ s mod 2 ^ (48 - s)"
  shows "unat a div 2 ^ s = unat b div 2 ^ s"
proof -
  have down: "unat (x AND NOT (mask s)) = 2 ^ s * (unat x div 2 ^ s)" for x :: u64
    by (simp add: unat_and_not_mask minus_mod_eq_mult_div)
  have p: "(2 :: nat) ^ 48 = 2 ^ s * 2 ^ (48 - s)" using s by (simp flip: power_add)
  have "unat (a AND NOT (mask s)) mod 2 ^ 48 = unat (b AND NOT (mask s)) mod 2 ^ 48"
    unfolding down p by (simp only: mult_mod_right [symmetric] e)
  then have "a AND NOT (mask s) = b AND NOT (mask s)"
    using canonical_mod_inj canonical_and_not_mask c s by blast
  then have "2 ^ s * (unat a div 2 ^ s) = 2 ^ s * (unat b div 2 ^ s)" by (metis down)
  then show ?thesis by simp
qed

lemma take_indices_eq_iff:
  assumes "virt_ok v" "virt_ok w"
  shows "take (Suc (leaf_depth sz)) (indices v) = take (Suc (leaf_depth sz)) (indices w) \<longleftrightarrow> same_page sz v w"
proof
  assume t: "take (Suc (leaf_depth sz)) (indices v) = take (Suc (leaf_depth sz)) (indices w)"
  show "same_page sz v w"
    unfolding same_page_def
  proof (rule canonical_div_inj)
    show "unat (va v) div 2 ^ page_shift sz mod 2 ^ (48 - page_shift sz) =
        unat (va w) div 2 ^ page_shift sz mod 2 ^ (48 - page_shift sz)"
    proof (cases sz)
      case Size4KiB
      have "unat (va v) div 2 ^ 12 mod 2 ^ 36 = unat (va w) div 2 ^ 12 mod 2 ^ 36"
        unfolding digits_below_48 index_unat [symmetric] using t by (simp add: Size4KiB indices_def)
      then show ?thesis by (simp add: Size4KiB)
    next
      case Size2MiB
      have "unat (va v) div 2 ^ 21 mod 2 ^ 27 = unat (va w) div 2 ^ 21 mod 2 ^ 27"
        unfolding digits_below_48 index_unat [symmetric] using t by (simp add: Size2MiB indices_def)
      then show ?thesis by (simp add: Size2MiB)
    next
      case Size1GiB
      have "unat (va v) div 2 ^ 30 mod 2 ^ 18 = unat (va w) div 2 ^ 30 mod 2 ^ 18"
        unfolding digits_below_48 index_unat [symmetric] using t by (simp add: Size1GiB indices_def)
      then show ?thesis by (simp add: Size1GiB)
    qed
  qed (use assms page_shift_bounds [of sz] in \<open>auto simp: virt_ok_def\<close>)
next
  assume "same_page sz v w"
  then have s: "unat (va v) div 2 ^ page_shift sz = unat (va w) div 2 ^ page_shift sz"
    by (simp add: same_page_def)
  have *: "unat (va v) div 2 ^ n = unat (va w) div 2 ^ n" if "page_shift sz \<le> n" for n
  proof -
    have "x div 2 ^ n = x div 2 ^ page_shift sz div 2 ^ (n - page_shift sz)" for x :: nat
      using that by (simp flip: div_mult2_eq power_add)
    then show ?thesis by (metis s)
  qed
  show "take (Suc (leaf_depth sz)) (indices v) = take (Suc (leaf_depth sz)) (indices w)"
  proof -
    have high: "page_table_index_as_usize (pml4_index v) = page_table_index_as_usize (pml4_index w)"
      "page_table_index_as_usize (pdpt_index v) = page_table_index_as_usize (pdpt_index w)"
      unfolding index_unat using page_shift_bounds [of sz] by (simp_all only: *)
    have pd: "page_table_index_as_usize (pd_index v) = page_table_index_as_usize (pd_index w)"
      if "sz \<noteq> Size1GiB" unfolding index_unat using that by (cases sz) (simp_all only: * [of 21] page_shift.simps order_refl, simp_all)
    have pt: "page_table_index_as_usize (pt_index v) = page_table_index_as_usize (pt_index w)"
      if "sz = Size4KiB" unfolding index_unat using that by (simp only: * [of 12] page_shift.simps order_refl)
    show ?thesis using high pd pt by (cases sz) (simp_all add: indices_def)
  qed
qed

end
