(* ===== verification/Page_Mapping.thy ===== *)
theory Page_Mapping
  imports Page_Tables
begin

text \<open>
  The contract of the trait \<^verbatim>\<open>PageMapper<S>\<close> of \<^verbatim>\<open>kernel/mm/src/mapper.rs\<close>, proved for its implementation by
  the page-table mapper with table frames from the physical memory manager: mapping, unmapping and
  changing flags of a page of any of the three sizes update the translation function at exactly the
  addresses of that page. Write-combining mappings do not keep this contract.
\<close>

section \<open>Translation after a leaf write\<close>

lemma pte_flags_new:
  assumes "f AND ADDR_MASK = 0" shows "pte_flags (pte_new p f) = f AND flags_all"
proof (rule bit_word_eqI)
  fix n
  have "\<not> (bit f n \<and> bit ADDR_MASK n)"
    using arg_cong [OF assms, of "\<lambda>w. bit w n"] by (simp add: bit_and_iff)
  then show "bit (pte_flags (pte_new p f)) n = bit (f AND flags_all) n"
    by (auto simp: pte_flags_def flags_from_bits_truncate_def bit_and_iff bit_not_iff pte_new_bit bit_ADDR_MASK
        dest: bit_imp_le_length)
qed

text \<open>The result of translating an address of a page that maps \<open>p\<close> with flags \<open>fl\<close>.\<close>

fun page_result :: "page_size \<Rightarrow> phys_addr \<Rightarrow> page_table_flags \<Rightarrow> translate_result" where
  "page_result Size4KiB p fl = Page4KiB (PhysFrame p) fl"
| "page_result Size2MiB p fl = Page2MiB p fl"
| "page_result Size1GiB p fl = Page1GiB p fl"

abbreviation leaf_result :: "page_size \<Rightarrow> page_table_entry \<Rightarrow> translate_result" where
  "leaf_result sz e \<equiv> page_result sz (pte_address e) (pte_flags e)"

lemma decode_leaf: "decode (Some (3 - leaf_depth sz, e)) = leaf_result sz e"
  by (cases sz) simp_all

lemma translate_leaf_set:
  assumes wf: "pt_wf h r m" "pt_wf h r m'" and l: "leaf_set r m v (leaf_depth sz) e m'"
    and ok: "virt_ok v" "virt_ok w"
  shows "translate h (PhysAddr r) w m' =
    (if same_page sz w v then Some (if pte_is_present e then leaf_result sz e else TNotMapped)
     else translate h (PhysAddr r) w m)"
  using l take_indices_eq_iff [OF ok(2,1), of sz]
  by (simp add: translate_resolve [OF wf(1)] translate_resolve [OF wf(2)] leaf_set_def decode_leaf
      del: decode.simps(2))

text \<open>What the translation of an address says about the leaf at the depth of a page size.\<close>

fun mapped_as :: "page_size \<Rightarrow> translate_result \<Rightarrow> (phys_addr \<times> page_table_flags) option" where
  "mapped_as Size4KiB (Page4KiB f fl) = Some (frame_start f, fl)"
| "mapped_as Size2MiB (Page2MiB p fl) = Some (p, fl)"
| "mapped_as Size1GiB (Page1GiB p fl) = Some (p, fl)"
| "mapped_as _ _ = None"

lemma resolve_at_leaf:
  assumes wf: "pt_wf h r m"
  shows "mapped_as sz (decode (resolve m r (indices v))) =
    (case walk m r (take (leaf_depth sz) (indices v)) of None \<Rightarrow> None
     | Some t \<Rightarrow> let e = m t ! (indices v ! leaf_depth sz)
                in if is_leaf sz e then Some (pte_address e, pte_flags e) else None)"
  using pt_wfD(4) [OF wf, of "page_table_index_as_usize (pml4_index v)"]
  by (cases sz) (auto simp: indices_def Let_def is_leaf_def)

lemma leaf_write_at:
  assumes wf: "pt_wf h r m" and w: "walk m r (take (leaf_depth sz) (indices v)) = Some t"
    and old: "is_leaf sz (m t ! (indices v ! leaf_depth sz))"
    and new: "\<not> pte_is_present e \<or> is_leaf sz e"
  defines "m' \<equiv> m(t := (m t)[indices v ! leaf_depth sz := e])"
  shows "pt_wf h r m'" "leaf_set r m v (leaf_depth sz) e m'" "tables m' r = tables m r"
    "path_writes r (indices v) {} m m'"
proof -
  have k: "length (take (leaf_depth sz) (indices v)) = leaf_depth sz" by (cases sz) simp_all
  have sk: "take (Suc (leaf_depth sz)) (indices v) = take (leaf_depth sz) (indices v) @ [indices v ! leaf_depth sz]"
    by (rule take_Suc_conv_app_nth) (cases sz; simp)
  have "indices v ! leaf_depth sz \<in> set (indices v)" by (rule nth_mem) (cases sz; simp)
  then have i: "indices v ! leaf_depth sz < 512" using indices_range [of v] by blast
  have k123: "leaf_depth sz \<in> {1, 2, 3}" by (cases sz) simp_all
  have s: "stops (leaf_depth sz) x" if "\<not> pte_is_present x \<or> is_leaf sz x" for x
    using that by (cases sz) (auto simp: stops_def is_leaf_def)
  note lw = leaf_write [OF wf w, unfolded k, OF k123 i s s [OF new], folded m'_def sk]
  show "pt_wf h r m'" "leaf_set r m v (leaf_depth sz) e m'"
    using lw old by (auto simp: leaf_set_def)
  show "tables m' r = tables m r" using lw(2) old by (auto simp: tables_def)
  show "path_writes r (indices v) {} m m'"
  proof (rule path_writes_step [OF path_writes_refl w])
    show "leaf_depth sz \<le> 3" by (cases sz) simp_all
  qed (use lw(2) old in \<open>auto simp: m'_def\<close>)
qed

definition basic_flags :: "map_flags \<Rightarrow> page_table_flags" where
  "basic_flags fl = map_flags_to_native (fl AND NOT MF_WRITE_COMBINE)"

lemma flags_contains_basic:
  "n < 64 \<Longrightarrow> n \<noteq> 5 \<Longrightarrow> flags_contains (fl AND NOT MF_WRITE_COMBINE) (2 ^ n) = flags_contains fl (2 ^ n)"
  "\<not> flags_contains (fl AND NOT MF_WRITE_COMBINE) MF_WRITE_COMBINE"
  unfolding MF_WRITE_COMBINE_def flags_contains_exp bit_and_not_exp by simp_all

lemma map_flags_to_native_split:
  "map_flags_to_native fl = (if flags_contains fl MF_WRITE_COMBINE
     then (basic_flags fl OR (PAT_4K OR PAT_HUGE)) AND flags_not (CACHE_DISABLE OR WRITE_THROUGH)
     else basic_flags fl)"
  unfolding basic_flags_def map_flags_to_native_def Let_def MF_WRITABLE_def MF_EXECUTABLE_def MF_USER_def
    MF_GLOBAL_def MF_CACHE_DISABLE_def
  by (simp only: flags_contains_basic if_False)

lemma native_flags_bits:
  assumes "\<not> flags_contains fl MF_WRITE_COMBINE"
  shows "bit (map_flags_to_native fl) 0" "\<not> bit (map_flags_to_native fl) 7"
    "map_flags_to_native fl AND ADDR_MASK = 0" "map_flags_to_native fl AND flags_all = map_flags_to_native fl"
proof -
  have *: "bit (map_flags_to_native fl) n \<longleftrightarrow> n = 0 \<or> n = 1 \<and> flags_contains fl MF_WRITABLE \<or>
      n = 63 \<and> \<not> flags_contains fl MF_EXECUTABLE \<or> n = 2 \<and> flags_contains fl MF_USER \<or>
      n = 8 \<and> flags_contains fl MF_GLOBAL \<or> n = 4 \<and> flags_contains fl MF_CACHE_DISABLE" for n
    using assms unfolding map_flags_to_native_def Let_def flag_defs if_distrib [where f = "\<lambda>w. bit w n"]
      bit_or_iff flag_positions [THEN bit_flag] by auto
  show "bit (map_flags_to_native fl) 0" "\<not> bit (map_flags_to_native fl) 7" by (simp_all add: *)
  show "map_flags_to_native fl AND ADDR_MASK = 0"
    by (rule bit_word_eqI) (auto simp: bit_and_iff * bit_ADDR_MASK)
  show "map_flags_to_native fl AND flags_all = map_flags_to_native fl"
    by (rule bit_word_eqI) (auto simp: bit_and_iff * bit_flags_all)
qed

lemma phys_frame_ok_4096:
  assumes "phys_frame_ok sz f" shows "phys_ok (frame_start f)" "4096 dvd unat (pa (frame_start f))"
proof -
  have "(4096 :: nat) dvd 2 ^ page_shift sz" by (cases sz) simp_all
  then show "4096 dvd unat (pa (frame_start f))"
    using assms dvd_trans unfolding phys_frame_ok_def unat_page_size by blast
  show "phys_ok (frame_start f)" using assms by (simp add: phys_frame_ok_def)
qed

lemma leaf_flags_bits:
  assumes "bit f 0" "f AND ADDR_MASK = 0" "f AND flags_all = f"
  shows "is_leaf sz (pte_new p (leaf_flags sz f))" "leaf_flags sz f AND ADDR_MASK = 0"
    "leaf_flags sz f AND flags_all = leaf_flags sz f"
proof -
  have h: "bit HUGE_PAGE n \<longleftrightarrow> n = 7" for n unfolding HUGE_PAGE_def by (rule bit_flag) simp
  have "HUGE_PAGE AND ADDR_MASK = 0" "HUGE_PAGE AND flags_all = HUGE_PAGE"
    by (auto intro!: bit_word_eqI simp: bit_and_iff h bit_ADDR_MASK bit_flags_all)
  then show "is_leaf sz (pte_new p (leaf_flags sz f))" "leaf_flags sz f AND ADDR_MASK = 0"
    "leaf_flags sz f AND flags_all = leaf_flags sz f"
    using assms by (cases sz; simp add: is_leaf_def bit_or_iff h bit.conj_disj_distrib2)+
qed

lemma leaf_result_native:
  assumes "\<not> flags_contains fl MF_WRITE_COMBINE" "phys_frame_ok sz f"
  shows "leaf_result sz (pte_new (frame_start f) (leaf_flags sz (map_flags_to_native fl))) =
      page_result sz (frame_start f) (leaf_flags sz (map_flags_to_native fl))"
  using leaf_flags_bits [OF native_flags_bits(1,3,4) [OF assms(1)]] phys_frame_ok_4096 [OF assms(2)]
  by (simp add: pte_address_new pte_flags_new)

text \<open>The caller's obligation: the page does not conflict with mappings of another size.\<close>

definition mappable :: "page_size \<Rightarrow> virt_addr \<Rightarrow> u64 \<Rightarrow> table_memory \<Rightarrow> virt_addr \<Rightarrow> bool" where
  "mappable sz h r m v =
     ((case translate h (PhysAddr r) v m of None \<Rightarrow> False
       | Some tr \<Rightarrow> tr = TNotMapped \<or> mapped_as sz tr \<noteq> None) \<and>
      (sz \<noteq> Size4KiB \<longrightarrow> walk m r (take (Suc (leaf_depth sz)) (indices v)) = None))"

lemma mappable_resolve:
  assumes wf: "pt_wf h r m" and m: "mappable sz h r m v" and e: "resolve m r (indices v) = Some (d, e)"
  shows "d = 3 - leaf_depth sz"
proof -
  have "d < 3" using e pt_wfD(4) [OF wf] by (auto simp: indices_def Let_def split: if_splits)
  moreover have "mapped_as sz (decode (Some (d, e))) \<noteq> None"
    using m e by (auto simp: mappable_def translate_resolve [OF wf] split: if_splits)
  ultimately show ?thesis by (cases sz) (auto split: if_splits)
qed

context frame_allocator
begin

text \<open>
  Mapping takes at most three table frames, and no frame outside the free ones becomes a table: the
  frames \<open>X\<close> stay disjoint from the tree.
\<close>

lemma page_mapper_map_keeps:
  assumes wf: "pt_wf h r m" and fresh: "frames_fresh h r m (avail s \<union> X)" and s: "ainv s" "3 \<le> card (avail s)"
    and X: "avail s \<inter> X = {}"
    and v: "virt_ok (page_start pg)" and f: "phys_frame_ok sz f" and free: "mappable sz h r m (page_start pg)"
    and fl: "bit (map_flags_to_native fl) 0"
  defines "e \<equiv> pte_new (frame_start f) (leaf_flags sz (map_flags_to_native fl))"
  shows "\<exists>m' s'. page_mapper_map sz (expect_frame alloc) h (PhysAddr r) pg f fl m s =
      Some (map_flush_new (page_start pg), m', s') \<and> ainv s' \<and> avail s' \<subseteq> avail s \<and>
      card (avail s) \<le> card (avail s') + 3 \<and> pt_wf h r m' \<and> frames_fresh h r m' (avail s' \<union> X) \<and>
      writes_tables r m m' \<and> path_writes r (indices (page_start pg)) (frame_addrs (avail s)) m m' \<and>
      (\<forall>w. virt_ok w \<longrightarrow> translate h (PhysAddr r) w m' =
        (if same_page sz w (page_start pg) then Some (leaf_result sz e) else translate h (PhysAddr r) w m))"
proof -
  note d = mappable_resolve [OF wf free]
  have al: "2 ^ page_shift sz dvd unat (pa (frame_start f))" using f by (simp add: phys_frame_ok_def unat_page_size)
  have "\<exists>m' s'. page_mapper_map sz (expect_frame alloc) h (PhysAddr r) pg f fl m s =
      Some (map_flush_new (page_start pg), m', s') \<and> ainv s' \<and> avail s' \<subseteq> avail s \<and>
      card (avail s) \<le> card (avail s') + 3 \<and> pt_wf h r m' \<and> frames_fresh h r m' (avail s' \<union> X) \<and>
      writes_tables r m m' \<and> path_writes r (indices (page_start pg)) (frame_addrs (avail s)) m m' \<and> leaf_set r m (page_start pg) (leaf_depth sz) e m'"
  proof (cases sz)
    case Size4KiB
    with map_4k_spec [OF wf fresh s X, of "frame_start f" "page_start pg" "map_flags_to_native fl"] al d
    show ?thesis by (fastforce simp: page_mapper_map_def e_def)
  next
    case Size2MiB
    with map_2mib_spec [OF wf fresh s X, of "frame_start f" "page_start pg" "map_flags_to_native fl"] al d free
    show ?thesis by (fastforce simp: page_mapper_map_def e_def mappable_def)
  next
    case Size1GiB
    with map_1gib_spec [OF wf fresh s X, of "frame_start f" "page_start pg" "map_flags_to_native fl"] al free
    show ?thesis by (fastforce simp: page_mapper_map_def e_def mappable_def numeral_2_eq_2)
  qed
  then obtain m' s' where c: "page_mapper_map sz (expect_frame alloc) h (PhysAddr r) pg f fl m s =
      Some (map_flush_new (page_start pg), m', s')" "ainv s'" "avail s' \<subseteq> avail s" "pt_wf h r m'"
      "frames_fresh h r m' (avail s' \<union> X)" "card (avail s) \<le> card (avail s') + 3" "writes_tables r m m'"
      "path_writes r (indices (page_start pg)) (frame_addrs (avail s)) m m'"
      "leaf_set r m (page_start pg) (leaf_depth sz) e m'" by blast
  have "pte_is_present e" using fl by (cases sz) (simp_all add: e_def bit_or_iff)
  then have "\<forall>w. virt_ok w \<longrightarrow> translate h (PhysAddr r) w m' =
        (if same_page sz w (page_start pg) then Some (leaf_result sz e) else translate h (PhysAddr r) w m)"
    using translate_leaf_set [OF wf c(4,9) v] by simp
  then show ?thesis using c by blast
qed

lemma page_mapper_map_spec:
  assumes "pt_wf h r m" "frames_fresh h r m (avail s)" "ainv s" "3 \<le> card (avail s)"
    and "virt_ok (page_start pg)" "phys_frame_ok sz f" "mappable sz h r m (page_start pg)"
    and "bit (map_flags_to_native fl) 0"
  defines "e \<equiv> pte_new (frame_start f) (leaf_flags sz (map_flags_to_native fl))"
  shows "\<exists>m' s'. page_mapper_map sz (expect_frame alloc) h (PhysAddr r) pg f fl m s =
      Some (map_flush_new (page_start pg), m', s') \<and> ainv s' \<and> avail s' \<subseteq> avail s \<and> pt_wf h r m' \<and>
      frames_fresh h r m' (avail s') \<and>
      (\<forall>w. virt_ok w \<longrightarrow> translate h (PhysAddr r) w m' =
        (if same_page sz w (page_start pg) then Some (leaf_result sz e) else translate h (PhysAddr r) w m))"
  using page_mapper_map_keeps [of h r m s "{}" pg sz f fl] assms by auto

end

lemma page_mapper_unmap_spec:
  assumes wf: "pt_wf h r m" and v: "virt_ok (page_start pg)"
    and tr: "translate h (PhysAddr r) (page_start pg) m = Some tr"
  shows "case mapped_as sz tr of
      None \<Rightarrow> \<exists>err. page_mapper_unmap sz h (PhysAddr r) pg m = Some (Inl err, m)
    | Some (p, fl) \<Rightarrow> \<exists>m'. page_mapper_unmap sz h (PhysAddr r) pg m =
          Some (Inr (PhysFrame (PhysAddr (pa p AND NOT (mask (page_shift sz)))), map_flush_new (page_start pg)), m') \<and>
        pt_wf h r m' \<and> tables m' r = tables m r \<and>
        path_writes r (indices (page_start pg)) {} m m' \<and> (\<forall>w. virt_ok w \<longrightarrow> translate h (PhysAddr r) w m' =
          (if same_page sz w (page_start pg) then Some TNotMapped else translate h (PhysAddr r) w m))"
proof -
  have tr': "mapped_as sz tr = mapped_as sz (decode (resolve m r (indices (page_start pg))))"
    using tr by (simp add: translate_resolve [OF wf])
  note eq = page_mapper_unmap_eq [OF wf, of sz pg]
  show ?thesis
  proof (cases "walk m r (take (leaf_depth sz) (indices (page_start pg)))")
    case None
    then show ?thesis using eq by (simp add: tr' resolve_at_leaf [OF wf])
  next
    case (Some t)
    define e where "e = m t ! (indices (page_start pg) ! leaf_depth sz)"
    show ?thesis
    proof (cases "is_leaf sz e")
      case True
      note lw = leaf_write_at [OF wf Some True [unfolded e_def], of pte_empty]
      show ?thesis
        using eq Some True lw(1) translate_leaf_set [OF wf lw(1) _ v] lw(2,3,4)
        by (simp add: tr' resolve_at_leaf [OF wf] e_def Let_def)
    next
      case False
      then show ?thesis using eq Some by (simp add: tr' resolve_at_leaf [OF wf] e_def Let_def)
    qed
  qed
qed

lemma page_mapper_update_flags_spec:
  assumes wf: "pt_wf h r m" and v: "virt_ok (page_start pg)"
    and tr: "translate h (PhysAddr r) (page_start pg) m = Some tr"
    and fl: "bit (map_flags_to_native fl) 0"
  shows "case mapped_as sz tr of
      None \<Rightarrow> \<exists>err. page_mapper_update_flags sz h (PhysAddr r) pg fl m = Some (Inl err, m)
    | Some (p, _) \<Rightarrow> \<exists>m'. page_mapper_update_flags sz h (PhysAddr r) pg fl m =
          Some (Inr (map_flush_new (page_start pg)), m') \<and> pt_wf h r m' \<and> tables m' r = tables m r \<and>
        path_writes r (indices (page_start pg)) {} m m' \<and>
        (\<forall>w. virt_ok w \<longrightarrow> translate h (PhysAddr r) w m' =
          (if same_page sz w (page_start pg)
           then Some (leaf_result sz (pte_new p (leaf_flags sz (map_flags_to_native fl))))
           else translate h (PhysAddr r) w m))"
proof -
  have tr': "mapped_as sz tr = mapped_as sz (decode (resolve m r (indices (page_start pg))))"
    using tr by (simp add: translate_resolve [OF wf])
  note eq = page_mapper_update_flags_eq [OF wf, of sz pg fl]
  show ?thesis
  proof (cases "walk m r (take (leaf_depth sz) (indices (page_start pg)))")
    case None
    then show ?thesis using eq by (simp add: tr' resolve_at_leaf [OF wf])
  next
    case (Some t)
    define e where "e = m t ! (indices (page_start pg) ! leaf_depth sz)"
    define e' where "e' = pte_new (pte_address e) (leaf_flags sz (map_flags_to_native fl))"
    show ?thesis
    proof (cases "is_leaf sz e")
      case True
      have e': "is_leaf sz e'"
        using fl by (cases sz) (simp_all add: e'_def is_leaf_def bit_or_iff HUGE_PAGE_def)
      note lw = leaf_write_at [OF wf Some True [unfolded e_def] disjI2 [OF e']]
      show ?thesis
        using eq Some True lw(1) translate_leaf_set [OF wf lw(1) _ v] lw(2,3,4) e'
        by (simp add: tr' resolve_at_leaf [OF wf] e_def e'_def Let_def is_leaf_def)
    next
      case False
      then show ?thesis using eq Some by (simp add: tr' resolve_at_leaf [OF wf] e_def Let_def)
    qed
  qed
qed

lemma translate_addr_page:
  assumes tr: "translate h root w m = Some (page_result sz p fl)" and ok: "phys_frame_ok sz (PhysFrame p)"
  shows "translate_addr h root w m = Some (Some (PhysAddr (pa p + (va w AND mask (page_shift sz)))))"
proof -
  have m: "PAGE_OFFSET_MASK = mask 12" "0x1FFFFF = (mask 21 :: u64)" "0x3FFFFFFF = (mask 30 :: u64)"
    by (simp_all add: PAGE_OFFSET_MASK_def mask_eq_exp_minus_1)
  define off where "off = va w AND mask (page_shift sz)"
  have off: "unat off < 2 ^ page_shift sz" by (simp add: off_def unat_and_mask)
  have dv: "2 ^ page_shift sz dvd unat (pa p)" and p: "unat (pa p) < 2 ^ 52"
    using ok by (simp_all add: phys_frame_ok_def phys_ok_def unat_page_size)
  have "(2 :: nat) ^ page_shift sz dvd 2 ^ 52" by (rule le_imp_power_dvd) (cases sz; simp)
  then have "unat (pa p) + 2 ^ page_shift sz \<le> 2 ^ 52" using dv p aligned_step by blast
  then have sum: "unat (pa p) + unat off < 2 ^ 52" using off by linarith
  then have "chk_add (pa p) off = Some (pa p + off)" "unat (pa p + off) < 2 ^ 52"
    by (simp_all add: chk_add_def unat_word_ariths)
  then have "phys_addr_add p off = Some (PhysAddr (pa p + off))"
    by (simp add: phys_addr_add_def phys_addr_new_Some_iff)
  then show ?thesis
    using tr by (cases sz) (simp_all add: translate_addr_def off_def virt_addr_page_offset_def m)
qed

lemma update_flags_native:
  assumes "pt_wf h r m" "virt_ok (page_start pg)"
    and "translate h (PhysAddr r) (page_start pg) m = Some tr" "\<not> flags_contains fl MF_WRITE_COMBINE"
  shows "case mapped_as sz tr of
      None \<Rightarrow> \<exists>err. page_mapper_update_flags sz h (PhysAddr r) pg fl m = Some (Inl err, m)
    | Some (p, _) \<Rightarrow> \<exists>m'. page_mapper_update_flags sz h (PhysAddr r) pg fl m =
          Some (Inr (map_flush_new (page_start pg)), m') \<and> pt_wf h r m' \<and> tables m' r = tables m r \<and>
        path_writes r (indices (page_start pg)) {} m m' \<and>
        (\<forall>w. virt_ok w \<longrightarrow> translate h (PhysAddr r) w m' =
          (if same_page sz w (page_start pg)
           then Some (page_result sz p (leaf_flags sz (map_flags_to_native fl)))
           else translate h (PhysAddr r) w m))"
proof (cases "mapped_as sz tr")
  case None
  then show ?thesis
    using page_mapper_update_flags_spec [OF assms(1-3) native_flags_bits(1) [OF assms(4)], of sz] by simp
next
  case (Some pf)
  obtain p fl0 where pf: "pf = (p, fl0)" by fastforce
  note b = native_flags_bits [OF assms(4)]
  obtain e where "p = pte_address e"
    using Some pf assms(3) resolve_at_leaf [OF assms(1), of sz "page_start pg"]
    by (auto simp: translate_resolve [OF assms(1)] Let_def split: option.splits if_splits)
  then have l: "leaf_result sz (pte_new p (leaf_flags sz (map_flags_to_native fl))) =
      page_result sz p (leaf_flags sz (map_flags_to_native fl))"
    using leaf_flags_bits [OF b(1,3,4)] by (simp add: pte_address_new pte_flags_new)
  show ?thesis
    using page_mapper_update_flags_spec [OF assms(1-3) b(1), of sz] unfolding Some pf option.case prod.case l .
qed

text \<open>
  C2: Mapping a page of any size, with table frames taken from the physical memory manager, does
  not panic, keeps the page-table tree well formed and disjoint from the free frames, and makes
  exactly the addresses of that page translate to the given frame with the native form of the given
  flags; every other address translates as before. The page must not conflict with a mapping of
  another size and the flags must not ask for write combining.
\<close>

theorem map_page_correct:
  assumes "pt_wf h r m" "frames_fresh h r m (pmm_avail s)" "pmm_good False s" "3 \<le> card (pmm_avail s)"
    and "virt_ok (page_start pg)" "phys_frame_ok sz f" "mappable sz h r m (page_start pg)"
    and "\<not> flags_contains fl MF_WRITE_COMBINE"
  shows "\<exists>m' s'. page_mapper_map sz (expect_frame (pmm_alloc False)) h (PhysAddr r) pg f fl m s =
      Some (map_flush_new (page_start pg), m', s') \<and> pmm_good False s' \<and> pt_wf h r m' \<and>
      frames_fresh h r m' (pmm_avail s') \<and>
      (\<forall>w. virt_ok w \<longrightarrow> translate h (PhysAddr r) w m' =
        (if same_page sz w (page_start pg)
         then Some (page_result sz (frame_start f) (leaf_flags sz (map_flags_to_native fl)))
         else translate h (PhysAddr r) w m))"
proof -
  show ?thesis
    using pmm.page_mapper_map_spec [OF assms(1-7) native_flags_bits(1) [OF assms(8)]]
    unfolding leaf_result_native [OF assms(8,6)] by blast
qed


definition no_tables :: table_memory where
  "no_tables = (\<lambda>_. replicate 512 pte_empty)"

definition tiny_hhdm :: virt_addr where "tiny_hhdm = VirtAddr 0xFFFF800000000000"

lemma no_tables_walk: "walk no_tables r q = (if q = [] then Some r else None)"
  by (cases q) (auto simp: no_tables_def Let_def)

lemma no_tables_resolve: "resolve no_tables r q = None"
  by (cases q) (auto simp: no_tables_def Let_def)

lemma no_tables_ok:
  "pt_wf tiny_hhdm 0x1000 no_tables" "frames_fresh tiny_hhdm 0x1000 no_tables (pmm_avail (tiny_pmm, mem))"
  "pmm_good False (tiny_pmm, mem)" "card (pmm_avail (tiny_pmm, mem)) = 3"
proof -
  have t: "tables no_tables 0x1000 = {0x1000}" by (auto simp: tables_def no_tables_walk)
  show "pt_wf tiny_hhdm 0x1000 no_tables"
    unfolding pt_wf_def t by (auto simp: no_tables_walk accessible_def tiny_hhdm_def split: if_splits)
      (simp_all add: no_tables_def)
  show "frames_fresh tiny_hhdm 0x1000 no_tables (pmm_avail (tiny_pmm, mem))"
    by (simp add: frames_fresh_def t pmm_avail_def tiny_pmm_free frame_at_def frame_addr_def accessible_def
        tiny_hhdm_def)
  show "pmm_good False (tiny_pmm, mem)" using tiny_pmm_ok by (simp add: pmm_good_def)
  have "inj_on frame_at {0, 2, 3}" by (rule inj_on_subset [OF frame_at_inj]) simp
  then show "card (pmm_avail (tiny_pmm, mem)) = 3"
    by (simp add: pmm_avail_def tiny_pmm_free card_image del: image_insert)
qed

lemma no_tables_mappable: "mappable sz tiny_hhdm 0x1000 no_tables v"
proof -
  have "indices v \<noteq> []" by (simp add: indices_def)
  then show ?thesis
    by (simp add: mappable_def translate_resolve [OF no_tables_ok(1)] no_tables_resolve no_tables_walk)
qed

theorem map_page_correct_witness:
  "\<exists>m' s'. page_mapper_map Size2MiB (expect_frame (pmm_alloc False)) tiny_hhdm (PhysAddr 0x1000)
      (Page (VirtAddr 0x200000)) (PhysFrame (PhysAddr 0x400000)) MF_WRITABLE no_tables (tiny_pmm, \<lambda>_. 0) =
      Some (map_flush_new (VirtAddr 0x200000), m', s') \<and> pt_wf tiny_hhdm 0x1000 m' \<and>
      translate tiny_hhdm (PhysAddr 0x1000) (VirtAddr 0x2FFFFF) m' =
        Some (Page2MiB (PhysAddr 0x400000) (map_flags_to_native MF_WRITABLE OR HUGE_PAGE)) \<and>
      translate tiny_hhdm (PhysAddr 0x1000) (VirtAddr 0x400000) m' = Some TNotMapped"
proof -
  have v: "virt_ok (VirtAddr 0x200000)" "virt_ok (VirtAddr 0x2FFFFF)" "virt_ok (VirtAddr 0x400000)"
    by (simp_all add: virt_ok_def canonical_iff)
  have f: "phys_frame_ok Size2MiB (PhysFrame (PhysAddr 0x400000))" by (simp add: phys_frame_ok_def phys_ok_def)
  have w: "\<not> flags_contains MF_WRITABLE MF_WRITE_COMBINE"
    by (simp add: flags_contains_def MF_WRITABLE_def MF_WRITE_COMBINE_def)
  from map_page_correct [OF no_tables_ok(1,2,3) _ _ f no_tables_mappable w, of "\<lambda>_. 0" "Page (VirtAddr 0x200000)"]
    v(2,3) v(1) show ?thesis
    by (auto simp: no_tables_ok(4) same_page_def translate_resolve [OF no_tables_ok(1)] no_tables_resolve)
qed

text \<open>
  C21: Unmapping a page of any size: when the page is mapped with that size the mapper returns its
  frame (aligned down to the size), exactly the addresses of the page stop translating and the tree
  stays well formed, with the same tables; otherwise it reports an error and memory is unchanged. It never panics.
\<close>

theorem unmap_page_correct:
  assumes "pt_wf h r m" "virt_ok (page_start pg)"
    and "translate h (PhysAddr r) (page_start pg) m = Some tr"
  shows "case mapped_as sz tr of
      None \<Rightarrow> \<exists>err. page_mapper_unmap sz h (PhysAddr r) pg m = Some (Inl err, m)
    | Some (p, fl) \<Rightarrow> \<exists>m'. page_mapper_unmap sz h (PhysAddr r) pg m =
          Some (Inr (PhysFrame (PhysAddr (pa p AND NOT (mask (page_shift sz)))), map_flush_new (page_start pg)), m') \<and>
        pt_wf h r m' \<and> tables m' r = tables m r \<and> (\<forall>w. virt_ok w \<longrightarrow> translate h (PhysAddr r) w m' =
          (if same_page sz w (page_start pg) then Some TNotMapped else translate h (PhysAddr r) w m))"
  using page_mapper_unmap_spec [OF assms, of sz] by (auto split: option.splits)

theorem unmap_page_correct_witness:
  "\<exists>err. page_mapper_unmap Size4KiB tiny_hhdm (PhysAddr 0x1000) (Page (VirtAddr 0x200000)) no_tables =
     Some (Inl err, no_tables)"
  using unmap_page_correct [OF no_tables_ok(1), of "Page (VirtAddr 0x200000)" TNotMapped Size4KiB]
  by (simp add: translate_resolve [OF no_tables_ok(1)] no_tables_resolve virt_ok_def canonical_iff)

text \<open>
  C22: Mapping and unmapping are inverse: after a mapping \<^verbatim>\<open>translate_addr\<close> sends every address of the
  page to the frame plus the offset of the address, and unmapping the page gives the frame back and
  leaves the addresses of the page unmapped and every other address translated as at the start.
\<close>

theorem map_unmap_roundtrip:
  assumes "pt_wf h r m" "frames_fresh h r m (pmm_avail s)" "pmm_good False s" "3 \<le> card (pmm_avail s)"
    and "virt_ok (page_start pg)" "phys_frame_ok sz f" "mappable sz h r m (page_start pg)"
    and "\<not> flags_contains fl MF_WRITE_COMBINE"
  shows "\<exists>m1 s1 m2. page_mapper_map sz (expect_frame (pmm_alloc False)) h (PhysAddr r) pg f fl m s =
      Some (map_flush_new (page_start pg), m1, s1) \<and>
      (\<forall>w. virt_ok w \<longrightarrow> same_page sz w (page_start pg) \<longrightarrow>
        translate_addr h (PhysAddr r) w m1 =
          Some (Some (PhysAddr (pa (frame_start f) + (va w AND mask (page_shift sz)))))) \<and>
      page_mapper_unmap sz h (PhysAddr r) pg m1 = Some (Inr (f, map_flush_new (page_start pg)), m2) \<and>
      pt_wf h r m2 \<and> (\<forall>w. virt_ok w \<longrightarrow> translate h (PhysAddr r) w m2 =
        (if same_page sz w (page_start pg) then Some TNotMapped else translate h (PhysAddr r) w m))"
proof -
  define fl' where "fl' = leaf_flags sz (map_flags_to_native fl)"
  note b = native_flags_bits [OF assms(8)] and ok = phys_frame_ok_4096 [OF assms(6)]
  have l: "leaf_result sz (pte_new (frame_start f) fl') = page_result sz (frame_start f) fl'"
    using leaf_flags_bits [OF b(1,3,4)] by (simp add: pte_address_new [OF ok] pte_flags_new fl'_def)
  from pmm.page_mapper_map_spec [OF assms(1-7) b(1)] obtain m1 s1 where
    1: "page_mapper_map sz (expect_frame (pmm_alloc False)) h (PhysAddr r) pg f fl m s =
      Some (map_flush_new (page_start pg), m1, s1)" "pt_wf h r m1"
      "\<forall>w. virt_ok w \<longrightarrow> translate h (PhysAddr r) w m1 = (if same_page sz w (page_start pg)
         then Some (page_result sz (frame_start f) fl') else translate h (PhysAddr r) w m)"
    unfolding fl'_def [symmetric] l by blast
  have here: "translate h (PhysAddr r) (page_start pg) m1 = Some (page_result sz (frame_start f) fl')"
    using 1(3) assms(5) by (simp add: same_page_def)
  have "pa (frame_start f) AND NOT (mask (page_shift sz)) = pa (frame_start f)"
    using assms(6) by (intro and_not_mask_aligned) (simp add: phys_frame_ok_def unat_page_size)
  moreover have "mapped_as sz (page_result sz (frame_start f) fl') = Some (frame_start f, fl')" by (cases sz) simp_all
  ultimately obtain m2 where 2: "page_mapper_unmap sz h (PhysAddr r) pg m1 = Some (Inr (f, map_flush_new (page_start pg)), m2)"
    "pt_wf h r m2" "\<forall>w. virt_ok w \<longrightarrow> translate h (PhysAddr r) w m2 =
        (if same_page sz w (page_start pg) then Some TNotMapped else translate h (PhysAddr r) w m1)"
    using page_mapper_unmap_spec [OF 1(2) assms(5) here, of sz] by auto
  have "\<forall>w. virt_ok w \<longrightarrow> same_page sz w (page_start pg) \<longrightarrow> translate_addr h (PhysAddr r) w m1 =
          Some (Some (PhysAddr (pa (frame_start f) + (va w AND mask (page_shift sz)))))"
    using 1(3) translate_addr_page [of h "PhysAddr r" _ m1 sz "frame_start f"] assms(6) by simp
  then show ?thesis using 1 2 by auto
qed

theorem map_unmap_roundtrip_witness:
  "\<exists>m1 s1 m2. page_mapper_map Size4KiB (expect_frame (pmm_alloc False)) tiny_hhdm (PhysAddr 0x1000)
      (Page (VirtAddr 0x7000)) (PhysFrame (PhysAddr 0x5000)) MF_USER no_tables (tiny_pmm, \<lambda>_. 0) =
      Some (map_flush_new (VirtAddr 0x7000), m1, s1) \<and>
     translate_addr tiny_hhdm (PhysAddr 0x1000) (VirtAddr 0x7123) m1 = Some (Some (PhysAddr 0x5123)) \<and>
     page_mapper_unmap Size4KiB tiny_hhdm (PhysAddr 0x1000) (Page (VirtAddr 0x7000)) m1 =
      Some (Inr (PhysFrame (PhysAddr 0x5000), map_flush_new (VirtAddr 0x7000)), m2)"
proof -
  have v: "virt_ok (VirtAddr 0x7000)" "virt_ok (VirtAddr 0x7123)" by (simp_all add: virt_ok_def canonical_iff)
  have f: "phys_frame_ok Size4KiB (PhysFrame (PhysAddr 0x5000))" by (simp add: phys_frame_ok_def phys_ok_def)
  have w: "\<not> flags_contains MF_USER MF_WRITE_COMBINE"
    by (simp add: flags_contains_def MF_USER_def MF_WRITE_COMBINE_def)
  have a: "(0x7123 :: u64) AND mask 12 = 0x123" by (simp add: mask_eq_exp_minus_1)
  from map_unmap_roundtrip [OF no_tables_ok(1,2,3) _ _ f no_tables_mappable w, of "\<lambda>_. 0" "Page (VirtAddr 0x7000)"]
    v show ?thesis by (fastforce simp: no_tables_ok(4) same_page_def a)
qed

text \<open>
  C40: A write-combining mapping of a 4 KiB page goes to the wrong frame: the native flags contain the
  bit that selects the memory type of huge pages, which in a 4 KiB entry is the lowest bit of the frame
  address, so a frame at an even page number is mapped as the frame that follows it.
\<close>

theorem write_combine_wrong_frame:
  assumes "pt_wf h r m" "frames_fresh h r m (pmm_avail s)" "pmm_good False s" "3 \<le> card (pmm_avail s)"
    and "virt_ok (page_start pg)" "phys_frame_ok Size4KiB f" "mappable Size4KiB h r m (page_start pg)"
    and "flags_contains fl MF_WRITE_COMBINE" "\<not> bit (pa (frame_start f)) 12"
  shows "\<exists>m' s' fl'. page_mapper_map Size4KiB (expect_frame (pmm_alloc False)) h (PhysAddr r) pg f fl m s =
      Some (map_flush_new (page_start pg), m', s') \<and>
      translate h (PhysAddr r) (page_start pg) m' = Some (Page4KiB (PhysFrame (PhysAddr (pa (frame_start f) + 0x1000))) fl')"
proof -
  have x: "bit (map_flags_to_native fl) n \<longleftrightarrow> n = 0 \<or> n = 12" if n: "n = 0 \<or> 12 \<le> n \<and> n < 52" for n
  proof -
    note b = native_flags_bits [OF flags_contains_basic(2), folded basic_flags_def, of fl]
    have "bit (basic_flags fl) n \<longleftrightarrow> n = 0"
      using n b(1) arg_cong [OF b(3), of "\<lambda>w. bit w n"] by (auto simp: bit_and_iff bit_ADDR_MASK)
    then show ?thesis
      using n assms(8) unfolding map_flags_to_native_split if_P [OF assms(8)] flag_defs flags_not_def
        flags_from_bits_truncate_def bit_and_iff bit_or_iff bit_not_iff flag_positions [THEN bit_flag] bit_flags_all
      by auto
  qed
  have n0: "bit (map_flags_to_native fl) 0" using x [of 0] by simp
  note ok = phys_frame_ok_4096 [OF assms(6)]
  have "pte_bits (pte_new (frame_start f) (map_flags_to_native fl)) AND ADDR_MASK = pa (frame_start f) OR 2 ^ 12"
  proof (rule bit_word_eqI)
    fix n
    have "bit (pa (frame_start f)) n \<Longrightarrow> 12 \<le> n \<and> n < 52"
      using phys_ok_bits [OF ok(1)] aligned_bits [of 12 "pa (frame_start f)" n] ok(2) by simp
    then show "bit (pte_bits (pte_new (frame_start f) (map_flags_to_native fl)) AND ADDR_MASK) n =
        bit (pa (frame_start f) OR 2 ^ 12) n"
      using x [of n] unfolding bit_and_iff pte_new_bit bit_ADDR_MASK bit_or_exp by auto
  qed
  also have "pa (frame_start f) OR 2 ^ 12 = pa (frame_start f) + 2 ^ 12"
    by (rule disjunctive_add [symmetric]) (use assms(9) flag_positions(8) [THEN bit_flag] in metis)
  finally have "pte_address (pte_new (frame_start f) (map_flags_to_native fl)) = PhysAddr (pa (frame_start f) + 0x1000)"
    by (simp add: pte_address_def)
  then show ?thesis
    using pmm.page_mapper_map_spec [OF assms(1-7) n0] assms(5) by (fastforce simp: same_page_def)
qed

theorem write_combine_wrong_frame_witness:
  "\<exists>m' s' fl'. page_mapper_map Size4KiB (expect_frame (pmm_alloc False)) tiny_hhdm (PhysAddr 0x1000)
      (Page (VirtAddr 0x7000)) (PhysFrame (PhysAddr 0x4000)) MF_WRITE_COMBINE no_tables (tiny_pmm, \<lambda>_. 0) =
      Some (map_flush_new (VirtAddr 0x7000), m', s') \<and>
     translate tiny_hhdm (PhysAddr 0x1000) (VirtAddr 0x7000) m' = Some (Page4KiB (PhysFrame (PhysAddr 0x5000)) fl')"
proof -
  have f: "phys_frame_ok Size4KiB (PhysFrame (PhysAddr 0x4000))" by (simp add: phys_frame_ok_def phys_ok_def)
  have w: "flags_contains MF_WRITE_COMBINE MF_WRITE_COMBINE" by (simp add: flags_contains_def)
  have b: "\<not> bit (0x4000 :: u64) 12" using bit_exp_iff [of 14 12, where ?'a = u64] by simp
  show ?thesis
    using write_combine_wrong_frame [OF no_tables_ok(1,2,3) _ _ f no_tables_mappable w, of "\<lambda>_. 0" "Page (VirtAddr 0x7000)"] b
    by (simp add: no_tables_ok(4) virt_ok_def canonical_iff)
qed

end
