(* ===== verification/Vmm.thy ===== *)
theory Vmm
  imports Region Page_Mapping
begin

text \<open>
  The kernel virtual memory manager: \<^verbatim>\<open>kernel/mm/src/vmm.rs\<close> and its kernel glue
  \<^verbatim>\<open>kernel/kernel/src/mm/vmm.rs\<close>.

  The VMM draws address ranges from the region allocators (theory Region), frames from the physical
  memory manager (theory Pmm) and maps them with the page-table mapper (theory Page\_Tables). Its
  address space is the active one, so writing zeros through a virtual address writes the frame that
  the tables translate it to; a write to an address that is not mapped is a panic. The lemmas show
  that growing the heap, allocating a stack and mapping a device map exactly the range taken from
  the region, to frames that were free, without touching any other frame that is not a page table.
\<close>

section \<open>State\<close>

datatype vmm_error = RegionExhausted | VmmOutOfMemory | VmmNotMapped | VmmAlreadyMapped | VmmSizeMismatch

definition KERNEL_STACK_SIZE :: u64 where "KERNEL_STACK_SIZE = 64 * 1024"
definition GUARD_PAGE_SIZE :: u64 where "GUARD_PAGE_SIZE = 4096"
definition STACKS_FREE_LIST_CAP :: usize where "STACKS_FREE_LIST_CAP = 256"
definition MMIO_FREE_LIST_CAP :: usize where "MMIO_FREE_LIST_CAP = 128"

datatype cache_mode = Uncacheable | WriteCombine

record 's kernel_stack =
  ks_top :: virt_addr
  ks_bottom :: virt_addr
  ks_guard :: virt_addr
  ks_cleanup :: "(virt_addr \<Rightarrow> virt_addr \<Rightarrow> virt_addr \<Rightarrow> 's \<Rightarrow> 's option) option"

definition kernel_stack_drop :: "'s kernel_stack \<Rightarrow> 's \<Rightarrow> 's option" where
  "kernel_stack_drop self s =
     (case ks_cleanup self of Some cleanup \<Rightarrow> cleanup (ks_guard self) (ks_bottom self) (ks_top self) s
      | None \<Rightarrow> Some s)"

record 's mmio_mapping =
  mm_virt_base :: virt_addr
  mm_phys_base :: phys_addr
  mm_size :: u64
  mm_cleanup :: "(virt_addr \<Rightarrow> u64 \<Rightarrow> 's \<Rightarrow> 's option) option"

definition mmio_mapping_drop :: "'s mmio_mapping \<Rightarrow> 's \<Rightarrow> 's option" where
  "mmio_mapping_drop self s =
     (case mm_cleanup self of Some cleanup \<Rightarrow> cleanup (mm_virt_base self) (mm_size self) s
      | None \<Rightarrow> Some s)"

text \<open>The mapper is the x86-64 one, whose only field is the base of the direct map.\<close>

record vmm =
  vm_root_phys :: phys_addr
  vm_mapper :: virt_addr
  vm_layout :: memory_layout
  vm_heap_alloc :: region_allocator
  vm_stacks_alloc :: free_region_allocator
  vm_mmio_alloc :: free_region_allocator

definition vmm_new :: "phys_addr \<Rightarrow> virt_addr \<Rightarrow> virt_addr \<Rightarrow> u64 \<Rightarrow> vmm" where
  "vmm_new root_phys mapper hhdm max_phys =
     (let layout = memory_layout_new hhdm max_phys in
      \<lparr>vm_root_phys = root_phys, vm_mapper = mapper, vm_layout = layout,
       vm_heap_alloc = region_allocator_new (ml_heap layout),
       vm_stacks_alloc = free_region_new (ml_stacks layout),
       vm_mmio_alloc = free_region_new (ml_mmio layout)\<rparr>)"

definition heap_watermark :: "vmm \<Rightarrow> virt_addr" where
  "heap_watermark self = region_current (vm_heap_alloc self)"

definition stacks_watermark :: "vmm \<Rightarrow> virt_addr" where
  "stacks_watermark self = free_region_watermark (vm_stacks_alloc self)"

section \<open>Operations\<close>

definition page_count_of :: "u64 \<Rightarrow> u64 option" where
  "page_count_of bytes = do { a \<leftarrow> chk_add bytes 4096; b \<leftarrow> chk_sub a 1; Some (b div 4096) }"

text \<open>\<^verbatim>\<open>write_bytes(virt, 0, PAGE_SIZE)\<close> at a page-aligned address of the active address space.\<close>

definition zero_page :: "virt_addr \<Rightarrow> phys_addr \<Rightarrow> virt_addr \<Rightarrow> table_memory \<Rightarrow> table_memory option" where
  "zero_page hhdm root virt mem =
     do { r \<leftarrow> translate_addr hhdm root virt mem; p \<leftarrow> r; Some (mem(pa p := replicate 512 pte_empty)) }"

text \<open>The loop that heap growth and stack allocation share: map a fresh frame at each page and zero it.\<close>

fun map_zeroed_pages ::
  "('s \<Rightarrow> (phys_frame option \<times> 's) option) \<Rightarrow> virt_addr \<Rightarrow> phys_addr \<Rightarrow> virt_addr \<Rightarrow> map_flags \<Rightarrow> nat list \<Rightarrow>
   table_memory \<Rightarrow> 's \<Rightarrow> ((vmm_error + unit) \<times> table_memory \<times> 's) option" where
  "map_zeroed_pages alloc hhdm root base flags [] mem s = Some (Inr (), mem, s)"
| "map_zeroed_pages alloc hhdm root base flags (i # is) mem s =
     do { off \<leftarrow> chk_mul (of_nat i) 4096;
          let virt = virt_addr_add base off;
          page \<leftarrow> page_containing_address Size4KiB virt;
          (r, s1) \<leftarrow> alloc s;
          (case r of
             None \<Rightarrow> Some (Inl VmmOutOfMemory, mem, s1)
           | Some frame \<Rightarrow> do {
               (flush, mem1, s2) \<leftarrow> page_mapper_map Size4KiB (expect_frame alloc) hhdm root page frame flags mem s1;
               let flushed = map_flush_ignore flush;
               mem2 \<leftarrow> zero_page hhdm root virt mem1;
               map_zeroed_pages alloc hhdm root base flags is mem2 s2 }) }"

definition vmm_grow_heap ::
  "('s \<Rightarrow> (phys_frame option \<times> 's) option) \<Rightarrow> vmm \<Rightarrow> u64 \<Rightarrow> table_memory \<Rightarrow> 's \<Rightarrow>
   ((vmm_error + virt_addr \<times> u64) \<times> vmm \<times> table_memory \<times> 's) option" where
  "vmm_grow_heap alloc self bytes mem s =
     do { page_count \<leftarrow> page_count_of bytes;
          actual_bytes \<leftarrow> chk_mul page_count 4096;
          (r, ha) \<leftarrow> region_allocate (vm_heap_alloc self) actual_bytes;
          let self' = self\<lparr>vm_heap_alloc := ha\<rparr>;
          (case r of
             None \<Rightarrow> Some (Inl RegionExhausted, self', mem, s)
           | Some base \<Rightarrow> do {
               (res, mem', s') \<leftarrow> map_zeroed_pages alloc (vm_mapper self) (vm_root_phys self) base
                  (MF_WRITABLE OR MF_GLOBAL) [0..<unat page_count] mem s;
               Some (case res of Inl e \<Rightarrow> Inl e | Inr _ \<Rightarrow> Inr (base, actual_bytes), self', mem', s') }) }"

definition vmm_map_initial_heap ::
  "('s \<Rightarrow> (phys_frame option \<times> 's) option) \<Rightarrow> vmm \<Rightarrow> table_memory \<Rightarrow> 's \<Rightarrow>
   ((vmm_error + virt_addr \<times> u64) \<times> vmm \<times> table_memory \<times> 's) option" where
  "vmm_map_initial_heap alloc self mem s = vmm_grow_heap alloc self INITIAL_HEAP_SIZE mem s"

definition alloc_kernel_stack ::
  "free_range array_vec \<Rightarrow> ('s \<Rightarrow> (phys_frame option \<times> 's) option) \<Rightarrow> vmm \<Rightarrow>
   (virt_addr \<Rightarrow> virt_addr \<Rightarrow> virt_addr \<Rightarrow> 'k \<Rightarrow> 'k option) option \<Rightarrow> table_memory \<Rightarrow> 's \<Rightarrow>
   ((vmm_error + 'k kernel_stack) \<times> vmm \<times> table_memory \<times> 's) option" where
  "alloc_kernel_stack av alloc self cleanup mem s =
     do { total_size \<leftarrow> chk_add GUARD_PAGE_SIZE KERNEL_STACK_SIZE;
          (r, sa) \<leftarrow> free_region_allocate av (vm_stacks_alloc self) total_size;
          let self' = self\<lparr>vm_stacks_alloc := sa\<rparr>;
          (case r of
             None \<Rightarrow> Some (Inl RegionExhausted, self', mem, s)
           | Some base \<Rightarrow> do {
               let stack_bottom = virt_addr_add base GUARD_PAGE_SIZE;
               let stack_top = virt_addr_add stack_bottom KERNEL_STACK_SIZE;
               (res, mem', s') \<leftarrow> map_zeroed_pages alloc (vm_mapper self) (vm_root_phys self) stack_bottom
                  (MF_WRITABLE OR MF_GLOBAL) [0..<unat (KERNEL_STACK_SIZE div 4096)] mem s;
               Some (case res of Inl e \<Rightarrow> Inl e
                     | Inr _ \<Rightarrow> Inr \<lparr>ks_top = stack_top, ks_bottom = stack_bottom, ks_guard = base,
                                     ks_cleanup = cleanup\<rparr>, self', mem', s') }) }"

fun map_device_pages ::
  "('s \<Rightarrow> (phys_frame option \<times> 's) option) \<Rightarrow> virt_addr \<Rightarrow> phys_addr \<Rightarrow> virt_addr \<Rightarrow> phys_addr \<Rightarrow> map_flags \<Rightarrow>
   nat list \<Rightarrow> table_memory \<Rightarrow> 's \<Rightarrow> (table_memory \<times> 's) option" where
  "map_device_pages alloc hhdm root virt_base phys flags [] mem s = Some (mem, s)"
| "map_device_pages alloc hhdm root virt_base phys flags (i # is) mem s =
     do { off \<leftarrow> chk_mul (of_nat i) 4096;
          let virt = virt_addr_add virt_base off;
          page \<leftarrow> page_containing_address Size4KiB virt;
          p \<leftarrow> phys_addr_add phys off;
          phys_page \<leftarrow> phys_frame_containing_address Size4KiB p;
          (flush, mem1, s1) \<leftarrow> page_mapper_map Size4KiB (expect_frame alloc) hhdm root page phys_page flags mem s;
          let flushed = map_flush_ignore flush;
          map_device_pages alloc hhdm root virt_base phys flags is mem1 s1 }"

definition map_mmio_with_cache ::
  "free_range array_vec \<Rightarrow> ('s \<Rightarrow> (phys_frame option \<times> 's) option) \<Rightarrow> vmm \<Rightarrow> phys_addr \<Rightarrow> u64 \<Rightarrow> cache_mode \<Rightarrow>
   (virt_addr \<Rightarrow> u64 \<Rightarrow> 'k \<Rightarrow> 'k option) option \<Rightarrow> table_memory \<Rightarrow> 's \<Rightarrow>
   ((vmm_error + 'k mmio_mapping) \<times> vmm \<times> table_memory \<times> 's) option" where
  "map_mmio_with_cache av alloc self phys sz cache cleanup mem s =
     do { page_count \<leftarrow> page_count_of sz;
          actual_size \<leftarrow> chk_mul page_count 4096;
          (r, ma) \<leftarrow> free_region_allocate av (vm_mmio_alloc self) actual_size;
          let self' = self\<lparr>vm_mmio_alloc := ma\<rparr>;
          (case r of
             None \<Rightarrow> Some (Inl RegionExhausted, self', mem, s)
           | Some virt_base \<Rightarrow> do {
               let cache_flag = (case cache of Uncacheable \<Rightarrow> MF_CACHE_DISABLE | WriteCombine \<Rightarrow> MF_WRITE_COMBINE);
               (mem', s') \<leftarrow> map_device_pages alloc (vm_mapper self) (vm_root_phys self) virt_base phys
                  (MF_WRITABLE OR MF_GLOBAL OR cache_flag) [0..<unat page_count] mem s;
               Some (Inr \<lparr>mm_virt_base = virt_base, mm_phys_base = phys, mm_size = actual_size,
                          mm_cleanup = cleanup\<rparr>, self', mem', s') }) }"

definition map_mmio ::
  "free_range array_vec \<Rightarrow> ('s \<Rightarrow> (phys_frame option \<times> 's) option) \<Rightarrow> vmm \<Rightarrow> phys_addr \<Rightarrow> u64 \<Rightarrow>
   (virt_addr \<Rightarrow> u64 \<Rightarrow> 'k \<Rightarrow> 'k option) option \<Rightarrow> table_memory \<Rightarrow> 's \<Rightarrow>
   ((vmm_error + 'k mmio_mapping) \<times> vmm \<times> table_memory \<times> 's) option" where
  "map_mmio av alloc self phys sz cleanup mem s =
     map_mmio_with_cache av alloc self phys sz Uncacheable cleanup mem s"

definition vmm_map_page ::
  "('s \<Rightarrow> (phys_frame option \<times> 's) option) \<Rightarrow> vmm \<Rightarrow> page \<Rightarrow> phys_frame \<Rightarrow> map_flags \<Rightarrow> table_memory \<Rightarrow> 's \<Rightarrow>
   ((vmm_error + map_flush) \<times> table_memory \<times> 's) option" where
  "vmm_map_page alloc self page frame flags mem s =
     do { (flush, mem', s') \<leftarrow>
            page_mapper_map Size4KiB (expect_frame alloc) (vm_mapper self) (vm_root_phys self) page frame flags mem s;
          Some (Inr flush, mem', s') }"

fun unmap_error_vmm :: "mapper_unmap_error \<Rightarrow> vmm_error" where
  "unmap_error_vmm MapNotMapped = VmmNotMapped"
| "unmap_error_vmm SizeMismatch = VmmSizeMismatch"

text \<open>Besides the result, the addresses flushed from the TLB.\<close>

definition vmm_unmap_page ::
  "vmm \<Rightarrow> page \<Rightarrow> table_memory \<Rightarrow> ((vmm_error + phys_frame) \<times> virt_addr list \<times> table_memory) option" where
  "vmm_unmap_page self page mem =
     do { (r, mem') \<leftarrow> page_mapper_unmap Size4KiB (vm_mapper self) (vm_root_phys self) page mem;
          Some (case r of
             Inl e \<Rightarrow> (Inl (unmap_error_vmm e), [], mem')
           | Inr (frame, flush) \<Rightarrow> (Inr frame, map_flush_flush flush, mem')) }"

definition vmm_translate :: "vmm \<Rightarrow> virt_addr \<Rightarrow> table_memory \<Rightarrow> phys_addr option option" where
  "vmm_translate self virt mem = translate_addr (vm_mapper self) (vm_root_phys self) virt mem"

definition dealloc_stack_region ::
  "free_range array_vec \<Rightarrow> vmm \<Rightarrow> virt_addr \<Rightarrow> ((vmm_error + unit) \<times> vmm) option" where
  "dealloc_stack_region av self guard_addr =
     do { total_size \<leftarrow> chk_add GUARD_PAGE_SIZE KERNEL_STACK_SIZE;
          (r, sa) \<leftarrow> free_region_deallocate av (vm_stacks_alloc self) guard_addr total_size;
          Some (case r of Inl _ \<Rightarrow> Inl RegionExhausted | Inr _ \<Rightarrow> Inr (), self\<lparr>vm_stacks_alloc := sa\<rparr>) }"

definition dealloc_mmio_region ::
  "free_range array_vec \<Rightarrow> vmm \<Rightarrow> virt_addr \<Rightarrow> u64 \<Rightarrow> ((vmm_error + unit) \<times> vmm) option" where
  "dealloc_mmio_region av self virt_base sz =
     do { (r, ma) \<leftarrow> free_region_deallocate av (vm_mmio_alloc self) virt_base sz;
          Some (case r of Inl _ \<Rightarrow> Inl RegionExhausted | Inr _ \<Rightarrow> Inr (), self\<lparr>vm_mmio_alloc := ma\<rparr>) }"

section \<open>Kernel glue\<close>

text \<open>The global VMM, and the cleanup callback that \<^verbatim>\<open>map_mmio_region\<close> gives its mappings.\<close>

fun unmap_pages :: "vmm \<Rightarrow> virt_addr \<Rightarrow> nat list \<Rightarrow> table_memory \<Rightarrow> table_memory option" where
  "unmap_pages vmm virt_base [] mem = Some mem"
| "unmap_pages vmm virt_base (i # is) mem =
     do { off \<leftarrow> chk_mul (of_nat i) 4096;
          let virt = virt_addr_add virt_base off;
          page \<leftarrow> page_containing_address Size4KiB virt;
          (_, _, mem') \<leftarrow> vmm_unmap_page vmm page mem;
          unmap_pages vmm virt_base is mem' }"

type_synonym global_vmm = "vmm option \<times> table_memory"

definition default_mmio_cleanup ::
  "free_range array_vec \<Rightarrow> virt_addr \<Rightarrow> u64 \<Rightarrow> global_vmm \<Rightarrow> global_vmm option" where
  "default_mmio_cleanup av virt_base sz g =
     do { vmm \<leftarrow> fst g;
          let page_count = sz div 4096;
          mem \<leftarrow> unmap_pages vmm virt_base [0..<unat page_count] (snd g);
          (_, vmm') \<leftarrow> dealloc_mmio_region av vmm virt_base sz;
          Some (Some vmm', mem) }"

definition map_mmio_region_with_cache ::
  "free_range array_vec \<Rightarrow> ('s \<Rightarrow> (phys_frame option \<times> 's) option) \<Rightarrow> phys_addr \<Rightarrow> u64 \<Rightarrow> cache_mode \<Rightarrow>
   global_vmm \<Rightarrow> 's \<Rightarrow> (global_vmm mmio_mapping \<times> global_vmm \<times> 's) option" where
  "map_mmio_region_with_cache av alloc phys sz cache g s =
     do { vmm \<leftarrow> fst g;
          (r, vmm', mem, s') \<leftarrow>
            map_mmio_with_cache av alloc vmm phys sz cache (Some (default_mmio_cleanup av)) (snd g) s;
          (case r of Inl _ \<Rightarrow> None | Inr mapping \<Rightarrow> Some (mapping, (Some vmm', mem), s')) }"

definition map_mmio_region ::
  "free_range array_vec \<Rightarrow> ('s \<Rightarrow> (phys_frame option \<times> 's) option) \<Rightarrow> phys_addr \<Rightarrow> u64 \<Rightarrow>
   global_vmm \<Rightarrow> 's \<Rightarrow> (global_vmm mmio_mapping \<times> global_vmm \<times> 's) option" where
  "map_mmio_region av alloc phys sz g s = map_mmio_region_with_cache av alloc phys sz Uncacheable g s"

text \<open>\<^verbatim>\<open>vmm::init\<close>, for a memory map given by its regions' start and size.\<close>

definition max_phys_of :: "(phys_addr \<times> u64) list \<Rightarrow> u64 option" where
  "max_phys_of regions =
     foldl (\<lambda>acc (start, sz). do { a \<leftarrow> acc; e \<leftarrow> chk_add (pa start) sz; Some (max a e) }) (Some 0) regions"

definition vmm_init :: "u64 \<Rightarrow> phys_addr \<Rightarrow> (phys_addr \<times> u64) list \<Rightarrow> global_vmm \<Rightarrow> global_vmm option" where
  "vmm_init hhdm_addr root_phys regions g =
     do { hhdm \<leftarrow> virt_addr_new hhdm_addr;
          max_phys \<leftarrow> max_phys_of regions;
          let vmm = vmm_new root_phys hhdm hhdm max_phys;
          assert_that (fst g = None);
          Some (Some vmm, snd g) }"

definition kernel_map_initial_heap ::
  "('s \<Rightarrow> (phys_frame option \<times> 's) option) \<Rightarrow> global_vmm \<Rightarrow> 's \<Rightarrow> ((usize \<times> usize) \<times> global_vmm \<times> 's) option" where
  "kernel_map_initial_heap alloc g s =
     do { vmm \<leftarrow> fst g;
          (r, vmm', mem, s') \<leftarrow> vmm_map_initial_heap alloc vmm (snd g) s;
          (case r of Inl _ \<Rightarrow> None | Inr (base, sz) \<Rightarrow> Some ((unat (va base), unat sz), (Some vmm', mem), s')) }"

text \<open>The heap's growth callback; \<^const>\<open>None\<close> inside is the \<^verbatim>\<open>None\<close> it returns.\<close>

definition kernel_grow_heap ::
  "('s \<Rightarrow> (phys_frame option \<times> 's) option) \<Rightarrow> usize \<Rightarrow> global_vmm \<Rightarrow> 's \<Rightarrow>
   ((usize \<times> usize) option \<times> global_vmm \<times> 's) option" where
  "kernel_grow_heap alloc min_bytes g s =
     (case fst g of
        None \<Rightarrow> Some (None, g, s)
      | Some vmm \<Rightarrow> do {
          (r, vmm', mem, s') \<leftarrow> vmm_grow_heap alloc vmm (of_nat min_bytes) (snd g) s;
          Some (case r of Inl _ \<Rightarrow> None | Inr (base, sz) \<Rightarrow> Some (unat (va base), unat sz),
                (Some vmm', mem), s') })"


section \<open>Pages of a range\<close>

text \<open>A page-aligned range of \<open>n\<close> pages whose addresses are all canonical.\<close>

definition range_ok :: "virt_addr \<Rightarrow> nat \<Rightarrow> bool" where
  "range_ok base n =
     (virt_ok base \<and> 4096 dvd unat (va base) \<and> unat (va base) + 4096 * n \<le> 2 ^ 64 \<and>
      (\<forall>x. unat (va base) \<le> unat x \<and> unat x < unat (va base) + 4096 * n \<longrightarrow> canonical x))"

definition page_va :: "virt_addr \<Rightarrow> nat \<Rightarrow> virt_addr" where
  "page_va base i = VirtAddr (va base + of_nat i * 4096)"

definition in_range :: "virt_addr \<Rightarrow> nat \<Rightarrow> virt_addr \<Rightarrow> bool" where
  "in_range base n w = (unat (va base) \<le> unat (va w) \<and> unat (va w) < unat (va base) + 4096 * n)"

lemma page_va_unat:
  assumes "range_ok base n" "i < n" shows "unat (va (page_va base i)) = unat (va base) + 4096 * i"
proof -
  have "unat (va base) + 4096 * i < 2 ^ 64" using assms by (simp add: range_ok_def)
  then show ?thesis by (simp add: page_va_def unat_word_ariths unat_of_nat)
qed

lemma page_step:
  assumes r: "range_ok base n" and i: "i < n"
  shows "chk_mul (of_nat i :: u64) 4096 = Some (of_nat i * 4096)" "virt_addr_add base (of_nat i * 4096) = page_va base i"
    "page_containing_address Size4KiB (page_va base i) = Some (Page (page_va base i))" "virt_ok (page_va base i)"
    "4096 dvd unat (va (page_va base i))"
proof -
  have b: "unat (va base) + 4096 * i < 2 ^ 64" using assms by (simp add: range_ok_def)
  then have "unat (of_nat i :: u64) = i" by (simp add: unat_of_nat)
  then show "chk_mul (of_nat i :: u64) 4096 = Some (of_nat i * 4096)" using b by (simp add: chk_mul_def)
  have c: "canonical (va (page_va base i))"
    using r i page_va_unat [OF r i] by (simp add: range_ok_def)
  then show ok: "virt_ok (page_va base i)" by (simp add: virt_ok_def)
  show "virt_addr_add base (of_nat i * 4096) = page_va base i"
    using c by (simp add: virt_addr_add_def page_va_def truncate_canonical)
  show d: "4096 dvd unat (va (page_va base i))"
    using r by (simp add: page_va_unat [OF r i] range_ok_def)
  have "unat (va (page_va base i) AND NOT (mask 12)) = unat (va (page_va base i))"
    using d by (simp add: unat_and_not_mask)
  then show "page_containing_address Size4KiB (page_va base i) = Some (Page (page_va base i))"
    by (simp add: page_containing_address_eq [OF ok] word_unat_eq_iff virt_addr.expand)
qed

lemma same_page_page_va:
  assumes r: "range_ok base n" and i: "i < n"
  shows "same_page Size4KiB w (page_va base i) \<longleftrightarrow>
    unat (va base) + 4096 * i \<le> unat (va w) \<and> unat (va w) < unat (va base) + 4096 * Suc i"
proof -
  obtain k where k: "unat (va base) = 4096 * k" using r by (auto simp: range_ok_def)
  have "unat (va (page_va base i)) div 4096 = k + i" by (simp add: page_va_unat [OF r i] k)
  then have "same_page Size4KiB w (page_va base i) \<longleftrightarrow> unat (va w) div 4096 = k + i"
    by (simp add: same_page_def)
  also have "\<dots> \<longleftrightarrow> 4096 * k + 4096 * i \<le> unat (va w) \<and> unat (va w) < 4096 * k + 4096 * Suc i" by auto
  finally show ?thesis by (simp add: k)
qed

lemma range_ok_Suc: "range_ok base (Suc n) \<Longrightarrow> n \<noteq> 0 \<Longrightarrow> range_ok (page_va base 1) n"
  using page_va_unat [of base "Suc n" 1] page_step(4) [of base "Suc n" 1]
  by (auto simp: range_ok_def)

section \<open>Writing data frames\<close>

lemma data_write:
  assumes wf: "pt_wf h r m" and t: "t \<notin> tables m r" and z: "length z = 512"
  shows "pt_wf h r (m(t := z))" "tables (m(t := z)) r = tables m r"
    "translate h (PhysAddr r) w (m(t := z)) = translate h (PhysAddr r) w m"
proof -
  have *: "walk (m(t := z)) r q = walk m r q \<and> resolve (m(t := z)) r q = resolve m r q" if "length q \<le> 4" for q
  proof (rule walk_cong)
    fix a j b v assume "q = a @ j # b" "walk m r a = Some v"
    then have "v \<noteq> t" using that t walk_in_tables by force
    then show "(m(t := z)) v ! j = m v ! j" by simp
  qed
  then show tab: "tables (m(t := z)) r = tables m r" by (auto simp: tables_def)
  have "r \<noteq> t" using walk_in_tables [of m r "[]" r] t by auto
  then show wf': "pt_wf h r (m(t := z))"
    using pt_wf_same_walks [OF wf, of "m(t := z)"] * pt_wfD(1,4) [OF wf] z by simp
  show "translate h (PhysAddr r) w (m(t := z)) = translate h (PhysAddr r) w m"
    using * by (simp add: translate_resolve [OF wf] translate_resolve [OF wf'])
qed


text \<open>
  Memory between two states in which the tree grew and the frames \<open>F\<close> were zeroed: nothing else but
  tables changes.
\<close>

definition frames_zeroed :: "u64 \<Rightarrow> table_memory \<Rightarrow> phys_frame set \<Rightarrow> table_memory \<Rightarrow> bool" where
  "frames_zeroed r m F m' =
     (tables m r \<subseteq> tables m' r \<and>
      (\<forall>t. t \<notin> tables m' r \<longrightarrow>
        m' t = (if t \<in> (\<lambda>f. pa (frame_start f)) ` F then replicate 512 pte_empty else m t)))"

lemma frames_zeroed_trans:
  assumes "frames_zeroed r m F m1" "frames_zeroed r m1 G m2" shows "frames_zeroed r m (F \<union> G) m2"
  unfolding frames_zeroed_def
proof (intro conjI allI impI)
  show "tables m r \<subseteq> tables m2 r" using assms by (auto simp: frames_zeroed_def)
  fix t assume "t \<notin> tables m2 r"
  moreover from this have "t \<notin> tables m1 r" using assms(2) by (auto simp: frames_zeroed_def)
  ultimately show "m2 t = (if t \<in> (\<lambda>f. pa (frame_start f)) ` (F \<union> G) then replicate 512 pte_empty else m t)"
    using assms unfolding frames_zeroed_def image_Un by simp
qed

lemma translate_addr_aligned:
  assumes "translate h root v m = Some (Page4KiB f fl)" "phys_frame_ok Size4KiB f" "4096 dvd unat (va v)"
  shows "translate_addr h root v m = Some (Some (frame_start f))"
proof -
  have "va v AND mask 12 = 0"
    using assms(3) by (simp add: word_unat_eq_iff unat_and_mask)
  then show ?thesis using translate_addr_page [of h root v m Size4KiB "frame_start f" fl] assms(1,2) by simp
qed

text \<open>The translation after mapping the pages from index \<open>j\<close> of a range to the frames \<open>fs\<close>.\<close>

definition maps_pages ::
  "virt_addr \<Rightarrow> u64 \<Rightarrow> table_memory \<Rightarrow> virt_addr \<Rightarrow> nat \<Rightarrow> phys_frame list \<Rightarrow> page_table_flags \<Rightarrow> table_memory \<Rightarrow> bool" where
  "maps_pages h r m base j fs fl m' =
     (\<forall>w. virt_ok w \<longrightarrow> translate h (PhysAddr r) w m' =
       (if unat (va base) + 4096 * j \<le> unat (va w) \<and> unat (va w) < unat (va base) + 4096 * (j + length fs)
        then Some (Page4KiB (fs ! ((unat (va w) - unat (va base)) div 4096 - j)) fl)
        else translate h (PhysAddr r) w m))"

lemma maps_pages_Cons:
  assumes w: "\<forall>w. virt_ok w \<longrightarrow> translate h (PhysAddr r) w m1 =
      (if unat (va base) + 4096 * j \<le> unat (va w) \<and> unat (va w) < unat (va base) + 4096 * Suc j
       then Some (Page4KiB f fl) else translate h (PhysAddr r) w m)"
    and rest: "maps_pages h r m1 base (Suc j) fs fl m'"
  shows "maps_pages h r m base j (f # fs) fl m'"
  unfolding maps_pages_def
proof (intro allI impI)
  fix v assume v: "virt_ok v"
  define d where "d = unat (va v) - unat (va base)"
  consider "unat (va v) < unat (va base) + 4096 * j"
    | "unat (va base) + 4096 * j \<le> unat (va v)" "d div 4096 = j"
    | "unat (va base) + 4096 * Suc j \<le> unat (va v)" "Suc j \<le> d div 4096"
  proof -
    have "d div 4096 = j \<or> Suc j \<le> d div 4096" if "4096 * j \<le> d"
      using that by (metis Suc_leI div_le_mono le_neq_implies_less nonzero_mult_div_cancel_left zero_neq_numeral)
    moreover have "4096 * Suc j \<le> d" if "Suc j \<le> d div 4096" using that by simp
    ultimately show ?thesis using that unfolding d_def by fastforce
  qed
  then show "translate h (PhysAddr r) v m' =
     (if unat (va base) + 4096 * j \<le> unat (va v) \<and> unat (va v) < unat (va base) + 4096 * (j + length (f # fs))
      then Some (Page4KiB ((f # fs) ! ((unat (va v) - unat (va base)) div 4096 - j)) fl)
      else translate h (PhysAddr r) v m)"
  proof cases
    case 1
    then show ?thesis using w v rest by (simp add: maps_pages_def)
  next
    case 2
    then have "unat (va v) < unat (va base) + 4096 * Suc j" using d_def by auto
    then show ?thesis using 2 [unfolded d_def] w v rest by (simp add: maps_pages_def)
  next
    case 3
    then have "(f # fs) ! (d div 4096 - j) = fs ! (d div 4096 - Suc j)" by (simp add: nth_Cons')
    then show ?thesis using 3 [unfolded d_def] w v rest by (simp add: maps_pages_def d_def)
  qed
qed


section \<open>Device frames\<close>

definition device_frame :: "phys_addr \<Rightarrow> nat \<Rightarrow> phys_frame" where
  "device_frame phys i = PhysFrame (PhysAddr ((pa phys + of_nat i * 4096) AND NOT (mask 12)))"

lemma device_step:
  assumes "unat (pa phys) + 4096 * i < 2 ^ 52"
  shows "phys_addr_add phys (of_nat i * 4096) = Some (PhysAddr (pa phys + of_nat i * 4096))"
    "phys_frame_containing_address Size4KiB (PhysAddr (pa phys + of_nat i * 4096)) = Some (device_frame phys i)"
    "phys_frame_ok Size4KiB (device_frame phys i)"
    "unat (pa (frame_start (device_frame phys i))) = unat (pa phys) div 4096 * 4096 + 4096 * i"
proof -
  have o: "unat (of_nat i * 4096 :: u64) = i * 4096" using assms by (simp add: unat_word_ariths unat_of_nat)
  then have u: "unat (pa phys + of_nat i * 4096) = unat (pa phys) + 4096 * i"
    using assms by (simp add: unat_word_ariths)
  then show "phys_addr_add phys (of_nat i * 4096) = Some (PhysAddr (pa phys + of_nat i * 4096))"
    using assms o by (simp add: phys_addr_add_def chk_add_def phys_addr_new_Some_iff)
  show "phys_frame_containing_address Size4KiB (PhysAddr (pa phys + of_nat i * 4096)) = Some (device_frame phys i)"
    by (simp add: phys_frame_containing_address_eq device_frame_def)
  show v: "unat (pa (frame_start (device_frame phys i))) = unat (pa phys) div 4096 * 4096 + 4096 * i"
    by (simp add: device_frame_def unat_and_not_mask u minus_mod_eq_div_mult [symmetric])
  have "unat (pa phys) div 4096 * 4096 \<le> unat (pa phys)" by simp
  then show "phys_frame_ok Size4KiB (device_frame phys i)"
    using assms v by (simp add: phys_frame_ok_def phys_ok_def unat_page_size)
qed

section \<open>Mapping loops over a frame allocator\<close>

context frame_allocator
begin

lemma map_zeroed_page:
  assumes wf: "pt_wf h r m" and fresh: "frames_fresh h r m (avail s \<union> X)" and s: "ainv s" "4 \<le> card (avail s)"
    and X: "avail s \<inter> X = {}" and rg: "range_ok base n" "i < n"
    and free: "translate h (PhysAddr r) (page_va base i) m = Some TNotMapped"
    and fl: "\<not> flags_contains fl MF_WRITE_COMBINE"
  shows "\<exists>f m' s'. (\<forall>is. map_zeroed_pages alloc h (PhysAddr r) base fl (i # is) m s =
        map_zeroed_pages alloc h (PhysAddr r) base fl is m' s') \<and>
      f \<in> avail s \<and> ainv s' \<and> avail s' \<subseteq> avail s - {f} \<and> card (avail s) \<le> card (avail s') + 4 \<and>
      pt_wf h r m' \<and> frames_fresh h r m' (avail s' \<union> insert f X) \<and> frames_zeroed r m {f} m' \<and>
      (\<forall>w. virt_ok w \<longrightarrow> translate h (PhysAddr r) w m' =
        (if unat (va base) + 4096 * i \<le> unat (va w) \<and> unat (va w) < unat (va base) + 4096 * Suc i
         then Some (Page4KiB f (map_flags_to_native fl)) else translate h (PhysAddr r) w m))"
proof -
  let ?v = "page_va base i"
  note P = page_step [OF rg]
  have ne: "avail s \<noteq> {}" using s(2) by fastforce
  from alloc_law [OF s(1)] ne obtain f s1 where a: "alloc s = Some (Some f, s1)" "ainv s1" "f \<in> avail s"
    "avail s1 = avail s - {f}" by (auto split: option.splits)
  have f: "phys_frame_ok Size4KiB f" using tracked_ok [OF s(1)] avail_tracked [OF s(1)] a(3) by blast
  have c1: "card (avail s) = Suc (card (avail s1))"
    unfolding a(4) by (rule card_Suc_Diff1 [OF avail_finite [OF s(1)] a(3), symmetric])
  have fresh1: "frames_fresh h r m (avail s1 \<union> insert f X)"
    using fresh a(3,4) by (auto simp: frames_fresh_def)
  have X1: "avail s1 \<inter> insert f X = {}" using X a(4) by auto
  have mp: "mappable Size4KiB h r m (page_start (Page ?v))" using free by (simp add: mappable_def)
  have v: "virt_ok (page_start (Page ?v))" using P(4) by simp
  have "3 \<le> card (avail s1)" using c1 s(2) by simp
  from page_mapper_map_keeps [OF wf fresh1 a(2) this X1 v f mp native_flags_bits(1) [OF fl]]
  obtain m1 s2 where b: "page_mapper_map Size4KiB (expect_frame alloc) h (PhysAddr r) (Page ?v) f fl m s1 =
      Some (map_flush_new ?v, m1, s2)" "ainv s2" "avail s2 \<subseteq> avail s1" "card (avail s1) \<le> card (avail s2) + 3"
    "pt_wf h r m1" "frames_fresh h r m1 (avail s2 \<union> insert f X)" "writes_tables r m m1"
    "\<forall>w. virt_ok w \<longrightarrow> translate h (PhysAddr r) w m1 = (if same_page Size4KiB w ?v
       then Some (Page4KiB f (map_flags_to_native fl)) else translate h (PhysAddr r) w m)"
    unfolding leaf_result_native [OF fl f] by auto
  have "translate h (PhysAddr r) ?v m1 = Some (Page4KiB f (map_flags_to_native fl))"
    using b(8) P(4) by (simp add: same_page_def)
  from translate_addr_aligned [OF this f P(5)]
  have z: "zero_page h (PhysAddr r) ?v m1 = Some (m1(pa (frame_start f) := replicate 512 pte_empty))"
    by (simp add: zero_page_def)
  define m2 where "m2 = m1(pa (frame_start f) := replicate 512 pte_empty)"
  have nt: "pa (frame_start f) \<notin> tables m1 r" using b(6) by (simp add: frames_fresh_def)
  note d = data_write [OF b(5) nt, of "replicate 512 pte_empty", folded m2_def, simplified]
  have "map_zeroed_pages alloc h (PhysAddr r) base fl (i # is) m s =
      map_zeroed_pages alloc h (PhysAddr r) base fl is m2 s2" for "is"
    using a(1) b(1) z by (simp add: P(1-3) m2_def Let_def)
  moreover have "frames_zeroed r m {f} m2"
    using b(7) d(2) by (auto simp: frames_zeroed_def writes_tables_def m2_def)
  moreover have "frames_fresh h r m2 (avail s2 \<union> insert f X)" using b(6) d(2) by (simp add: frames_fresh_def)
  moreover have "\<forall>w. virt_ok w \<longrightarrow> translate h (PhysAddr r) w m2 =
        (if unat (va base) + 4096 * i \<le> unat (va w) \<and> unat (va w) < unat (va base) + 4096 * Suc i
         then Some (Page4KiB f (map_flags_to_native fl)) else translate h (PhysAddr r) w m)"
    using b(8) unfolding d(3) same_page_page_va [OF rg] .
  moreover have "avail s2 \<subseteq> avail s - {f}" "card (avail s) \<le> card (avail s2) + 4"
    using b(3,4) a(4) c1 by simp_all
  ultimately show ?thesis using a(3) b(2) d(1) by blast
qed

lemma map_zeroed_pages_spec:
  assumes "pt_wf h r m" "frames_fresh h r m (avail s \<union> X)" "ainv s" "4 * (n - j) \<le> card (avail s)"
    and "avail s \<inter> X = {}" "range_ok base n" "j \<le> n"
    and "\<forall>i \<in> {j..<n}. translate h (PhysAddr r) (page_va base i) m = Some TNotMapped"
    and "\<not> flags_contains fl MF_WRITE_COMBINE"
  shows "\<exists>fs m' s'. map_zeroed_pages alloc h (PhysAddr r) base fl [j..<n] m s = Some (Inr (), m', s') \<and>
      length fs = n - j \<and> distinct fs \<and> set fs \<subseteq> avail s \<and> ainv s' \<and> avail s' \<subseteq> avail s - set fs \<and>
      pt_wf h r m' \<and> frames_fresh h r m' (avail s' \<union> (set fs \<union> X)) \<and> frames_zeroed r m (set fs) m' \<and>
      maps_pages h r m base j fs (map_flags_to_native fl) m'"
  using assms
proof (induction "n - j" arbitrary: j m s X)
  case 0
  then show ?case by (auto simp: frames_zeroed_def maps_pages_def intro!: exI [of _ "[]"])
next
  case (Suc k)
  have j: "j < n" and up: "[j..<n] = j # [Suc j..<n]" using Suc.hyps(2) by (simp_all add: upt_conv_Cons)
  have c: "4 \<le> card (avail s)" using Suc.prems(4) j by simp
  from map_zeroed_page [OF Suc.prems(1-3) c Suc.prems(5,6) j _ Suc.prems(9)] Suc.prems(8) j
  obtain f m1 s1 where a: "\<forall>is. map_zeroed_pages alloc h (PhysAddr r) base fl (j # is) m s =
        map_zeroed_pages alloc h (PhysAddr r) base fl is m1 s1"
      "f \<in> avail s" "ainv s1" "avail s1 \<subseteq> avail s - {f}" "card (avail s) \<le> card (avail s1) + 4"
      "pt_wf h r m1" "frames_fresh h r m1 (avail s1 \<union> insert f X)" "frames_zeroed r m {f} m1"
      "\<forall>w. virt_ok w \<longrightarrow> translate h (PhysAddr r) w m1 =
        (if unat (va base) + 4096 * j \<le> unat (va w) \<and> unat (va w) < unat (va base) + 4096 * Suc j
         then Some (Page4KiB f (map_flags_to_native fl)) else translate h (PhysAddr r) w m)" by auto
  have X1: "avail s1 \<inter> insert f X = {}" using a(4) Suc.prems(5) by auto
  have c1: "4 * (n - Suc j) \<le> card (avail s1)" using a(5) Suc.prems(4) j by simp
  have later: "\<forall>i \<in> {Suc j..<n}. translate h (PhysAddr r) (page_va base i) m1 = Some TNotMapped"
    using a(9) Suc.prems(8) page_va_unat [OF Suc.prems(6)] page_step(4) [OF Suc.prems(6)] by auto
  have k: "k = n - Suc j" and le: "Suc j \<le> n" using Suc.hyps(2) j by simp_all
  from Suc.hyps(1) [OF k a(6,7,3) c1 X1 Suc.prems(6) le later Suc.prems(9)] obtain fs m' s' where
    b: "map_zeroed_pages alloc h (PhysAddr r) base fl [Suc j..<n] m1 s1 = Some (Inr (), m', s')"
      "length fs = n - Suc j" "distinct fs" "set fs \<subseteq> avail s1" "ainv s'" "avail s' \<subseteq> avail s1 - set fs"
      "pt_wf h r m'" "frames_fresh h r m' (avail s' \<union> (set fs \<union> insert f X))" "frames_zeroed r m1 (set fs) m'"
      "maps_pages h r m1 base (Suc j) fs (map_flags_to_native fl) m'" by blast
  have "maps_pages h r m base j (f # fs) (map_flags_to_native fl) m'" by (rule maps_pages_Cons [OF a(9) b(10)])
  moreover have "frames_zeroed r m (set (f # fs)) m'" using frames_zeroed_trans [OF a(8) b(9)] by simp
  moreover have "map_zeroed_pages alloc h (PhysAddr r) base fl [j..<n] m s = Some (Inr (), m', s')"
    unfolding up using a(1) b(1) by simp
  moreover have "frames_fresh h r m' (avail s' \<union> (set (f # fs) \<union> X))" using b(8) by (simp add: insert_commute)
  ultimately show ?case using b a(2,4) j by (intro exI [of _ "f # fs"] exI [of _ m'] exI [of _ s']) auto
qed


lemma map_device_pages_spec:
  assumes "pt_wf h r m" "frames_fresh h r m (avail s)" "ainv s" "3 * (n - j) \<le> card (avail s)"
    and "range_ok base n" "j \<le> n" "unat (pa phys) + 4096 * n \<le> 2 ^ 52"
    and "\<forall>i \<in> {j..<n}. translate h (PhysAddr r) (page_va base i) m = Some TNotMapped"
    and "\<not> flags_contains fl MF_WRITE_COMBINE"
  shows "\<exists>m' s'. map_device_pages alloc h (PhysAddr r) base phys fl [j..<n] m s = Some (m', s') \<and>
      ainv s' \<and> avail s' \<subseteq> avail s \<and> pt_wf h r m' \<and> frames_fresh h r m' (avail s') \<and> writes_tables r m m' \<and>
      maps_pages h r m base j (map (device_frame phys) [j..<n]) (map_flags_to_native fl) m'"
  using assms
proof (induction "n - j" arbitrary: j m s)
  case 0
  then show ?case by (auto simp: maps_pages_def)
next
  case (Suc k)
  let ?v = "page_va base j"
  have j: "j < n" and up: "[j..<n] = j # [Suc j..<n]" using Suc.hyps(2) by (simp_all add: upt_conv_Cons)
  note P = page_step [OF Suc.prems(5) j]
  have "unat (pa phys) + 4096 * j < 2 ^ 52" using Suc.prems(7) j by simp
  note D = device_step [OF this]
  have c: "3 \<le> card (avail s)" using Suc.prems(4) j by simp
  have free: "translate h (PhysAddr r) ?v m = Some TNotMapped" using Suc.prems(8) j by simp
  have mp: "mappable Size4KiB h r m (page_start (Page ?v))" using free by (simp add: mappable_def)
  have v: "virt_ok (page_start (Page ?v))" using P(4) by simp
  have fr: "frames_fresh h r m (avail s \<union> {})" using Suc.prems(2) by simp
  from page_mapper_map_keeps [OF Suc.prems(1) fr Suc.prems(3) c _ v D(3) mp native_flags_bits(1) [OF Suc.prems(9)]]
  obtain m1 s1 where b: "page_mapper_map Size4KiB (expect_frame alloc) h (PhysAddr r) (Page ?v) (device_frame phys j) fl m s =
      Some (map_flush_new ?v, m1, s1)" "ainv s1" "avail s1 \<subseteq> avail s" "card (avail s) \<le> card (avail s1) + 3"
    "pt_wf h r m1" "frames_fresh h r m1 (avail s1)" "writes_tables r m m1"
    "\<forall>w. virt_ok w \<longrightarrow> translate h (PhysAddr r) w m1 = (if same_page Size4KiB w ?v
       then Some (Page4KiB (device_frame phys j) (map_flags_to_native fl)) else translate h (PhysAddr r) w m)"
    unfolding leaf_result_native [OF Suc.prems(9) D(3)] by auto
  note tr = b(8) [unfolded same_page_page_va [OF Suc.prems(5) j]]
  have later: "\<forall>i \<in> {Suc j..<n}. translate h (PhysAddr r) (page_va base i) m1 = Some TNotMapped"
    using tr Suc.prems(8) page_va_unat [OF Suc.prems(5)] page_step(4) [OF Suc.prems(5)] by auto
  have c1: "3 * (n - Suc j) \<le> card (avail s1)" using b(4) Suc.prems(4) j by simp
  have k: "k = n - Suc j" and le: "Suc j \<le> n" using Suc.hyps(2) j by simp_all
  from Suc.hyps(1) [OF k b(5,6,2) c1 Suc.prems(5) le Suc.prems(7) later Suc.prems(9)] obtain m' s' where
    e: "map_device_pages alloc h (PhysAddr r) base phys fl [Suc j..<n] m1 s1 = Some (m', s')" "ainv s'"
      "avail s' \<subseteq> avail s1" "pt_wf h r m'" "frames_fresh h r m' (avail s')" "writes_tables r m1 m'"
      "maps_pages h r m1 base (Suc j) (map (device_frame phys) [Suc j..<n]) (map_flags_to_native fl) m'" by blast
  have "map_device_pages alloc h (PhysAddr r) base phys fl [j..<n] m s = Some (m', s')"
    unfolding up using b(1) e(1) D(1,2) by (simp add: P(1-3) Let_def)
  moreover have "maps_pages h r m base j (map (device_frame phys) [j..<n]) (map_flags_to_native fl) m'"
    unfolding up list.map by (rule maps_pages_Cons [OF tr e(7)])
  ultimately show ?case using e b(3) writes_tables_trans [OF b(7) e(6)] by blast
qed

end

section \<open>Unmapping\<close>

lemma unmap_pages_spec:
  assumes "pt_wf (vm_mapper vmm) r m" "vm_root_phys vmm = PhysAddr r" "range_ok base n" "j \<le> n"
    and "\<forall>i \<in> {j..<n}. \<exists>f fl. translate (vm_mapper vmm) (PhysAddr r) (page_va base i) m = Some (Page4KiB f fl)"
  shows "\<exists>m'. unmap_pages vmm base [j..<n] m = Some m' \<and> pt_wf (vm_mapper vmm) r m' \<and> tables m' r = tables m r \<and>
      (\<forall>w. virt_ok w \<longrightarrow> translate (vm_mapper vmm) (PhysAddr r) w m' =
        (if unat (va base) + 4096 * j \<le> unat (va w) \<and> unat (va w) < unat (va base) + 4096 * n
         then Some TNotMapped else translate (vm_mapper vmm) (PhysAddr r) w m))"
  using assms
proof (induction "n - j" arbitrary: j m)
  case 0
  then show ?case by auto
next
  case (Suc k)
  let ?h = "vm_mapper vmm" and ?v = "page_va base j"
  have j: "j < n" and up: "[j..<n] = j # [Suc j..<n]" using Suc.hyps(2) by (simp_all add: upt_conv_Cons)
  note P = page_step [OF Suc.prems(3) j]
  have "j \<in> {j..<n}" using j by simp
  then obtain f fl where t: "translate ?h (PhysAddr r) (page_start (Page ?v)) m = Some (Page4KiB f fl)"
    using Suc.prems(5) unfolding page.sel by blast
  have v: "virt_ok (page_start (Page ?v))" using P(4) by simp
  from page_mapper_unmap_spec [OF Suc.prems(1) v t, of Size4KiB] obtain fr m1 where
    b: "page_mapper_unmap Size4KiB ?h (PhysAddr r) (Page ?v) m = Some (Inr (fr, map_flush_new ?v), m1)"
      "pt_wf ?h r m1" "tables m1 r = tables m r"
      "\<forall>w. virt_ok w \<longrightarrow> translate ?h (PhysAddr r) w m1 =
        (if same_page Size4KiB w ?v then Some TNotMapped else translate ?h (PhysAddr r) w m)" by auto
  note tr = b(4) [unfolded same_page_page_va [OF Suc.prems(3) j]]
  have later: "\<forall>i \<in> {Suc j..<n}. \<exists>f fl. translate ?h (PhysAddr r) (page_va base i) m1 = Some (Page4KiB f fl)"
    using tr Suc.prems(5) page_va_unat [OF Suc.prems(3)] page_step(4) [OF Suc.prems(3)] by auto
  have k: "k = n - Suc j" and le: "Suc j \<le> n" using Suc.hyps(2) j by simp_all
  from Suc.hyps(1) [OF k b(2) Suc.prems(2,3) le later] obtain m' where
    e: "unmap_pages vmm base [Suc j..<n] m1 = Some m'" "pt_wf ?h r m'" "tables m' r = tables m1 r"
      "\<forall>w. virt_ok w \<longrightarrow> translate ?h (PhysAddr r) w m' =
        (if unat (va base) + 4096 * Suc j \<le> unat (va w) \<and> unat (va w) < unat (va base) + 4096 * n
         then Some TNotMapped else translate ?h (PhysAddr r) w m1)" by blast
  have "vmm_unmap_page vmm (Page ?v) m = Some (Inr fr, map_flush_flush (map_flush_new ?v), m1)"
    using b(1) by (simp add: vmm_unmap_page_def Suc.prems(2))
  then have "unmap_pages vmm base [j..<n] m = Some m'" unfolding up using e(1) by (simp add: P(1-3) Let_def)
  moreover have "translate ?h (PhysAddr r) w m' =
      (if unat (va base) + 4096 * j \<le> unat (va w) \<and> unat (va w) < unat (va base) + 4096 * n
       then Some TNotMapped else translate ?h (PhysAddr r) w m)" if "virt_ok w" for w
    using e(4) [rule_format, OF that] tr [rule_format, OF that] j by simp
  ultimately show ?case using e(2,3) b(3) by auto
qed


section \<open>The invariant of the VMM\<close>

definition unmapped :: "virt_addr \<Rightarrow> u64 \<Rightarrow> table_memory \<Rightarrow> nat set \<Rightarrow> bool" where
  "unmapped h r m A = (\<forall>w. virt_ok w \<longrightarrow> unat (va w) \<in> A \<longrightarrow> translate h (PhysAddr r) w m = Some TNotMapped)"

abbreviation vm_root :: "vmm \<Rightarrow> u64" where "vm_root v \<equiv> pa (vm_root_phys v)"

definition heap_free :: "vmm \<Rightarrow> nat set" where "heap_free v = bump_free (vm_heap_alloc v)"
definition stacks_free :: "vmm \<Rightarrow> nat set" where "stacks_free v = fra_free (vm_stacks_alloc v)"
definition mmio_free :: "vmm \<Rightarrow> nat set" where "mmio_free v = fra_free (vm_mmio_alloc v)"

definition regions_inv :: "free_range array_vec \<Rightarrow> free_range array_vec \<Rightarrow> vmm \<Rightarrow> bool" where
  "regions_inv avs avm v =
     (bump_roomy (vm_heap_alloc v) \<and> fra_roomy STACKS_FREE_LIST_CAP avs (vm_stacks_alloc v) \<and>
      fra_roomy MMIO_FREE_LIST_CAP avm (vm_mmio_alloc v) \<and> heap_free v \<inter> stacks_free v = {} \<and>
      heap_free v \<inter> mmio_free v = {} \<and> stacks_free v \<inter> mmio_free v = {})"

definition vmm_inv ::
  "free_range array_vec \<Rightarrow> free_range array_vec \<Rightarrow> vmm \<Rightarrow> table_memory \<Rightarrow> bitmap_allocator \<times> word_memory \<Rightarrow> bool" where
  "vmm_inv avs avm v m s =
     (regions_inv avs avm v \<and> pmm_good False s \<and> pt_wf (vm_mapper v) (vm_root v) m \<and>
      frames_fresh (vm_mapper v) (vm_root v) m (pmm_avail s) \<and>
      unmapped (vm_mapper v) (vm_root v) m (heap_free v \<union> stacks_free v \<union> mmio_free v))"

lemma vmm_invD:
  assumes "vmm_inv avs avm v m s"
  shows "regions_inv avs avm v" "pmm_good False s" "pt_wf (vm_mapper v) (vm_root v) m"
    "frames_fresh (vm_mapper v) (vm_root v) m (pmm_avail s)"
    "unmapped (vm_mapper v) (vm_root v) m (heap_free v \<union> stacks_free v \<union> mmio_free v)"
  using assms by (simp_all add: vmm_inv_def)

abbreviation pages :: "virt_addr \<Rightarrow> nat \<Rightarrow> nat set" where
  "pages v n \<equiv> {unat (va v)..<unat (va v) + 4096 * n}"

lemma pages_up_pages: "pages_up n = 4096 * (pages_up n div 4096)" "pages_up (pages_up n) = pages_up n"
  using pages_up_bounds(3) [of n] by (auto simp: pages_up_def)

lemma page_count_of_eq:
  assumes "0 < unat bytes" "pages_up (unat bytes) \<le> 2 ^ 44"
  obtains c where "page_count_of bytes = Some c" "4096 * unat c = pages_up (unat bytes)"
    "chk_mul c 4096 = Some (c * 4096)" "unat (c * 4096) = pages_up (unat bytes)"
    "request_ok (c * 4096)" "pages_up (unat (c * 4096)) = pages_up (unat bytes)"
proof -
  have b: "unat bytes \<le> 2 ^ 44" using assms(2) pages_up_bounds(1) [of "unat bytes"] by linarith
  let ?a = "bytes + 4096"
  have a: "unat ?a = unat bytes + 4096" using b by (simp add: unat_word_ariths)
  have s: "unat (?a - 1) = unat bytes + 4095" using b by (simp add: unat_word_ariths)
  define c where "c = (?a - 1) div 4096"
  have c: "unat c = (unat bytes + 4095) div 4096" unfolding c_def unat_div s by simp
  have m: "unat c * 4096 = pages_up (unat bytes)" by (simp add: c pages_up_def)
  then have m': "unat (c * 4096) = pages_up (unat bytes)" using assms(2) by (simp add: unat_word_ariths)
  have run: "page_count_of bytes = Some c"
    using a b by (simp add: page_count_of_def chk_add_def chk_sub_def c_def word_le_nat_alt)
  have mul: "chk_mul c 4096 = Some (c * 4096)" using m assms(2) by (simp add: chk_mul_def)
  have pos: "0 < pages_up (unat bytes)" using assms(1) pages_up_bounds(1) [of "unat bytes"] by simp
  have rq: "request_ok (c * 4096)" using pos assms(2) by (simp add: request_ok_def m' pages_up_pages(2))
  show ?thesis by (rule that [OF run _ mul m' rq]) (simp_all add: m m' pages_up_pages(2) mult.commute)
qed

lemma range_of_avail:
  assumes "virt_ok v" "4096 dvd unat (va v)" "pages v n \<subseteq> A" "A \<subseteq> {..<2 ^ 64}"
    and "\<And>a. unat a \<in> A \<Longrightarrow> canonical a"
  shows "range_ok v n"
proof -
  have "unat (va v) + 4096 * n \<le> 2 ^ 64"
  proof (cases "n = 0")
    case True
    then show ?thesis using unsigned_less [of "va v", where ?'a = nat] by simp
  next
    case False
    then have "unat (va v) + 4096 * n - 1 \<in> A" using assms(3) by auto
    then show ?thesis using assms(4) by auto
  qed
  moreover have "canonical x" if "unat (va v) \<le> unat x \<and> unat x < unat (va v) + 4096 * n" for x
    using that assms(3) by (intro assms(5)) auto
  ultimately show ?thesis using assms(1,2) by (simp add: range_ok_def)
qed

context range_allocator
begin

lemma alloc_pages:
  assumes inv: "rinv s" and sz: "admissible sz" and n: "pages_up (unat sz) = 4096 * n"
    and room: "{q..<q + 4096 * n} \<subseteq> ravail s"
  shows "\<exists>v s'. alloc s sz = Some (Some v, s') \<and> rinv s' \<and> virt_ok v \<and> 4096 dvd unat (va v) \<and>
    pages v n \<subseteq> ravail s \<and> ravail s' = ravail s - pages v n \<and> range_ok v n"
proof -
  obtain r s' where a: "alloc s sz = Some (r, s')" "rinv s'"
    "case r of None \<Rightarrow> s' = s \<and> \<not> (\<exists>b. {b..<b + 4096 * n} \<subseteq> ravail s)
     | Some v \<Rightarrow> virt_ok v \<and> 4096 dvd unat (va v) \<and> pages v n \<subseteq> ravail s \<and> ravail s' = ravail s - pages v n"
    using alloc_law [OF inv sz] unfolding n by blast
  then obtain v where v: "r = Some v" using room by (cases r) auto
  have "range_ok v n"
    using a(3) by (intro range_of_avail [of v n "ravail s"] avail_below [OF inv] avail_canonical [OF inv])
      (simp_all add: v)
  then show ?thesis using a by (simp add: v)
qed

end

lemma unmapped_pages:
  assumes "unmapped h r m A" "pages v n \<subseteq> A" "range_ok v n" "i < n"
  shows "translate h (PhysAddr r) (page_va v i) m = Some TNotMapped"
proof -
  have "unat (va (page_va v i)) \<in> A" using assms(2,4) by (auto simp: page_va_unat [OF assms(3,4)])
  then show ?thesis using assms(1) page_step(4) [OF assms(3,4)] by (simp add: unmapped_def)
qed

lemma unmapped_maps_pages:
  assumes "unmapped h r m A" "maps_pages h r m v 0 fs fl m'" "length fs = n" "B \<subseteq> A - pages v n"
  shows "unmapped h r m' B"
  using assms by (auto simp: unmapped_def maps_pages_def)

lemma kernel_flags_plain: "\<not> flags_contains (MF_WRITABLE OR MF_GLOBAL) MF_WRITE_COMBINE"
  "\<not> flags_contains (MF_WRITABLE OR MF_GLOBAL OR MF_CACHE_DISABLE) MF_WRITE_COMBINE"
  by (simp_all add: MF_WRITE_COMBINE_def MF_WRITABLE_def MF_GLOBAL_def MF_CACHE_DISABLE_def flags_contains_def)

lemma regions_inv_shrink:
  assumes "regions_inv avs avm v" "heap_free v' \<subseteq> heap_free v" "stacks_free v' \<subseteq> stacks_free v" "mmio_free v' \<subseteq> mmio_free v"
    and "bump_roomy (vm_heap_alloc v')" "fra_roomy STACKS_FREE_LIST_CAP avs (vm_stacks_alloc v')"
      "fra_roomy MMIO_FREE_LIST_CAP avm (vm_mmio_alloc v')"
  shows "regions_inv avs avm v'"
  using assms unfolding regions_inv_def by blast


section \<open>Heap growth and stacks\<close>

text \<open>
  Going from memory \<open>m\<close> and allocator \<open>s\<close> to \<open>m'\<close> and \<open>s'\<close>, the \<open>n\<close> pages at \<open>base\<close> were mapped writable to
  distinct frames that were free, which are no page tables and hold zeros; the rest of memory except
  page tables and the translation of every other address are as before.
\<close>

definition maps_fresh ::
  "vmm \<Rightarrow> table_memory \<Rightarrow> bitmap_allocator \<times> word_memory \<Rightarrow> virt_addr \<Rightarrow> nat \<Rightarrow> table_memory \<Rightarrow>
   bitmap_allocator \<times> word_memory \<Rightarrow> bool" where
  "maps_fresh v m s base n m' s' =
     (\<exists>fs. length fs = n \<and> distinct fs \<and> set fs \<subseteq> pmm_avail s \<and> pmm_avail s' \<subseteq> pmm_avail s - set fs \<and>
       (\<forall>f \<in> set fs. pa (frame_start f) \<notin> tables m' (vm_root v)) \<and> frames_zeroed (vm_root v) m (set fs) m' \<and>
       maps_pages (vm_mapper v) (vm_root v) m base 0 fs (map_flags_to_native (MF_WRITABLE OR MF_GLOBAL)) m')"

lemma maps_fresh_unmapped:
  assumes "maps_fresh v m s base n m' s'" "unmapped (vm_mapper v) (vm_root v) m A" "B \<subseteq> A - pages base n"
  shows "unmapped (vm_mapper v) (vm_root v) m' B"
  using assms unmapped_maps_pages unfolding maps_fresh_def by metis

lemma map_kernel_pages:
  assumes inv: "vmm_inv avs avm v m s" and c: "4 * n \<le> card (pmm_avail s)" and rg: "range_ok base n"
    and free: "pages base n \<subseteq> heap_free v \<union> stacks_free v \<union> mmio_free v"
  obtains m' s' where "map_zeroed_pages (pmm_alloc False) (vm_mapper v) (vm_root_phys v) base
      (MF_WRITABLE OR MF_GLOBAL) [0..<n] m s = Some (Inr (), m', s')" "maps_fresh v m s base n m' s'"
    "pmm_good False s'" "pt_wf (vm_mapper v) (vm_root v) m'" "frames_fresh (vm_mapper v) (vm_root v) m' (pmm_avail s')"
proof -
  note I = inv [unfolded vmm_inv_def]
  have un: "\<forall>i \<in> {0..<n}. translate (vm_mapper v) (PhysAddr (vm_root v)) (page_va base i) m = Some TNotMapped"
    using unmapped_pages [OF vmm_invD(5) [OF inv] free rg] by simp
  have fr: "frames_fresh (vm_mapper v) (vm_root v) m (pmm_avail s \<union> {})" using I by simp
  have wf: "pt_wf (vm_mapper v) (vm_root v) m" and g: "pmm_good False s" using I by simp_all
  from pmm.map_zeroed_pages_spec [OF wf fr g, of n 0, OF _ _ rg _ un kernel_flags_plain(1)] c
  obtain fs m' s' where a: "map_zeroed_pages (pmm_alloc False) (vm_mapper v) (PhysAddr (vm_root v)) base
      (MF_WRITABLE OR MF_GLOBAL) [0..<n] m s = Some (Inr (), m', s')" "length fs = n - 0" "distinct fs"
      "set fs \<subseteq> pmm_avail s" "pmm_good False s'" "pmm_avail s' \<subseteq> pmm_avail s - set fs"
      "pt_wf (vm_mapper v) (vm_root v) m'"
      "frames_fresh (vm_mapper v) (vm_root v) m' (pmm_avail s' \<union> (set fs \<union> {}))"
      "frames_zeroed (vm_root v) m (set fs) m'"
      "maps_pages (vm_mapper v) (vm_root v) m base 0 fs (map_flags_to_native (MF_WRITABLE OR MF_GLOBAL)) m'"
    by auto
  have "maps_fresh v m s base n m' s'"
    unfolding maps_fresh_def using a by (intro exI [of _ fs]) (auto simp: frames_fresh_def)
  moreover have "frames_fresh (vm_mapper v) (vm_root v) m' (pmm_avail s')" using a(8) by (simp add: frames_fresh_def)
  ultimately show ?thesis using that [of m' s'] a(1,5,7) by simp
qed

lemma grow_heap_spec:
  assumes inv: "vmm_inv avs avm v m s" and b: "0 < unat bytes" "pages_up (unat bytes) \<le> 2 ^ 44"
    and room: "{q..<q + pages_up (unat bytes)} \<subseteq> heap_free v"
    and c: "pages_up (unat bytes) div 1024 \<le> card (pmm_avail s)"
  defines "n \<equiv> pages_up (unat bytes) div 4096"
  obtains base actual v' m' s' where
    "vmm_grow_heap (pmm_alloc False) v bytes m s = Some (Inr (base, actual), v', m', s')"
    "unat actual = pages_up (unat bytes)" "4096 dvd unat (va base)" "virt_ok base" "pages base n \<subseteq> heap_free v"
    "maps_fresh v m s base n m' s'" "heap_free v' = heap_free v - pages base n"
    "v' = v\<lparr>vm_heap_alloc := vm_heap_alloc v'\<rparr>" "vmm_inv avs avm v' m' s'"
proof -
  note R = vmm_invD(1) [OF inv, unfolded regions_inv_def]
  obtain k where k: "page_count_of bytes = Some k" "4096 * unat k = pages_up (unat bytes)"
    "chk_mul k 4096 = Some (k * 4096)" "unat (k * 4096) = pages_up (unat bytes)"
    "request_ok (k * 4096)" "pages_up (unat (k * 4096)) = pages_up (unat bytes)"
    by (rule page_count_of_eq [OF b])
  have n: "n = unat k" "4096 * n = pages_up (unat bytes)" by (simp_all add: n_def flip: k(2))
  have bump: "bump_roomy (vm_heap_alloc v)" using R by simp
  from bump.alloc_pages [OF bump k(5), of n q] room k(6) n(2) obtain base ha where
    a: "region_allocate (vm_heap_alloc v) (k * 4096) = Some (Some base, ha)" "bump_roomy ha" "virt_ok base"
      "4096 dvd unat (va base)" "pages base n \<subseteq> heap_free v" "bump_free ha = heap_free v - pages base n"
      "range_ok base n" unfolding heap_free_def by auto
  note rg = a(7)
  have c4: "4 * n \<le> card (pmm_avail s)" using c n(2) by auto
  have sub: "pages base n \<subseteq> heap_free v \<union> stacks_free v \<union> mmio_free v" using a(5) by blast
  obtain m' s' where
    e: "map_zeroed_pages (pmm_alloc False) (vm_mapper v) (vm_root_phys v) base
      (MF_WRITABLE OR MF_GLOBAL) [0..<n] m s = Some (Inr (), m', s')" "maps_fresh v m s base n m' s'"
    "pmm_good False s'" "pt_wf (vm_mapper v) (vm_root v) m'" "frames_fresh (vm_mapper v) (vm_root v) m' (pmm_avail s')"
    by (rule map_kernel_pages [OF inv c4 rg sub])
  define v' where "v' = v\<lparr>vm_heap_alloc := ha\<rparr>"
  have f: "heap_free v' = heap_free v - pages base n" "stacks_free v' = stacks_free v" "mmio_free v' = mmio_free v"
    "vm_mapper v' = vm_mapper v" "vm_root_phys v' = vm_root_phys v"
    by (simp_all add: v'_def heap_free_def stacks_free_def mmio_free_def a(6))
  have reg: "regions_inv avs avm v'"
    by (rule regions_inv_shrink [of avs avm v]) (use R f a(2) in \<open>auto simp: regions_inv_def v'_def\<close>)
  have less: "heap_free v' \<union> stacks_free v' \<union> mmio_free v' \<subseteq> (heap_free v \<union> stacks_free v \<union> mmio_free v) - pages base n"
    using f a(5) R by blast
  have "vmm_inv avs avm v' m' s'"
    using maps_fresh_unmapped [OF e(2) vmm_invD(5) [OF inv] less] reg e(3-5) by (simp add: vmm_inv_def f(4,5))
  moreover have "vmm_grow_heap (pmm_alloc False) v bytes m s = Some (Inr (base, k * 4096), v', m', s')"
    using k(1,3) a(1) e(1) by (simp add: vmm_grow_heap_def n(1) v'_def)
  ultimately show ?thesis using a e(2) f(1) k(4) by (intro that) (simp_all add: v'_def)
qed


lemma stacks_alloc:
  assumes inv: "vmm_inv avs avm v m s" and room: "{q..<q + 0x11000} \<subseteq> stacks_free v"
  obtains base sa where "free_region_allocate avs (vm_stacks_alloc v) 0x11000 = Some (Some base, sa)"
    "fra_roomy STACKS_FREE_LIST_CAP avs sa" "virt_ok base" "4096 dvd unat (va base)" "pages base 17 \<subseteq> stacks_free v"
    "fra_free sa = stacks_free v - pages base 17" "range_ok base 17"
proof -
  have p: "pages_up (unat (0x11000 :: u64)) = 4096 * 17" by (simp add: pages_up_def)
  have "request_ok 0x11000" by (simp add: request_ok_def pages_up_def)
  moreover have "fra_roomy STACKS_FREE_LIST_CAP avs (vm_stacks_alloc v)"
    using vmm_invD(1) [OF inv] by (simp add: regions_inv_def)
  ultimately show ?thesis
    using coalescing.alloc_pages [OF _ _ p, of STACKS_FREE_LIST_CAP avs "vm_stacks_alloc v" q] room that
    unfolding stacks_free_def by auto
qed

lemma range_ok_tail:
  assumes "range_ok base (Suc n)" "0 < n"
  shows "virt_addr_add base 4096 = page_va base 1" "unat (va (page_va base 1)) = unat (va base) + 4096"
    "range_ok (page_va base 1) n"
proof -
  have 1: "1 < Suc n" using assms(2) by simp
  show "virt_addr_add base 4096 = page_va base 1" using page_step(2) [OF assms(1) 1] by simp
  show u: "unat (va (page_va base 1)) = unat (va base) + 4096" using page_va_unat [OF assms(1) 1] by simp
  show "range_ok (page_va base 1) n"
    using assms page_step(4,5) [OF assms(1) 1] unfolding range_ok_def u by auto
qed

lemma alloc_kernel_stack_spec:
  assumes inv: "vmm_inv avs avm v m s" and room: "{q..<q + 0x11000} \<subseteq> stacks_free v"
    and c: "64 \<le> card (pmm_avail s)"
  obtains ks v' m' s' where
    "alloc_kernel_stack avs (pmm_alloc False) v cleanup m s = Some (Inr ks, v', m', s')"
    "ks_cleanup ks = cleanup" "ks_bottom ks = page_va (ks_guard ks) 1" "range_ok (ks_guard ks) 17"
    "ks_top ks = virt_addr_add (ks_bottom ks) KERNEL_STACK_SIZE" "pages (ks_guard ks) 17 \<subseteq> stacks_free v"
    "maps_fresh v m s (ks_bottom ks) 16 m' s'" "stacks_free v' = stacks_free v - pages (ks_guard ks) 17"
    "v' = v\<lparr>vm_stacks_alloc := vm_stacks_alloc v'\<rparr>" "vmm_inv avs avm v' m' s'"
proof -
  note R = vmm_invD(1) [OF inv, unfolded regions_inv_def]
  obtain base sa where a: "free_region_allocate avs (vm_stacks_alloc v) 0x11000 = Some (Some base, sa)"
    "fra_roomy STACKS_FREE_LIST_CAP avs sa" "virt_ok base" "4096 dvd unat (va base)" "pages base 17 \<subseteq> stacks_free v"
    "fra_free sa = stacks_free v - pages base 17" "range_ok base 17" by (rule stacks_alloc [OF inv room])
  define bot where "bot = page_va base 1"
  have t: "virt_addr_add base 4096 = bot" "unat (va bot) = unat (va base) + 4096" "range_ok bot 16"
    using range_ok_tail [of base 16] a(7) by (simp_all add: bot_def)
  have up: "pages bot 16 \<subseteq> pages base 17" by (auto simp: t(2))
  then have sub: "pages bot 16 \<subseteq> heap_free v \<union> stacks_free v \<union> mmio_free v" using a(5) by blast
  have c4: "4 * 16 \<le> card (pmm_avail s)" and rg: "range_ok bot 16" using c t(3) by simp_all
  obtain m' s' where
    e: "map_zeroed_pages (pmm_alloc False) (vm_mapper v) (vm_root_phys v) bot
      (MF_WRITABLE OR MF_GLOBAL) [0..<16] m s = Some (Inr (), m', s')" "maps_fresh v m s bot 16 m' s'"
    "pmm_good False s'" "pt_wf (vm_mapper v) (vm_root v) m'" "frames_fresh (vm_mapper v) (vm_root v) m' (pmm_avail s')"
    by (rule map_kernel_pages [OF inv c4 rg sub])
  define v' where "v' = v\<lparr>vm_stacks_alloc := sa\<rparr>"
  have f: "heap_free v' = heap_free v" "stacks_free v' = stacks_free v - pages base 17" "mmio_free v' = mmio_free v"
    "vm_mapper v' = vm_mapper v" "vm_root_phys v' = vm_root_phys v"
    by (simp_all add: v'_def heap_free_def stacks_free_def mmio_free_def a(6))
  have reg: "regions_inv avs avm v'"
    by (rule regions_inv_shrink [of avs avm v]) (use R f a(2) in \<open>auto simp: regions_inv_def v'_def\<close>)
  have less: "heap_free v' \<union> stacks_free v' \<union> mmio_free v' \<subseteq>
      (heap_free v \<union> stacks_free v \<union> mmio_free v) - pages bot 16"
    using f a(5) R up by blast
  have inv': "vmm_inv avs avm v' m' s'"
    using maps_fresh_unmapped [OF e(2) vmm_invD(5) [OF inv] less] reg e(3-5) by (simp add: vmm_inv_def f(4,5))
  let ?ks = "\<lparr>ks_top = virt_addr_add bot KERNEL_STACK_SIZE, ks_bottom = bot, ks_guard = base,
    ks_cleanup = cleanup\<rparr>"
  have "alloc_kernel_stack avs (pmm_alloc False) v cleanup m s = Some (Inr ?ks, v', m', s')"
    using a(1) e(1) t(1) by (simp add: alloc_kernel_stack_def GUARD_PAGE_SIZE_def KERNEL_STACK_SIZE_def chk_add_def v'_def Let_def)
  then show ?thesis using inv' a(5,7) e(2) f(2) by (intro that [of ?ks]) (simp_all add: v'_def bot_def)
qed

section \<open>Device mappings\<close>

lemma retract_watermark_region:
  assumes "retract_watermark av self = Some self'" shows "fra_region self' = fra_region self"
proof (rule retract_watermark.raw_induct [where P = "\<lambda>_ self self'. fra_region self' = fra_region self", OF _ assms])
  fix f :: "free_range array_vec \<Rightarrow> free_region_allocator \<Rightarrow> free_region_allocator option" and av self self'
  assume IH: "\<And>av self self'. f av self = Some self' \<Longrightarrow> fra_region self' = fra_region self"
    and run: "(if free_list self = [] then Some self
      else do { let l = last (free_list self); e \<leftarrow> chk_add (fr_base l) (fr_size l);
                if e = watermark self
                then f av (self\<lparr>watermark := fr_base l, free_list := snd (av_pop av (free_list self))\<rparr>)
                else Some self }) = Some self'"
  from run show "fra_region self' = fra_region self"
    by (auto simp: Let_def dest: IH split: if_splits Option.bind_splits)
qed

lemma free_region_deallocate_region:
  assumes "free_region_deallocate av self v sz = Some (r, self')" shows "fra_region self' = fra_region self"
  using assms unfolding free_region_deallocate_def Let_def
  by (auto dest!: retract_watermark_region split: if_splits option.splits Option.bind_splits)

lemma map_mmio_spec:
  assumes inv: "vmm_inv avs avm v m s" and b: "0 < unat sz" "pages_up (unat sz) \<le> 2 ^ 44"
    and room: "{q..<q + pages_up (unat sz)} \<subseteq> mmio_free v"
    and phys: "unat (pa phys) + pages_up (unat sz) \<le> 2 ^ 52"
    and c: "3 * pages_up (unat sz) div 4096 \<le> card (pmm_avail s)"
  defines "n \<equiv> pages_up (unat sz) div 4096"
  obtains mp v' m' s' where
    "map_mmio_with_cache avm (pmm_alloc False) v phys sz Uncacheable cleanup m s = Some (Inr mp, v', m', s')"
    "mm_phys_base mp = phys" "unat (mm_size mp) = 4096 * n" "mm_cleanup mp = cleanup"
    "range_ok (mm_virt_base mp) n" "pages (mm_virt_base mp) n \<subseteq> mmio_free v" "pmm_avail s' \<subseteq> pmm_avail s"
    "writes_tables (vm_root v) m m'"
    "maps_pages (vm_mapper v) (vm_root v) m (mm_virt_base mp) 0 (map (device_frame phys) [0..<n])
       (map_flags_to_native (MF_WRITABLE OR MF_GLOBAL OR MF_CACHE_DISABLE)) m'"
    "mmio_free v' = mmio_free v - pages (mm_virt_base mp) n" "v' = v\<lparr>vm_mmio_alloc := vm_mmio_alloc v'\<rparr>"
    "fra_region (vm_mmio_alloc v') = fra_region (vm_mmio_alloc v)" "vmm_inv avs avm v' m' s'"
proof -
  note R = vmm_invD(1) [OF inv, unfolded regions_inv_def]
  obtain k where k: "page_count_of sz = Some k" "4096 * unat k = pages_up (unat sz)"
    "chk_mul k 4096 = Some (k * 4096)" "unat (k * 4096) = pages_up (unat sz)"
    "request_ok (k * 4096)" "pages_up (unat (k * 4096)) = pages_up (unat sz)"
    by (rule page_count_of_eq [OF b])
  have n: "n = unat k" "4096 * n = pages_up (unat sz)" by (simp_all add: n_def flip: k(2))
  have roomy: "fra_roomy MMIO_FREE_LIST_CAP avm (vm_mmio_alloc v)" using R by simp
  from coalescing.alloc_pages [OF roomy k(5), of n q] room k(6) n(2) obtain base ma where
    a: "free_region_allocate avm (vm_mmio_alloc v) (k * 4096) = Some (Some base, ma)"
      "fra_roomy MMIO_FREE_LIST_CAP avm ma" "pages base n \<subseteq> mmio_free v" "fra_free ma = mmio_free v - pages base n"
      "range_ok base n" unfolding mmio_free_def by auto
  have sub: "pages base n \<subseteq> heap_free v \<union> stacks_free v \<union> mmio_free v" using a(3) by blast
  have un: "\<forall>i \<in> {0..<n}. translate (vm_mapper v) (PhysAddr (vm_root v)) (page_va base i) m = Some TNotMapped"
    using unmapped_pages [OF vmm_invD(5) [OF inv] sub a(5)] by simp
  have c3: "3 * (n - 0) \<le> card (pmm_avail s)" and ph: "unat (pa phys) + 4096 * n \<le> 2 ^ 52"
    using c phys n(2) by auto
  let ?fl = "MF_WRITABLE OR MF_GLOBAL OR MF_CACHE_DISABLE"
  from pmm.map_device_pages_spec [OF vmm_invD(3,4,2) [OF inv] c3 a(5) le0 ph un kernel_flags_plain(2)]
  obtain m' s' where
    e: "map_device_pages (pmm_alloc False) (vm_mapper v) (vm_root_phys v) base phys ?fl [0..<n] m s = Some (m', s')"
      "pmm_good False s'" "pmm_avail s' \<subseteq> pmm_avail s" "pt_wf (vm_mapper v) (vm_root v) m'"
      "frames_fresh (vm_mapper v) (vm_root v) m' (pmm_avail s')" "writes_tables (vm_root v) m m'"
      "maps_pages (vm_mapper v) (vm_root v) m base 0 (map (device_frame phys) [0..<n]) (map_flags_to_native ?fl) m'"
    by auto
  define v' where "v' = v\<lparr>vm_mmio_alloc := ma\<rparr>"
  have f: "heap_free v' = heap_free v" "stacks_free v' = stacks_free v" "mmio_free v' = mmio_free v - pages base n"
    "vm_mapper v' = vm_mapper v" "vm_root_phys v' = vm_root_phys v"
    by (simp_all add: v'_def heap_free_def stacks_free_def mmio_free_def a(4))
  have reg: "regions_inv avs avm v'"
    by (rule regions_inv_shrink [of avs avm v]) (use R f a(2) in \<open>auto simp: regions_inv_def v'_def\<close>)
  have less: "heap_free v' \<union> stacks_free v' \<union> mmio_free v' \<subseteq>
      (heap_free v \<union> stacks_free v \<union> mmio_free v) - pages base n" using f a(3) R by blast
  have len: "length (map (device_frame phys) [0..<n]) = n" by simp
  have inv': "vmm_inv avs avm v' m' s'"
    using unmapped_maps_pages [OF vmm_invD(5) [OF inv] e(7) len less] reg e(2,4,5) by (simp add: vmm_inv_def f(4,5))
  let ?mp = "\<lparr>mm_virt_base = base, mm_phys_base = phys, mm_size = k * 4096, mm_cleanup = cleanup\<rparr>"
  have "map_mmio_with_cache avm (pmm_alloc False) v phys sz Uncacheable cleanup m s = Some (Inr ?mp, v', m', s')"
    using k(1,3) a(1) e(1) by (simp add: map_mmio_with_cache_def n(1) v'_def Let_def or.assoc)
  then show ?thesis using inv' a(3,5) e(3,6,7) f(3) k(4) n(2) free_region_allocate_region [OF a(1)]
    by (intro that [of ?mp]) (simp_all add: v'_def)
qed

lemma mmio_cleanup_spec:
  assumes inv: "vmm_inv avs avm v m s" and rg: "range_ok base n" "0 < n" and sz: "unat sz = 4096 * n"
    and used: "pages base n \<subseteq> {fra_base (vm_mmio_alloc v)..<fra_end (vm_mmio_alloc v)} - mmio_free v"
    and apart: "pages base n \<inter> (heap_free v \<union> stacks_free v) = {}"
    and mapped: "\<forall>i \<in> {0..<n}. \<exists>f fl. translate (vm_mapper v) (vm_root_phys v) (page_va base i) m = Some (Page4KiB f fl)"
  obtains v' m' where "default_mmio_cleanup avm base sz (Some v, m) = Some (Some v', m')" "vmm_inv avs avm v' m' s"
    "\<forall>w. virt_ok w \<longrightarrow> translate (vm_mapper v) (vm_root_phys v) w m' =
       (if unat (va w) \<in> pages base n then Some TNotMapped else translate (vm_mapper v) (vm_root_phys v) w m)"
    "mmio_free v' = mmio_free v \<union> pages base n \<or>
     v' = v \<and> length (free_list (vm_mmio_alloc v)) = MMIO_FREE_LIST_CAP"
proof -
  note R = vmm_invD(1) [OF inv, unfolded regions_inv_def]
  have roomy: "fra_roomy MMIO_FREE_LIST_CAP avm (vm_mmio_alloc v)" using R by simp
  have root: "vm_root_phys v = PhysAddr (vm_root v)" by simp
  obtain m' where u: "unmap_pages v base [0..<n] m = Some m'" "pt_wf (vm_mapper v) (vm_root v) m'"
    "tables m' (vm_root v) = tables m (vm_root v)"
    "\<forall>w. virt_ok w \<longrightarrow> translate (vm_mapper v) (vm_root_phys v) w m' =
       (if unat (va w) \<in> pages base n then Some TNotMapped else translate (vm_mapper v) (vm_root_phys v) w m)"
    using unmap_pages_spec [OF vmm_invD(3) [OF inv] root rg(1) le0] mapped by auto
  have p: "pages_up (unat sz) = 4096 * n" using pages_up_pages(2) [of "unat sz"] by (simp add: sz pages_up_def)
  have al: "0 < unat sz" "4096 dvd unat (va base)" using rg sz by (simp_all add: range_ok_def)
  have av: "array_vec_ok MMIO_FREE_LIST_CAP avm" "fra_inv MMIO_FREE_LIST_CAP (vm_mmio_alloc v)"
    using roomy by (simp_all add: fra_roomy_def)
  from free_region_deallocate_spec [OF av al, unfolded p, folded mmio_free_def [of v], OF used] obtain res ma where
    d: "free_region_deallocate avm (vm_mmio_alloc v) base sz = Some (res, ma)" "fra_inv MMIO_FREE_LIST_CAP ma"
      "case res of Inr _ \<Rightarrow> fra_free ma = mmio_free v \<union> pages base n
       | Inl FreeListFull \<Rightarrow> ma = vm_mmio_alloc v \<and> length (free_list (vm_mmio_alloc v)) = MMIO_FREE_LIST_CAP"
    by blast
  define v' where "v' = v\<lparr>vm_mmio_alloc := ma\<rparr>"
  have f: "heap_free v' = heap_free v" "stacks_free v' = stacks_free v"
    "vm_mapper v' = vm_mapper v" "vm_root_phys v' = vm_root_phys v"
    by (simp_all add: v'_def heap_free_def stacks_free_def)
  have alt: "mmio_free v' = mmio_free v \<union> pages base n \<or>
     v' = v \<and> length (free_list (vm_mmio_alloc v)) = MMIO_FREE_LIST_CAP"
    using d(3) by (auto simp: v'_def mmio_free_def split: sum.splits region_alloc_error.splits)
  then have le: "mmio_free v' \<subseteq> mmio_free v \<union> pages base n" by auto
  have "fra_roomy MMIO_FREE_LIST_CAP avm ma"
    using roomy d(2) free_region_deallocate_region [OF d(1)] by (simp add: fra_roomy_def)
  moreover have "heap_free v \<inter> mmio_free v = {}" "stacks_free v \<inter> mmio_free v = {}" using R by simp_all
  then have "heap_free v' \<inter> mmio_free v' = {}" "stacks_free v' \<inter> mmio_free v' = {}"
    using apart le unfolding f(1,2) by blast+
  ultimately have reg: "regions_inv avs avm v'"
    unfolding regions_inv_def using R f(1,2) by (simp add: v'_def)
  have "unmapped (vm_mapper v) (vm_root v) m' (heap_free v' \<union> stacks_free v' \<union> mmio_free v')"
    using u(4) vmm_invD(5) [OF inv] le f(1,2) by (auto simp: unmapped_def)
  then have "vmm_inv avs avm v' m' s"
    using reg u(2,3) vmm_invD [OF inv] by (simp add: vmm_inv_def f(3,4) frames_fresh_def)
  moreover have "unat (sz div 4096) = n" by (simp add: unat_div sz)
  then have "default_mmio_cleanup avm base sz (Some v, m) = Some (Some v', m')"
    using u(1) d(1) by (simp add: default_mmio_cleanup_def dealloc_mmio_region_def v'_def Let_def)
  ultimately show ?thesis using u(4) alt by (intro that)
qed

lemma device_translate:
  assumes w: "virt_ok w" "unat (va w) \<in> pages base n" and rg: "range_ok base n"
    and phys: "unat (pa phys) + 4096 * n \<le> 2 ^ 52"
    and mp: "maps_pages h r m base 0 (map (device_frame phys) [0..<n]) fl m'"
  obtains p where "translate_addr h (PhysAddr r) w m' = Some (Some p)"
    "unat (pa p) = unat (pa phys) div 4096 * 4096 + (unat (va w) - unat (va base))"
proof -
  define d where "d = unat (va w) - unat (va base)"
  define k where "k = d div 4096"
  have k: "k < n" using w(2) by (auto simp: k_def d_def)
  have b: "unat (pa phys) + 4096 * k < 2 ^ 52" using phys k by simp
  note D = device_step [OF b]
  have "translate h (PhysAddr r) w m' = Some (page_result Size4KiB (frame_start (device_frame phys k)) fl)"
    using mp w k by (auto simp: maps_pages_def k_def d_def)
  from translate_addr_page [OF this] D(3)
  have t: "translate_addr h (PhysAddr r) w m' =
      Some (Some (PhysAddr (pa (frame_start (device_frame phys k)) + (va w AND mask 12))))" by simp
  have "unat (va w) = unat (va base) + d" using w(2) by (simp add: d_def)
  then have "unat (va w) mod 4096 = d mod 4096"
    using rg by (auto simp: range_ok_def mod_add_left_eq [symmetric] dvd_eq_mod_eq_0)
  then have "unat (pa (frame_start (device_frame phys k)) + (va w AND mask 12)) =
      (unat (pa phys) div 4096 * 4096 + (4096 * k + d mod 4096)) mod 2 ^ 64"
    by (simp add: unat_word_ariths unat_and_mask D(4) add.assoc)
  also have "4096 * k + d mod 4096 = d" by (simp add: k_def)
  also have "(unat (pa phys) div 4096 * 4096 + d) mod 2 ^ 64 = unat (pa phys) div 4096 * 4096 + d"
    using phys w(2) div_times_less_eq_dividend [of "unat (pa phys)" 4096] by (intro mod_less) (auto simp: d_def)
  finally have u: "unat (pa (frame_start (device_frame phys k)) + (va w AND mask 12)) =
      unat (pa phys) div 4096 * 4096 + d" .
  show ?thesis by (rule that [OF t]) (simp only: phys_addr.sel u d_def)
qed

section \<open>The initial state\<close>

lemma default_regions:
  "vr_base (ml_heap (memory_layout_new h p)) = VirtAddr 0xFFFFC00000000000"
  "vr_base (ml_stacks (memory_layout_new h p)) = VirtAddr 0xFFFFC80000000000"
  "vr_base (ml_mmio (memory_layout_new h p)) = VirtAddr 0xFFFFD00000000000"
  "vr_max_size (ml_heap (memory_layout_new h p)) = 0x20000000000"
  "vr_max_size (ml_stacks (memory_layout_new h p)) = 0x8000000000"
  "vr_max_size (ml_mmio (memory_layout_new h p)) = 0x10000000000"
proof -
  have c: "canonical (0xFFFFC00000000000 :: u64)" "canonical (0xFFFFC80000000000 :: u64)"
    "canonical (0xFFFFD00000000000 :: u64)" by (simp_all add: canonical_iff)
  show "vr_base (ml_heap (memory_layout_new h p)) = VirtAddr 0xFFFFC00000000000"
    "vr_base (ml_stacks (memory_layout_new h p)) = VirtAddr 0xFFFFC80000000000"
    "vr_base (ml_mmio (memory_layout_new h p)) = VirtAddr 0xFFFFD00000000000"
    "vr_max_size (ml_heap (memory_layout_new h p)) = 0x20000000000"
    "vr_max_size (ml_stacks (memory_layout_new h p)) = 0x8000000000"
    "vr_max_size (ml_mmio (memory_layout_new h p)) = 0x10000000000"
    by (simp_all add: memory_layout_new_def memory_layout_with_regions_base_def Let_def virt_region_new_def
        virt_addr_add_def DEFAULT_REGIONS_BASE_def layout_consts truncate_canonical c)
qed

lemma vmm_new_free:
  "heap_free (vmm_new r mp h p) = {0xFFFFC00000000000..<0xFFFFC20000000000}"
  "stacks_free (vmm_new r mp h p) = {0xFFFFC80000000000..<0xFFFFC88000000000}"
  "mmio_free (vmm_new r mp h p) = {0xFFFFD00000000000..<0xFFFFD10000000000}"
  by (simp_all add: vmm_new_def Let_def heap_free_def stacks_free_def mmio_free_def bump_free_def fra_free_def
      region_allocator_new_def free_region_new_def default_regions)

lemma vmm_new_regions:
  assumes "array_vec_ok STACKS_FREE_LIST_CAP avs" "array_vec_ok MMIO_FREE_LIST_CAP avm"
  shows "regions_inv avs avm (vmm_new r mp h p)"
proof -
  have "region_good (ml_heap (memory_layout_new h p))" "region_good (ml_stacks (memory_layout_new h p))"
    "region_good (ml_mmio (memory_layout_new h p))" by (simp_all add: region_good_def default_regions)
  moreover have "fra_end (free_region_new (ml_stacks (memory_layout_new h p))) = 0xFFFFC88000000000"
    "fra_end (free_region_new (ml_mmio (memory_layout_new h p))) = 0xFFFFD10000000000"
    by (simp_all add: free_region_new_def default_regions)
  ultimately show ?thesis
    unfolding regions_inv_def vmm_new_free using assms
    by (simp add: vmm_new_def Let_def bump_roomy_def fra_roomy_def region_allocator_new_def fra_inv_new default_regions)
qed

text \<open>A machine with 128 frames, all free but the one that holds the empty root table.\<close>

definition small_pmm :: bitmap_allocator where
  "small_pmm = \<lparr>bitmap = [2, 0], bitmap_ptr = VirtAddr 0xFFFF800000001000, total_frames = 128, free_count = 127, search_hint = 0,
     hhdm_offset = VirtAddr 0xFFFF800000000000\<rparr>"

definition small_vmm :: vmm where
  "small_vmm = vmm_new (PhysAddr 0x1000) tiny_hhdm tiny_hhdm 0x80000"

lemma small_pmm_free: "free_set small_pmm = {..<128} - {1}"
proof -
  have "frame_used (bitmap small_pmm) i \<longleftrightarrow> i = 1" if "i < 128" for i
  proof (cases "i < 64")
    case True
    have "bit (2 :: u64) i \<longleftrightarrow> i = 1" using bit_exp_iff [where ?'a = "64 word", of 1 i] by auto
    then show ?thesis using True by (simp add: frame_used_def small_pmm_def)
  next
    case False
    then have "i div 64 = 1" using that by simp
    then show ?thesis using False by (simp add: frame_used_def small_pmm_def)
  qed
  then show ?thesis by (auto simp: free_set_def small_pmm_def)
qed

lemma small_vmm_inv:
  "vmm_inv (list_array_vec STACKS_FREE_LIST_CAP) (list_array_vec MMIO_FREE_LIST_CAP) small_vmm no_tables (small_pmm, mem)"
  "card (pmm_avail (small_pmm, mem)) = 127"
proof -
  have t: "tables no_tables 0x1000 = {0x1000}" by (auto simp: tables_def no_tables_walk)
  have "pmm_good False (small_pmm, mem)"
    by (simp add: pmm_good_def pmm_inv_def small_pmm_free hhdm_ok_def pages_intact_def) (simp add: small_pmm_def)
  moreover have "frames_fresh tiny_hhdm 0x1000 no_tables (pmm_avail (small_pmm, mem))"
    unfolding frames_fresh_def
  proof
    fix f assume "f \<in> pmm_avail (small_pmm, mem)"
    then obtain i where i: "f = frame_at i" "i < 128" "i \<noteq> 1" by (auto simp: pmm_avail_def small_pmm_free)
    have u: "unat (pa (frame_start f)) = i * 4096"
      using i(2) by (simp add: i(1) frame_at_def frame_addr_def unat_word_ariths unat_of_nat)
    then have "pa (frame_start f) \<noteq> 0x1000" using i(3) by (auto simp: word_unat_eq_iff)
    then show "accessible tiny_hhdm (pa (frame_start f)) \<and> pa (frame_start f) \<notin> tables no_tables 0x1000"
      using i(2) by (simp add: accessible_def u tiny_hhdm_def t)
  qed
  moreover have "unmapped tiny_hhdm 0x1000 no_tables A" for A
    by (simp add: unmapped_def translate_resolve [OF no_tables_ok(1)] no_tables_resolve)
  moreover have m: "vm_mapper small_vmm = tiny_hhdm" "vm_root_phys small_vmm = PhysAddr 0x1000"
    by (simp_all add: small_vmm_def vmm_new_def Let_def)
  moreover have "regions_inv (list_array_vec STACKS_FREE_LIST_CAP) (list_array_vec MMIO_FREE_LIST_CAP) small_vmm"
    unfolding small_vmm_def by (intro vmm_new_regions list_array_vec_ok)
  ultimately show "vmm_inv (list_array_vec STACKS_FREE_LIST_CAP) (list_array_vec MMIO_FREE_LIST_CAP)
      small_vmm no_tables (small_pmm, mem)"
    using no_tables_ok(1) by (simp add: vmm_inv_def)
  have "inj_on frame_at ({..<128} - {1})" by (rule inj_on_subset [OF frame_at_inj]) auto
  then show "card (pmm_avail (small_pmm, mem)) = 127"
    by (simp add: pmm_avail_def small_pmm_free card_image)
qed





section \<open>Properties\<close>

text \<open>
  C4: growing the heap. With room in the heap region and four free frames per page (one for the data,
  at most three for tables), \<^verbatim>\<open>grow_heap\<close> does not panic and returns a page-aligned range of the
  requested size rounded up to pages, taken from the free part of the heap region. Exactly its pages
  become mapped, writable, to distinct frames that were free; these hold zeros and are no page
  tables. Every other address translates as before and no other frame except page tables changes.
  The invariant of the VMM holds again: the tree is well formed, the free frames are outside it and
  the free addresses of the three regions are disjoint and unmapped.
\<close>

theorem grow_heap_maps:
  assumes "vmm_inv avs avm v m s" "0 < unat bytes" "pages_up (unat bytes) \<le> 2 ^ 44"
    and "{q..<q + pages_up (unat bytes)} \<subseteq> heap_free v" "pages_up (unat bytes) div 1024 \<le> card (pmm_avail s)"
  shows "\<exists>base actual v' m' s'. vmm_grow_heap (pmm_alloc False) v bytes m s = Some (Inr (base, actual), v', m', s') \<and>
    unat actual = pages_up (unat bytes) \<and> 4096 dvd unat (va base) \<and>
    {unat (va base)..<unat (va base) + unat actual} \<subseteq> heap_free v \<and>
    heap_free v' = heap_free v - {unat (va base)..<unat (va base) + unat actual} \<and>
    maps_fresh v m s base (unat actual div 4096) m' s' \<and>
    v' = v\<lparr>vm_heap_alloc := vm_heap_alloc v'\<rparr> \<and> vmm_inv avs avm v' m' s'"
proof -
  obtain base actual v' m' s' where g:
    "vmm_grow_heap (pmm_alloc False) v bytes m s = Some (Inr (base, actual), v', m', s')"
    "unat actual = pages_up (unat bytes)" "4096 dvd unat (va base)" "virt_ok base"
    "pages base (pages_up (unat bytes) div 4096) \<subseteq> heap_free v"
    "maps_fresh v m s base (pages_up (unat bytes) div 4096) m' s'"
    "heap_free v' = heap_free v - pages base (pages_up (unat bytes) div 4096)"
    "v' = v\<lparr>vm_heap_alloc := vm_heap_alloc v'\<rparr>" "vmm_inv avs avm v' m' s'"
    by (rule grow_heap_spec [OF assms])
  then show ?thesis unfolding pages_up_pages(1) [symmetric] by metis
qed

theorem grow_heap_maps_witness:
  "\<exists>base actual v' m' s'. vmm_grow_heap (pmm_alloc False) small_vmm 70000 no_tables (small_pmm, \<lambda>_. 0) =
      Some (Inr (base, actual), v', m', s') \<and> unat actual = 73728 \<and>
    maps_fresh small_vmm no_tables (small_pmm, \<lambda>_. 0) base 18 m' s'"
proof -
  have p: "pages_up (unat (70000 :: u64)) = 73728" by (simp add: pages_up_def)
  have "{0xFFFFC00000000000..<0xFFFFC00000000000 + 73728} \<subseteq> heap_free small_vmm"
    unfolding small_vmm_def vmm_new_free by simp
  from grow_heap_maps [OF small_vmm_inv(1), of "70000" "0xFFFFC00000000000", unfolded p, OF _ _ this] show ?thesis
    by (fastforce simp: small_vmm_inv(2))
qed

text \<open>
  C15: allocating a kernel stack. With room for 17 pages in the stacks region and 64 free frames,
  \<^verbatim>\<open>alloc_kernel_stack\<close> does not panic, the stack occupies the 16 pages above its guard page, and
  exactly these are mapped, writable, to distinct zeroed frames that were free. The guard page is
  unmapped and belongs to no region's free addresses any more, so the VMM will not map it while the
  stack exists. The invariant of the VMM holds again.
\<close>

theorem kernel_stack_guarded:
  assumes "vmm_inv avs avm v m s" "{q..<q + 0x11000} \<subseteq> stacks_free v" "64 \<le> card (pmm_avail s)"
  shows "\<exists>ks v' m' s'. alloc_kernel_stack avs (pmm_alloc False) v cleanup m s = Some (Inr ks, v', m', s') \<and>
    unat (va (ks_bottom ks)) = unat (va (ks_guard ks)) + 4096 \<and> ks_top ks = virt_addr_add (ks_bottom ks) 0x10000 \<and>
    maps_fresh v m s (ks_bottom ks) 16 m' s' \<and> unmapped (vm_mapper v) (vm_root v) m' (pages (ks_guard ks) 1) \<and>
    pages (ks_guard ks) 17 \<subseteq> stacks_free v \<and> stacks_free v' = stacks_free v - pages (ks_guard ks) 17 \<and>
    (heap_free v' \<union> stacks_free v' \<union> mmio_free v') \<inter> pages (ks_guard ks) 17 = {} \<and> vmm_inv avs avm v' m' s'"
proof -
  obtain ks v' m' s' where a: "alloc_kernel_stack avs (pmm_alloc False) v cleanup m s = Some (Inr ks, v', m', s')"
    "ks_cleanup ks = cleanup" "ks_bottom ks = page_va (ks_guard ks) 1" "range_ok (ks_guard ks) 17"
    "ks_top ks = virt_addr_add (ks_bottom ks) KERNEL_STACK_SIZE" "pages (ks_guard ks) 17 \<subseteq> stacks_free v"
    "maps_fresh v m s (ks_bottom ks) 16 m' s'" "stacks_free v' = stacks_free v - pages (ks_guard ks) 17"
    "v' = v\<lparr>vm_stacks_alloc := vm_stacks_alloc v'\<rparr>" "vmm_inv avs avm v' m' s'"
    by (rule alloc_kernel_stack_spec [OF assms])
  have b: "unat (va (ks_bottom ks)) = unat (va (ks_guard ks)) + 4096"
    using page_va_unat [OF a(4), of 1] by (simp add: a(3))
  have "pages (ks_guard ks) 1 \<subseteq> pages (ks_guard ks) 17" "pages (ks_guard ks) 1 \<inter> pages (ks_bottom ks) 16 = {}"
    by (auto simp: b)
  then have "pages (ks_guard ks) 1 \<subseteq> (heap_free v \<union> stacks_free v \<union> mmio_free v) - pages (ks_bottom ks) 16"
    using a(6) by blast
  from maps_fresh_unmapped [OF a(7) vmm_invD(5) [OF assms(1)] this]
  have g: "unmapped (vm_mapper v) (vm_root v) m' (pages (ks_guard ks) 1)" .
  have "heap_free v' = heap_free v" "mmio_free v' = mmio_free v"
    by (subst a(9), simp add: heap_free_def, subst a(9), simp add: mmio_free_def)
  then have "(heap_free v' \<union> stacks_free v' \<union> mmio_free v') \<inter> pages (ks_guard ks) 17 = {}"
    using a(6,8) vmm_invD(1) [OF assms(1), unfolded regions_inv_def] by blast
  then show ?thesis using a(1,6-8,10) a(5) [unfolded KERNEL_STACK_SIZE_def] b g by auto
qed

theorem kernel_stack_guarded_witness:
  "\<exists>ks v' m' s'. alloc_kernel_stack (list_array_vec STACKS_FREE_LIST_CAP) (pmm_alloc False) small_vmm
      (None :: (virt_addr \<Rightarrow> virt_addr \<Rightarrow> virt_addr \<Rightarrow> unit \<Rightarrow> unit option) option) no_tables (small_pmm, \<lambda>_. 0) =
      Some (Inr ks, v', m', s') \<and> maps_fresh small_vmm no_tables (small_pmm, \<lambda>_. 0) (ks_bottom ks) 16 m' s' \<and>
    unmapped (vm_mapper small_vmm) (vm_root small_vmm) m' (pages (ks_guard ks) 1)"
proof -
  have "{0xFFFFC80000000000..<0xFFFFC80000000000 + 0x11000} \<subseteq> stacks_free small_vmm"
    unfolding small_vmm_def vmm_new_free by simp
  from kernel_stack_guarded [OF small_vmm_inv(1) this, of "\<lambda>_. 0"] show ?thesis
    unfolding small_vmm_inv(2) by fastforce
qed

text \<open>
  C16: mapping a device and dropping the mapping. With room in the MMIO region and three free frames
  per page for tables, \<^verbatim>\<open>map_mmio_region\<close> does not panic, and the address at offset \<open>d\<close> of the mapping
  translates to offset \<open>d\<close> from the device's base rounded down to a page. Dropping the mapping runs its
  cleanup, after which every address translates as before the mapping, the VMM's invariant holds and
  the addresses are free again, unless the free list was full, in which case they are lost.
\<close>

theorem mmio_map_drop:
  assumes "vmm_inv avs avm v m s" "0 < unat sz" "pages_up (unat sz) \<le> 2 ^ 44"
    and "{q..<q + pages_up (unat sz)} \<subseteq> mmio_free v" "unat (pa phys) + pages_up (unat sz) \<le> 2 ^ 52"
    and "3 * pages_up (unat sz) div 4096 \<le> card (pmm_avail s)"
  shows "\<exists>mp v1 m1 s1 v2 m2. map_mmio_region avm (pmm_alloc False) phys sz (Some v, m) s = Some (mp, (Some v1, m1), s1) \<and>
    vmm_inv avs avm v1 m1 s1 \<and> unat (mm_size mp) = pages_up (unat sz) \<and>
    (\<forall>w. virt_ok w \<and> unat (va (mm_virt_base mp)) \<le> unat (va w) \<and> unat (va w) < unat (va (mm_virt_base mp)) + unat (mm_size mp) \<longrightarrow>
      (\<exists>p. vmm_translate v1 w m1 = Some (Some p) \<and>
        unat (pa p) = unat (pa phys) div 4096 * 4096 + (unat (va w) - unat (va (mm_virt_base mp))))) \<and>
    mmio_mapping_drop mp (Some v1, m1) = Some (Some v2, m2) \<and> vmm_inv avs avm v2 m2 s1 \<and>
    (\<forall>w. virt_ok w \<longrightarrow> translate (vm_mapper v) (vm_root_phys v) w m2 = translate (vm_mapper v) (vm_root_phys v) w m) \<and>
    (mmio_free v2 = mmio_free v \<or> length (free_list (vm_mmio_alloc v1)) = MMIO_FREE_LIST_CAP)"
proof -
  define n where "n = pages_up (unat sz) div 4096"
  have n: "4096 * n = pages_up (unat sz)" unfolding n_def by (rule pages_up_pages(1) [symmetric])
  obtain mp v1 m1 s1 where
    a: "map_mmio_with_cache avm (pmm_alloc False) v phys sz Uncacheable (Some (default_mmio_cleanup avm)) m s =
        Some (Inr mp, v1, m1, s1)"
      "mm_phys_base mp = phys" "unat (mm_size mp) = 4096 * n" "mm_cleanup mp = Some (default_mmio_cleanup avm)"
      "range_ok (mm_virt_base mp) n" "pages (mm_virt_base mp) n \<subseteq> mmio_free v" "pmm_avail s1 \<subseteq> pmm_avail s"
      "writes_tables (vm_root v) m m1"
      "maps_pages (vm_mapper v) (vm_root v) m (mm_virt_base mp) 0 (map (device_frame phys) [0..<n])
         (map_flags_to_native (MF_WRITABLE OR MF_GLOBAL OR MF_CACHE_DISABLE)) m1"
      "mmio_free v1 = mmio_free v - pages (mm_virt_base mp) n" "v1 = v\<lparr>vm_mmio_alloc := vm_mmio_alloc v1\<rparr>"
      "fra_region (vm_mmio_alloc v1) = fra_region (vm_mmio_alloc v)" "vmm_inv avs avm v1 m1 s1"
    by (rule map_mmio_spec [OF assms(1-6), of "Some (default_mmio_cleanup avm)", folded n_def])
  note R = vmm_invD(1) [OF assms(1), unfolded regions_inv_def fra_roomy_def]
  have same: "vm_mapper v1 = vm_mapper v" "vm_root_phys v1 = vm_root_phys v" "heap_free v1 = heap_free v"
    "stacks_free v1 = stacks_free v"
    by (subst a(11), simp add: heap_free_def stacks_free_def)+
  have "mmio_free v \<subseteq> {fra_base (vm_mmio_alloc v)..<fra_end (vm_mmio_alloc v)}"
    unfolding mmio_free_def using R by (intro fra_free_span) blast
  then have used: "pages (mm_virt_base mp) n \<subseteq> {fra_base (vm_mmio_alloc v1)..<fra_end (vm_mmio_alloc v1)} - mmio_free v1"
    using a(6) unfolding a(10,12) by blast
  have apart: "pages (mm_virt_base mp) n \<inter> (heap_free v1 \<union> stacks_free v1) = {}" using a(6) R same(3,4) by blast
  have mapped: "\<forall>i \<in> {0..<n}. \<exists>f fl. translate (vm_mapper v1) (vm_root_phys v1) (page_va (mm_virt_base mp) i) m1 = Some (Page4KiB f fl)"
    using a(9) page_va_unat [OF a(5)] page_step(4) [OF a(5)] by (simp add: maps_pages_def same)
  have "0 < 4096 * n" using assms(2) pages_up_bounds(1) [of "unat sz"] unfolding n by linarith
  then have pos: "0 < n" by simp
  obtain v2 m2 where d: "default_mmio_cleanup avm (mm_virt_base mp) (mm_size mp) (Some v1, m1) = Some (Some v2, m2)"
    "vmm_inv avs avm v2 m2 s1"
    "\<forall>w. virt_ok w \<longrightarrow> translate (vm_mapper v1) (vm_root_phys v1) w m2 = (if unat (va w) \<in> pages (mm_virt_base mp) n
       then Some TNotMapped else translate (vm_mapper v1) (vm_root_phys v1) w m1)"
    "mmio_free v2 = mmio_free v1 \<union> pages (mm_virt_base mp) n \<or>
     v2 = v1 \<and> length (free_list (vm_mmio_alloc v1)) = MMIO_FREE_LIST_CAP"
    by (rule mmio_cleanup_spec [OF a(13,5) pos a(3) used apart mapped])
  have restored: "translate (vm_mapper v) (vm_root_phys v) w m2 = translate (vm_mapper v) (vm_root_phys v) w m"
    if "virt_ok w" for w
    using d(3) [rule_format, OF that] a(9) a(6) that vmm_invD(5) [OF assms(1)] unfolding same
    by (auto simp: maps_pages_def unmapped_def subset_iff)
  have "\<exists>p. vmm_translate v1 w m1 = Some (Some p) \<and>
        unat (pa p) = unat (pa phys) div 4096 * 4096 + (unat (va w) - unat (va (mm_virt_base mp)))"
    if "virt_ok w" "unat (va w) \<in> pages (mm_virt_base mp) n" for w
    using device_translate [OF that a(5) assms(5) [folded n] a(9)] unfolding vmm_translate_def same by auto
  moreover have "map_mmio_region avm (pmm_alloc False) phys sz (Some v, m) s = Some (mp, (Some v1, m1), s1)"
    by (simp add: map_mmio_region_def map_mmio_region_with_cache_def a(1))
  moreover have "mmio_mapping_drop mp (Some v1, m1) = Some (Some v2, m2)"
    by (simp add: mmio_mapping_drop_def a(4) d(1))
  moreover have "mmio_free v2 = mmio_free v \<or> length (free_list (vm_mmio_alloc v1)) = MMIO_FREE_LIST_CAP"
    using d(4) a(6,10) by blast
  ultimately show ?thesis using a(3,13) d(2) restored n by (intro exI conjI) auto
qed


theorem mmio_map_drop_witness:
  "\<exists>mp v1 m1 s1 v2 m2. map_mmio_region (list_array_vec MMIO_FREE_LIST_CAP) (pmm_alloc False) (PhysAddr 0xFED00000) 0x400
      (Some small_vmm, no_tables) (small_pmm, \<lambda>_. 0) = Some (mp, (Some v1, m1), s1) \<and> unat (mm_size mp) = 4096 \<and>
    mmio_mapping_drop mp (Some v1, m1) = Some (Some v2, m2) \<and>
    (\<forall>w. virt_ok w \<longrightarrow> translate tiny_hhdm (PhysAddr 0x1000) w m2 = Some TNotMapped)"
proof -
  have p: "pages_up (unat (0x400 :: u64)) = 4096" by (simp add: pages_up_def)
  have "{0xFFFFD00000000000..<0xFFFFD00000000000 + 4096} \<subseteq> mmio_free small_vmm"
    unfolding small_vmm_def vmm_new_free by simp
  note * = mmio_map_drop [OF small_vmm_inv(1), of "0x400" "0xFFFFD00000000000" "PhysAddr 0xFED00000" "\<lambda>_. 0", unfolded p, OF _ _ this]
  have m: "vm_mapper small_vmm = tiny_hhdm" "vm_root_phys small_vmm = PhysAddr 0x1000"
    by (simp_all add: small_vmm_def vmm_new_def Let_def)
  have "translate tiny_hhdm (PhysAddr 0x1000) w no_tables = Some TNotMapped" for w
    by (simp add: translate_resolve [OF no_tables_ok(1)] no_tables_resolve)
  then show ?thesis using * unfolding m by (simp add: small_vmm_inv(2)) metis
qed

end
