(* ===== verification/Kernel_Heap.thy ===== *)
theory Kernel_Heap
  imports Heap Vmm
begin

text \<open>
  The kernel heap on top of the VMM: \<^verbatim>\<open>kernel/kernel/src/mm/heap.rs\<close>.

  The glue maps the first heap pages, initialises the linked-list allocator of theory Heap with them
  and registers a growth callback that asks the VMM of theory Vmm for more. The lemmas show that the
  callback meets the contract that the allocator relies on.
\<close>

section \<open>Glue\<close>

text \<open>\<^verbatim>\<open>heap::init\<close>: the heap, the global VMM and the frame allocator afterwards.\<close>

definition kernel_heap_init ::
  "('s \<Rightarrow> (phys_frame option \<times> 's) option) \<Rightarrow> heap \<Rightarrow> global_vmm \<Rightarrow> 's \<Rightarrow> (heap \<times> global_vmm \<times> 's) option" where
  "kernel_heap_init alloc h g s =
     do { ((heap_start, heap_size), g', s') \<leftarrow> kernel_map_initial_heap alloc g s;
          h' \<leftarrow> heap_init h heap_start heap_size;
          Some (h', g', s') }"

text \<open>
  \<^verbatim>\<open>GlobalAlloc::alloc\<close> with the callback \<^verbatim>\<open>grow_callback\<close> registered: when no free block fits, the VMM is
  asked for more pages and its answer is what the allocator's callback returns. The callback changes
  the state of the VMM, so its answer is computed here, under the condition under which the allocator
  calls it and with the argument that it passes.
\<close>

definition kernel_heap_alloc ::
  "('s \<Rightarrow> (phys_frame option \<times> 's) option) \<Rightarrow> heap \<Rightarrow> global_vmm \<Rightarrow> 's \<Rightarrow> usize \<Rightarrow> usize \<Rightarrow>
   (usize \<times> heap \<times> global_vmm \<times> 's) option" where
  "kernel_heap_alloc alloc h g s layout_size layout_align =
     do { let n = max layout_size MIN_BLOCK_SIZE;
          (r, _) \<leftarrow> find_first_fit h n (max layout_align BLOCK_ALIGN);
          (answer, g', s') \<leftarrow> (case r of
             Some _ \<Rightarrow> Some (None, g, s)
           | None \<Rightarrow> kernel_grow_heap alloc (max n (64 * 1024)) g s);
          (p, h') \<leftarrow> heap_alloc (Some (\<lambda>_. answer)) h layout_size layout_align;
          Some (p, h', g', s') }"

section \<open>Mapped heaps\<close>

definition heap_mapped :: "vmm \<Rightarrow> table_memory \<Rightarrow> nat set \<Rightarrow> bool" where
  "heap_mapped v m A = (\<forall>a \<in> A. \<exists>f. translate (vm_mapper v) (vm_root_phys v) (VirtAddr (of_nat a)) m =
     Some (Page4KiB f (map_flags_to_native (MF_WRITABLE OR MF_GLOBAL))))"

definition kernel_heap_inv ::
  "free_range array_vec \<Rightarrow> free_range array_vec \<Rightarrow> heap \<Rightarrow> blocks \<Rightarrow> vmm \<Rightarrow> table_memory \<Rightarrow>
   bitmap_allocator \<times> word_memory \<Rightarrow> bool" where
  "kernel_heap_inv avs avm h bs v m s =
     (heap_inv h bs \<and> headroom 4096 bs \<and> vmm_inv avs avm v m s \<and> 0 \<notin> heap_free v \<and>
      Heap.span bs \<inter> heap_free v = {} \<and> heap_mapped v m (Heap.span bs) \<and>
      (\<forall>a \<in> Heap.span bs. canonical (of_nat a)))"

text \<open>The answer of the VMM as the callback of the heap.\<close>

lemma kernel_grow_heap_answer:
  assumes inv: "vmm_inv avs avm v m s" "0 \<notin> heap_free v" and k: "0 < k" "pages_up k \<le> 2 ^ 44"
    and room: "{q..<q + pages_up k} \<subseteq> heap_free v" and c: "pages_up k div 1024 \<le> card (pmm_avail s)"
  obtains b v' m' s' where
    "kernel_grow_heap (pmm_alloc False) k (Some v, m) s = Some (Some (b, pages_up k), (Some v', m'), s')"
    "4096 dvd b" "0 < b" "b + pages_up k + 4096 < 2 ^ 64" "{b..<b + pages_up k} \<subseteq> heap_free v"
    "heap_free v' = heap_free v - {b..<b + pages_up k}" "vmm_inv avs avm v' m' s'"
    "vm_mapper v' = vm_mapper v" "vm_root_phys v' = vm_root_phys v" "heap_mapped v' m' {b..<b + pages_up k}"
    "\<forall>a. canonical (of_nat a) \<longrightarrow> a < 2 ^ 64 \<longrightarrow> a \<notin> {b..<b + pages_up k} \<longrightarrow>
       translate (vm_mapper v) (vm_root_phys v) (VirtAddr (of_nat a)) m' =
       translate (vm_mapper v) (vm_root_phys v) (VirtAddr (of_nat a)) m"
    "\<forall>a \<in> {b..<b + pages_up k}. canonical (of_nat a)"
proof -
  define bytes :: u64 where "bytes = of_nat k"
  have "k < 2 ^ 64" using k(2) pages_up_bounds(1) [of k] by simp
  then have u: "unat bytes = k" by (simp add: bytes_def unat_of_nat)
  define n where "n = pages_up k div 4096"
  have n: "4096 * n = pages_up k" unfolding n_def by (rule pages_up_pages(1) [symmetric])
  obtain base actual v' m' s' where
    g: "vmm_grow_heap (pmm_alloc False) v bytes m s = Some (Inr (base, actual), v', m', s')"
    "unat actual = pages_up k" "4096 dvd unat (va base)" "virt_ok base" "pages base n \<subseteq> heap_free v"
    "maps_fresh v m s base n m' s'" "heap_free v' = heap_free v - pages base n"
    "v' = v\<lparr>vm_heap_alloc := vm_heap_alloc v'\<rparr>" "vmm_inv avs avm v' m' s'"
    by (rule grow_heap_spec [OF inv(1), of bytes q, unfolded u, folded n_def, OF k room c])
  have run: "kernel_grow_heap (pmm_alloc False) k (Some v, m) s = Some (Some (unat (va base), pages_up k), (Some v', m'), s')"
    using g(1,2) by (simp add: kernel_grow_heap_def bytes_def)
  have roomy: "bump_roomy (vm_heap_alloc v)" using vmm_invD(1) [OF inv(1)] by (simp add: regions_inv_def)
  have pos: "0 < n" using k(1) pages_up_bounds(1) [of k] n by simp
  then have "unat (va base) \<in> heap_free v" "unat (va base) + 4096 * n - 1 \<in> heap_free v" using g(5) by auto
  then have b: "0 < unat (va base)" "unat (va base) + 4096 * n + 4096 < 2 ^ 64"
    using inv(2) roomy by (auto simp: heap_free_def bump_free_def bump_roomy_def intro: gr0I)
  have can: "\<forall>a \<in> pages base n. canonical (of_nat a)"
  proof
    fix a assume a: "a \<in> pages base n"
    then have "unat (of_nat a :: u64) = a" using b(2) by (simp add: unat_of_nat)
    then have "unat (of_nat a :: u64) \<in> bump_free (vm_heap_alloc v)" using a g(5) by (auto simp: heap_free_def)
    then show "canonical (of_nat a)" by (rule bump.avail_canonical [OF roomy])
  qed
  have same: "vm_mapper v' = vm_mapper v" "vm_root_phys v' = vm_root_phys v" by (subst g(8), simp)+
  obtain fs where fs: "length fs = n"
    "maps_pages (vm_mapper v) (vm_root v) m base 0 fs (map_flags_to_native (MF_WRITABLE OR MF_GLOBAL)) m'"
    using g(6) by (auto simp: maps_fresh_def)
  have ua: "unat (of_nat a :: u64) = a" if "a < 2 ^ 64" for a using that by (simp add: unat_of_nat)
  have mapped: "heap_mapped v' m' (pages base n)"
    unfolding heap_mapped_def same
  proof
    fix a assume a: "a \<in> pages base n"
    then have "unat (of_nat a :: u64) = a" "virt_ok (VirtAddr (of_nat a))" using b(2) can by (auto simp: ua virt_ok_def)
    then show "\<exists>f. translate (vm_mapper v) (vm_root_phys v) (VirtAddr (of_nat a)) m' =
        Some (Page4KiB f (map_flags_to_native (MF_WRITABLE OR MF_GLOBAL)))"
      using fs a by (auto simp: maps_pages_def)
  qed
  have other: "\<forall>a. canonical (of_nat a) \<longrightarrow> a < 2 ^ 64 \<longrightarrow> a \<notin> pages base n \<longrightarrow>
       translate (vm_mapper v) (vm_root_phys v) (VirtAddr (of_nat a)) m' =
       translate (vm_mapper v) (vm_root_phys v) (VirtAddr (of_nat a)) m"
    using fs by (auto simp: maps_pages_def virt_ok_def ua)
  show ?thesis
    using that [OF run g(3) b(1)] b(2) g(5,7,9) same mapped other can unfolding n by blast
qed


lemma span_below: "headroom 4096 bs \<Longrightarrow> a \<in> Heap.span bs \<Longrightarrow> a < 2 ^ 64"
  by (fastforce simp: headroom_def Heap.span_def)

lemma heap_mapped_mono: "heap_mapped v m A \<Longrightarrow> B \<subseteq> A \<Longrightarrow> heap_mapped v m B"
  unfolding heap_mapped_def by blast

lemma heap_mapped_Un: "heap_mapped v m A \<Longrightarrow> heap_mapped v m B \<Longrightarrow> heap_mapped v m (A \<union> B)"
  unfolding heap_mapped_def by blast

lemma heap_mapped_kept:
  assumes "heap_mapped v m A" "A \<inter> F = {}" "\<forall>a \<in> A. canonical (of_nat a) \<and> a < 2 ^ 64"
    and "\<forall>a. canonical (of_nat a) \<longrightarrow> a < 2 ^ 64 \<longrightarrow> a \<notin> F \<longrightarrow>
       translate (vm_mapper v) (vm_root_phys v) (VirtAddr (of_nat a)) m' =
       translate (vm_mapper v) (vm_root_phys v) (VirtAddr (of_nat a)) m"
    and "vm_mapper v' = vm_mapper v" "vm_root_phys v' = vm_root_phys v"
  shows "heap_mapped v' m' A"
  unfolding heap_mapped_def assms(5,6)
proof
  fix a assume a: "a \<in> A"
  then have "translate (vm_mapper v) (vm_root_phys v) (VirtAddr (of_nat a)) m' =
       translate (vm_mapper v) (vm_root_phys v) (VirtAddr (of_nat a)) m" using assms(2-4) by blast
  then show "\<exists>f. translate (vm_mapper v) (vm_root_phys v) (VirtAddr (of_nat a)) m' =
     Some (Page4KiB f (map_flags_to_native (MF_WRITABLE OR MF_GLOBAL)))"
    using assms(1) a by (simp add: heap_mapped_def)
qed

text \<open>An allocation that a free block fits does not involve the VMM.\<close>

lemma kernel_heap_alloc_fits:
  fixes sz j :: nat
  defines "n \<equiv> max sz 32"
  assumes inv: "kernel_heap_inv avs avm h bs v m s" and j: "j \<le> 12" "allocated_bytes h + n < 2 ^ 64"
    and fit: "\<exists>b \<in> set bs. fits n (2 ^ max j 4) b"
  obtains p h' bs' where "kernel_heap_alloc alloc h (Some v, m) s0 sz (2 ^ j) = Some (p, h', (Some v, m), s0)"
    "kernel_heap_inv avs avm h' bs' v m s" "carved (Heap.span bs) n (2 ^ max j 4) p (Heap.span bs')"
proof -
  note I = inv [unfolded kernel_heap_inv_def]
  have hi: "heap_inv h bs" "headroom 4096 bs" using I by simp_all
  have n: "32 \<le> n" by (simp add: n_def)
  obtain a h1 where f: "find_first_fit h n (2 ^ max j 4) = Some (Some (a, n), h1)"
    by (rule heap_alloc_fits [OF hi j n fit])
  have "grow_ok (Some (\<lambda>_. None)) n (Heap.span bs)" by (simp add: grow_ok_def grown_def)
  from heap_alloc_spec [OF hi j(1) j(2) [unfolded n_def] this [unfolded n_def], folded n_def] fit obtain p h' bs' where
    a: "heap_alloc (Some (\<lambda>_. None)) h sz (2 ^ j) = Some (p, h')" "heap_inv h' bs'" "headroom 4096 bs'"
      "carved (Heap.span bs) n (2 ^ max j 4) p (Heap.span bs')"
    by (auto simp: fresh_region_def)
  have sub: "Heap.span bs' \<subseteq> Heap.span bs" using a(4) by (auto simp: carved_def)
  have "kernel_heap_inv avs avm h' bs' v m s"
    using I a(2,3) sub heap_mapped_mono [OF _ sub] unfolding kernel_heap_inv_def by blast
  moreover have "kernel_heap_alloc alloc h (Some v, m) s0 sz (2 ^ j) = Some (p, h', (Some v, m), s0)"
    unfolding kernel_heap_alloc_def Let_def max_align MIN_BLOCK_SIZE_def n_def [symmetric] using f a(1) by simp
  ultimately show ?thesis using a(4) by (intro that)
qed

lemma kernel_heap_alloc_grows:
  fixes sz j :: nat
  defines "n \<equiv> max sz 32" and "k \<equiv> pages_up (max (max sz 32) 65536)"
  assumes inv: "kernel_heap_inv avs avm h bs v m s" and j: "j \<le> 12" "allocated_bytes h + n < 2 ^ 64"
    and k: "k \<le> 2 ^ 44" "{q..<q + k} \<subseteq> heap_free v" "k div 1024 \<le> card (pmm_avail s)"
    and nofit: "\<forall>b \<in> set bs. \<not> fits n (2 ^ max j 4) b"
  obtains p h' bs' v' m' s' b where
    "kernel_heap_alloc (pmm_alloc False) h (Some v, m) s sz (2 ^ j) = Some (p, h', (Some v', m'), s')"
    "kernel_heap_inv avs avm h' bs' v' m' s'" "heap_free v' = heap_free v - {b..<b + k}" "{b..<b + k} \<subseteq> heap_free v"
    "carved (Heap.span bs \<union> {b..<b + k}) n (2 ^ max j 4) p (Heap.span bs')" "heap_mapped v' m' (Heap.span bs \<union> {b..<b + k})"
proof -
  note I = inv [unfolded kernel_heap_inv_def]
  have hi: "heap_inv h bs" "headroom 4096 bs" and vi: "vmm_inv avs avm v m s" "0 \<notin> heap_free v" using I by simp_all
  have pos: "0 < max (max sz 32) 65536" by simp
  obtain b v' m' s' where g:
    "kernel_grow_heap (pmm_alloc False) (max (max sz 32) 65536) (Some v, m) s = Some (Some (b, k), (Some v', m'), s')"
    "4096 dvd b" "0 < b" "b + k + 4096 < 2 ^ 64" "{b..<b + k} \<subseteq> heap_free v"
    "heap_free v' = heap_free v - {b..<b + k}" "vmm_inv avs avm v' m' s'"
    "vm_mapper v' = vm_mapper v" "vm_root_phys v' = vm_root_phys v" "heap_mapped v' m' {b..<b + k}"
    "\<forall>a. canonical (of_nat a) \<longrightarrow> a < 2 ^ 64 \<longrightarrow> a \<notin> {b..<b + k} \<longrightarrow>
       translate (vm_mapper v) (vm_root_phys v) (VirtAddr (of_nat a)) m' =
       translate (vm_mapper v) (vm_root_phys v) (VirtAddr (of_nat a)) m"
    "\<forall>a \<in> {b..<b + k}. canonical (of_nat a)"
    unfolding k_def by (rule kernel_grow_heap_answer [OF vi pos k [unfolded k_def]])
  let ?grow = "Some (\<lambda>_. Some (b, k)) :: (usize \<Rightarrow> (usize \<times> usize) option) option"
  have disj: "Heap.span bs \<inter> {b..<b + k} = {}" using I g(5) by blast
  have "max (max sz 32) 65536 \<le> k" unfolding k_def by (rule pages_up_bounds(1))
  then have "grow_ok ?grow n (Heap.span bs)"
    using g(2-4) disj by (auto simp: grow_ok_def grown_def n_def)
  moreover have "\<not> (\<exists>b \<in> set bs. fits n (2 ^ max j 4) b)" using nofit by blast
  moreover have "grown ?grow n = Some (b, k)" by (simp add: grown_def)
  ultimately obtain p h' bs' where
    a: "heap_alloc ?grow h sz (2 ^ j) = Some (p, h')" "heap_inv h' bs'" "headroom 4096 bs'"
      "carved (Heap.span bs \<union> {b..<b + k}) n (2 ^ max j 4) p (Heap.span bs')"
    using heap_alloc_spec [OF hi j(1) j(2) [unfolded n_def], of ?grow, folded n_def]
    by (auto simp: fresh_region_def)
  have below: "\<forall>a \<in> Heap.span bs. canonical (of_nat a) \<and> a < 2 ^ 64" using I span_below [OF hi(2)] by blast
  have "heap_mapped v' m' (Heap.span bs)"
    by (rule heap_mapped_kept [OF _ disj below g(11,8,9)]) (use I in blast)
  then have mapped: "heap_mapped v' m' (Heap.span bs \<union> {b..<b + k})" by (rule heap_mapped_Un [OF _ g(10)])
  have sub: "Heap.span bs' \<subseteq> Heap.span bs \<union> {b..<b + k}" using a(4) by (auto simp: carved_def)
  have "Heap.span bs' \<inter> heap_free v' = {}" using sub I g(6) by blast
  moreover have "\<forall>a \<in> Heap.span bs'. canonical (of_nat a)" using sub below g(12) by blast
  ultimately have "kernel_heap_inv avs avm h' bs' v' m' s'"
    using a(2,3) g(6,7) vi(2) heap_mapped_mono [OF mapped sub] unfolding kernel_heap_inv_def by blast
  moreover have "find_first_fit h n (2 ^ max j 4) = Some (None, h)"
    by (rule find_first_fit_none [OF hi(1) headroom_weaken [OF hi(2) align_le_page [OF j(1)]] nofit])
  then have "kernel_heap_alloc (pmm_alloc False) h (Some v, m) s sz (2 ^ j) = Some (p, h', (Some v', m'), s')"
    unfolding kernel_heap_alloc_def Let_def max_align MIN_BLOCK_SIZE_def n_def [symmetric]
    using g(1) [folded n_def] a(1) by simp
  ultimately show ?thesis using g(5,6) a(4) mapped by (intro that)
qed


text \<open>Initialisation establishes the invariant, with one free block of 4 MiB.\<close>

lemma kernel_heap_init_inv:
  assumes inv: "vmm_inv avs avm v m s" "0 \<notin> heap_free v" and room: "{q..<q + 0x400000} \<subseteq> heap_free v"
    and c: "4096 \<le> card (pmm_avail s)"
  obtains b h v' m' s' where "kernel_heap_init (pmm_alloc False) (heap_new hd0) (Some v, m) s = Some (h, (Some v', m'), s')"
    "kernel_heap_inv avs avm h [(b, 0x400000)] v' m' s'"
proof -
  have k: "pages_up 0x400000 = 0x400000" by (simp add: pages_up_def)
  obtain b v' m' s' where g:
    "kernel_grow_heap (pmm_alloc False) 0x400000 (Some v, m) s = Some (Some (b, 0x400000), (Some v', m'), s')"
    "4096 dvd b" "0 < b" "b + 0x400000 + 4096 < 2 ^ 64" "{b..<b + 0x400000} \<subseteq> heap_free v"
    "heap_free v' = heap_free v - {b..<b + 0x400000}" "vmm_inv avs avm v' m' s'"
    "heap_mapped v' m' {b..<b + 0x400000}" "\<forall>a \<in> {b..<b + 0x400000}. canonical (of_nat a)"
    by (rule kernel_grow_heap_answer [OF inv, where k = "0x400000" and q = q, unfolded k]) (use room c in auto)
  have "kernel_map_initial_heap (pmm_alloc False) (Some v, m) s = Some ((b, 0x400000), (Some v', m'), s')"
    using g(1) by (auto simp: kernel_grow_heap_def kernel_map_initial_heap_def vmm_map_initial_heap_def
        INITIAL_HEAP_SIZE_def split: Option.bind_splits sum.splits)
  moreover have "16 dvd b" using g(2) by (rule dvd_trans [rotated]) simp
  then obtain h where "heap_init (heap_new hd0) b 0x400000 = Some h" "heap_inv h [(b, 0x400000)]"
    using heap_init_inv [of b "0x400000" hd0] g(3,4) by auto
  moreover have "Heap.span [(b, 0x400000)] = {b..<b + 0x400000}" by simp
  ultimately show ?thesis
    using g inv(2) by (intro that [of h v' m' s' b]) (auto simp: kernel_heap_init_def kernel_heap_inv_def headroom_def)
qed

end
