(* ===== verification/Address_Space.thy ===== *)
theory Address_Space
  imports Vmm
begin

text \<open>
  User address spaces: \<^verbatim>\<open>kernel/mm/src/address_space.rs\<close>.

  A user address space has its own root table, whose upper half is copied from the kernel's. The
  lemmas show that a new address space sees exactly the kernel's translations in the upper half and
  nothing in the lower half, and that mapping, unmapping and protecting user pages leaves the
  translations of every other address space, the kernel's included, as they were.
\<close>

definition KERNEL_PML4_ENTRIES :: usize where "KERNEL_PML4_ENTRIES = 256"

record 'd address_space =
  as_root_phys :: phys_addr
  as_mapper :: virt_addr
  as_dealloc_fn :: "phys_frame \<Rightarrow> 'd \<Rightarrow> 'd option"

text \<open>
  The source reaches the two root tables through the direct map, at \<^verbatim>\<open>hhdm_offset\<close> plus their physical
  address. The table store is indexed by physical address, so that argument does not appear.
\<close>

definition new_user ::
  "('s \<Rightarrow> (phys_frame option \<times> 's) option) \<Rightarrow> phys_addr \<Rightarrow> virt_addr \<Rightarrow> (phys_frame \<Rightarrow> 'd \<Rightarrow> 'd option) \<Rightarrow>
   table_memory \<Rightarrow> 's \<Rightarrow> ((vmm_error + 'd address_space) \<times> table_memory \<times> 's) option" where
  "new_user alloc kernel_root mapper dealloc_fn mem s =
     do { (r, s') \<leftarrow> alloc s;
          (case r of
             None \<Rightarrow> Some (Inl VmmOutOfMemory, mem, s')
           | Some frame \<Rightarrow> do {
               let new_pml4 = pa (frame_start frame);
               let mem1 = mem(new_pml4 :=
                 replicate KERNEL_PML4_ENTRIES pte_empty @ drop KERNEL_PML4_ENTRIES (mem new_pml4));
               let mem2 = mem1(new_pml4 :=
                 take KERNEL_PML4_ENTRIES (mem1 new_pml4) @ drop KERNEL_PML4_ENTRIES (mem1 (pa kernel_root)));
               Some (Inr \<lparr>as_root_phys = frame_start frame, as_mapper = mapper, as_dealloc_fn = dealloc_fn\<rparr>,
                     mem2, s') }) }"

definition map_user_page ::
  "('s \<Rightarrow> (phys_frame option \<times> 's) option) \<Rightarrow> 'd address_space \<Rightarrow> page \<Rightarrow> phys_frame \<Rightarrow> map_flags \<Rightarrow> table_memory \<Rightarrow>
   's \<Rightarrow> ((vmm_error + map_flush) \<times> table_memory \<times> 's) option" where
  "map_user_page alloc self page frame flags mem s =
     do { (flush, mem', s') \<leftarrow> page_mapper_map Size4KiB (expect_frame alloc) (as_mapper self) (as_root_phys self)
            page frame (flags OR MF_USER) mem s;
          Some (Inr flush, mem', s') }"

definition unmap_user_page ::
  "'d address_space \<Rightarrow> page \<Rightarrow> table_memory \<Rightarrow> ((vmm_error + phys_frame) \<times> virt_addr list \<times> table_memory) option" where
  "unmap_user_page self page mem =
     do { (r, mem') \<leftarrow> page_mapper_unmap Size4KiB (as_mapper self) (as_root_phys self) page mem;
          Some (case r of
             Inl e \<Rightarrow> (Inl (unmap_error_vmm e), [], mem')
           | Inr (frame, flush) \<Rightarrow> (Inr frame, map_flush_flush flush, mem')) }"

definition as_translate :: "'d address_space \<Rightarrow> virt_addr \<Rightarrow> table_memory \<Rightarrow> phys_addr option option" where
  "as_translate self virt mem = translate_addr (as_mapper self) (as_root_phys self) virt mem"

text \<open>The loop of \<^verbatim>\<open>protect_range\<close>, with the addresses flushed so far.\<close>

fun protect_pages ::
  "'d address_space \<Rightarrow> virt_addr \<Rightarrow> map_flags \<Rightarrow> nat list \<Rightarrow> virt_addr list \<Rightarrow> table_memory \<Rightarrow>
   ((unit + unit) \<times> virt_addr list \<times> table_memory) option" where
  "protect_pages self base flags [] flushed mem = Some (Inr (), flushed, mem)"
| "protect_pages self base flags (i # is) flushed mem =
     do { off \<leftarrow> chk_mul (of_nat i) 0x1000;
          let vaddr = virt_addr_add base off;
          page \<leftarrow> page_containing_address Size4KiB vaddr;
          (r, mem') \<leftarrow> page_mapper_update_flags Size4KiB (as_mapper self) (as_root_phys self) page flags mem;
          (case r of
             Inl _ \<Rightarrow> Some (Inl (), flushed, mem')
           | Inr flush \<Rightarrow> protect_pages self base flags is (flushed @ map_flush_flush flush) mem') }"

definition protect_range ::
  "'d address_space \<Rightarrow> virt_addr \<Rightarrow> usize \<Rightarrow> map_flags \<Rightarrow> table_memory \<Rightarrow>
   ((unit + unit) \<times> virt_addr list \<times> table_memory) option" where
  "protect_range self base page_count flags mem =
     protect_pages self base (flags OR MF_USER) [0..<page_count] [] mem"

definition address_space_drop :: "'d address_space \<Rightarrow> 'd \<Rightarrow> 'd option" where
  "address_space_drop self d =
     do { frame \<leftarrow> phys_frame_containing_address Size4KiB (as_root_phys self); as_dealloc_fn self frame d }"

section \<open>Halves of the tree\<close>

text \<open>The root and the tables below its lower half: what a user address space does not share.\<close>

definition user_tables :: "table_memory \<Rightarrow> u64 \<Rightarrow> u64 set" where
  "user_tables m r = {u. \<exists>q. length q \<le> 3 \<and> walk m r q = Some u \<and> (q = [] \<or> hd q < 256)}"

definition apart :: "table_memory \<Rightarrow> u64 \<Rightarrow> u64 \<Rightarrow> bool" where
  "apart m r r' = (user_tables m r \<inter> tables m r' = {})"

lemma top_index:
  fixes a :: nat
  assumes "a < 2 ^ 64"
  shows "a < 2 ^ 47 \<Longrightarrow> a div 2 ^ 39 mod 512 < 256" "2 ^ 64 - 2 ^ 47 \<le> a \<Longrightarrow> 256 \<le> a div 2 ^ 39 mod 512"
proof -
  show "a div 2 ^ 39 mod 512 < 256" if "a < 2 ^ 47"
  proof -
    have "a div 2 ^ 39 < 256" using that by (simp add: div_less_iff_less_mult)
    then show ?thesis by simp
  qed
  show "256 \<le> a div 2 ^ 39 mod 512" if "2 ^ 64 - 2 ^ 47 \<le> a"
  proof -
    have "33554176 \<le> a div 2 ^ 39" "a div 2 ^ 39 < 33554432"
      using that assms by (simp_all add: div_less_iff_less_mult less_eq_div_iff_mult_less_eq)
    then have z: "a div 2 ^ 39 = (a div 2 ^ 39 - 33553920) + 65535 * 512" "256 \<le> a div 2 ^ 39 - 33553920"
      "a div 2 ^ 39 - 33553920 < 512" by linarith+
    show ?thesis by (subst z(1), subst mod_mult_self1) (use z(2,3) in \<open>simp only: mod_less\<close>)
  qed
qed

lemma indices_hd:
  assumes "virt_ok v" shows "hd (indices v) < 256 \<longleftrightarrow> unat (va v) < 2 ^ 47"
proof -
  have h: "hd (indices v) = unat (va v) div 2 ^ 39 mod 512" unfolding indices_def list.sel by (rule index_unat(1))
  have l: "unat (va v) < 2 ^ 64" using unsigned_less [of "va v", where ?'a = nat] by simp
  have "unat (va v) < 2 ^ 47 \<or> 2 ^ 64 - 2 ^ 47 \<le> unat (va v)"
    using assms unfolding virt_ok_def canonical_iff .
  then show ?thesis unfolding h using top_index [OF l] by linarith
qed

text \<open>A tree none of whose tables changes.\<close>

lemma other_walks:
  assumes "\<And>u. u \<in> tables m r' \<Longrightarrow> m' u = m u" "length q \<le> 4"
  shows "walk m' r' q = walk m r' q \<and> resolve m' r' q = resolve m r' q"
proof (rule walk_cong)
  fix a j b u assume "q = a @ j # b" "walk m r' a = Some u"
  then have "u \<in> tables m r'" using assms(2) walk_in_tables by force
  then show "m' u ! j = m u ! j" by (simp add: assms(1))
qed

lemma other_root:
  assumes wf: "pt_wf h r' m" and len: "\<And>t. length (m' t) = 512" and same: "\<And>u. u \<in> tables m r' \<Longrightarrow> m' u = m u"
  shows "tables m' r' = tables m r'" "pt_wf h r' m'" "translate h (PhysAddr r') w m' = translate h (PhysAddr r') w m"
proof -
  have *: "walk m' r' q = walk m r' q \<and> resolve m' r' q = resolve m r' q" if "length q \<le> 4" for q
    using that same by (intro other_walks)
  then show "tables m' r' = tables m r'" by (auto simp: tables_def)
  have "m' r' = m r'" by (rule same) (rule walk_in_tables [of m r' "[]"], simp_all)
  then show wf': "pt_wf h r' m'"
    using pt_wf_same_walks [OF wf, of m'] * pt_wfD(1,4) [OF wf] len by simp
  show "translate h (PhysAddr r') w m' = translate h (PhysAddr r') w m"
    using * by (simp add: translate_resolve [OF wf] translate_resolve [OF wf'])
qed

section \<open>A new address space\<close>

lemma new_root:
  assumes wf: "pt_wf h kr m" and n: "n \<notin> tables m kr" "accessible h n"
  defines "m' \<equiv> m(n := replicate 256 pte_empty @ drop 256 (m kr))"
  shows "tables m' n \<subseteq> insert n (tables m kr)" "pt_wf h n m'" "pt_wf h kr m'" "tables m' kr = tables m kr" "apart m' n kr"
    "virt_ok w \<Longrightarrow> translate h (PhysAddr n) w m' =
       (if unat (va w) < 2 ^ 47 then Some TNotMapped else translate h (PhysAddr kr) w m)"
    "translate h (PhysAddr kr) w m' = translate h (PhysAddr kr) w m"
proof -
  have len: "length (m' t) = 512" for t using pt_wfD(1) [OF wf] by (simp add: m'_def)
  have same: "m' u = m u" if "u \<in> tables m kr" for u using that n(1) by (auto simp: m'_def)
  note K = other_root [OF wf len same]
  show "pt_wf h kr m'" "tables m' kr = tables m kr" "translate h (PhysAddr kr) w m' = translate h (PhysAddr kr) w m"
    by (simp_all add: K)
  have kr: "m' kr = m kr" by (rule same) (rule walk_in_tables [of m kr "[]"], simp_all)
  have e: "m' n ! i = (if i < 256 then pte_empty else m' kr ! i)" if "i < 512" for i
    using that pt_wfD(1) [OF wf, of kr] unfolding kr by (simp add: m'_def nth_append)
  have *: "walk m' n q = (if hd q < 256 then None else walk m kr q) \<and>
      resolve m' n q = (if hd q < 256 then None else resolve m kr q)" if "q \<noteq> []" "length q \<le> 4" for q
  proof -
    obtain i p where q: "q = i # p" using \<open>q \<noteq> []\<close> by (cases q) auto
    have "walk m' n q = (if i < 256 then None else walk m' kr q) \<and> resolve m' n q = (if i < 256 then None else resolve m' kr q)"
      using e [of i] by (cases "i < 512") (auto simp: q Let_def)
    moreover have "walk m' kr q = walk m kr q \<and> resolve m' kr q = resolve m kr q"
      by (rule other_walks [OF _ that(2)]) (rule same)
    ultimately show ?thesis by (simp only: q list.sel if_cancel)
  qed
  have t: "u \<in> tables m kr" if "walk m' n q = Some u" "q \<noteq> []" "length q \<le> 3" for q u
    using * [OF that(2)] that walk_in_tables [of m kr q u] by (auto split: if_splits)
  show tab: "tables m' n \<subseteq> insert n (tables m kr)"
  proof
    fix u assume "u \<in> tables m' n"
    then obtain q where "length q \<le> 3" "walk m' n q = Some u" by (auto simp: tables_def)
    then show "u \<in> insert n (tables m kr)" using t [of q u] by (cases "q = []") auto
  qed
  have inj: "p = q" if "length p \<le> 3" "length q \<le> 3" "walk m' n p = Some u" "walk m' n q = Some u" for p q u
    using that t [of p u] t [of q u] n(1) pt_wfD(3) [OF wf, of p u q] * [of p] * [of q]
    by (cases "p = []"; cases "q = []") (auto split: if_splits)
  have "\<not> pte_huge (m' n ! i)" if "i < 512" for i using e [OF that] pt_wfD(4) [OF wf that] by (simp add: kr)
  then show wf': "pt_wf h n m'"
    unfolding pt_wf_def using len inj tab n(2) pt_wfD(2) [OF wf] by blast
  have "user_tables m' n \<subseteq> {n}"
  proof
    fix u assume "u \<in> user_tables m' n"
    then obtain q where "length q \<le> 3" "walk m' n q = Some u" "q = [] \<or> hd q < 256" by (auto simp: user_tables_def)
    then show "u \<in> {n}" using * [of q] by (cases "q = []") auto
  qed
  then show "apart m' n kr" using n(1) K(1) by (auto simp: apart_def)
  have "hd (indices w) < 256 \<longleftrightarrow> unat (va w) < 2 ^ 47" if "virt_ok w" by (rule indices_hd [OF that])
  moreover have "indices w \<noteq> []" by (simp add: indices_def)
  ultimately show "translate h (PhysAddr n) w m' =
       (if unat (va w) < 2 ^ 47 then Some TNotMapped else translate h (PhysAddr kr) w m)" if "virt_ok w"
    using * [of "indices w"] that by (simp add: translate_resolve [OF wf] translate_resolve [OF wf'])
qed

section \<open>Isolation\<close>

lemma path_isolated:
  assumes w: "path_writes r (indices v) A m m'" and v: "virt_ok v" "unat (va v) < 2 ^ 47"
    and len: "\<And>t. length (m' t) = 512" and wf: "pt_wf h r' m" and A: "A \<inter> tables m r' = {}" and ap: "apart m r r'"
  shows "tables m' r' = tables m r'" "pt_wf h r' m'" "apart m' r r'"
    "translate h (PhysAddr r') x m' = translate h (PhysAddr r') x m"
proof -
  have low: "take j (indices v) = [] \<or> hd (take j (indices v)) < 256" for j
    using indices_hd [OF v(1)] v(2) by (cases j) (simp_all add: indices_def)
  have same: "m' u = m u" if "u \<in> tables m r'" for u
  proof (rule ccontr)
    assume "m' u \<noteq> m u"
    then have "u \<in> A \<or> (\<exists>j \<le> 3. walk m r (take j (indices v)) = Some u)" using w unfolding path_writes_def by blast
    then have "u \<in> A \<or> u \<in> user_tables m r" using low by (fastforce simp: user_tables_def)
    then show False using that A ap by (auto simp: apart_def)
  qed
  note K = other_root [OF wf len same]
  show tab: "tables m' r' = tables m r'" and "pt_wf h r' m'"
    "translate h (PhysAddr r') x m' = translate h (PhysAddr r') x m" by (simp_all add: K)
  have "user_tables m' r \<subseteq> user_tables m r \<union> A"
    using w unfolding path_writes_def user_tables_def by blast
  then show "apart m' r r'" using A ap unfolding apart_def tab by blast
qed


lemma user_flag_plain:
  "\<not> flags_contains fl MF_WRITE_COMBINE \<Longrightarrow> \<not> flags_contains (fl OR MF_USER) MF_WRITE_COMBINE"
  unfolding MF_WRITE_COMBINE_def MF_USER_def flags_contains_exp bit_or_iff by (simp add: bit_exp_iff)

lemma fresh_apart:
  "frames_fresh h r m F \<Longrightarrow> frame_addrs F \<inter> tables m r = {}"
  by (auto simp: frames_fresh_def)

text \<open>The translation of a 4 KiB page with its flags replaced.\<close>

fun reflag :: "map_flags \<Rightarrow> translate_result \<Rightarrow> translate_result" where
  "reflag fl (Page4KiB f _) = Page4KiB f (map_flags_to_native fl)"
| "reflag fl t = t"

lemma translate_same_page:
  assumes "pt_wf h r m" "virt_ok w" "virt_ok v" "same_page Size4KiB w v"
  shows "translate h (PhysAddr r) w m = translate h (PhysAddr r) v m"
proof -
  have "indices w = indices v"
    using take_indices_eq_iff [OF assms(2,3), of Size4KiB] assms(4) by simp
  then show ?thesis by (simp add: translate_resolve [OF assms(1)])
qed

lemma protect_pages_spec:
  assumes "pt_wf (as_mapper sp) r m" "as_root_phys sp = PhysAddr r" "range_ok base n" "j \<le> n"
    and "\<forall>i \<in> {j..<n}. \<exists>f fl0. translate (as_mapper sp) (PhysAddr r) (page_va base i) m = Some (Page4KiB f fl0)"
    and "\<not> flags_contains fl MF_WRITE_COMBINE" "unat (va base) + 4096 * n \<le> 2 ^ 47"
    and "pt_wf h r' m" "apart m r r'"
  shows "\<exists>fls m'. protect_pages sp base fl [j..<n] fls0 m = Some (Inr (), fls, m') \<and>
      fls = fls0 @ map (page_va base) [j..<n] \<and>
      pt_wf (as_mapper sp) r m' \<and> tables m' r = tables m r \<and> pt_wf h r' m' \<and> apart m' r r' \<and>
      (\<forall>w. translate h (PhysAddr r') w m' = translate h (PhysAddr r') w m) \<and>
      (\<forall>w. virt_ok w \<longrightarrow> translate (as_mapper sp) (PhysAddr r) w m' =
        (if unat (va base) + 4096 * j \<le> unat (va w) \<and> unat (va w) < unat (va base) + 4096 * n
         then map_option (reflag fl)
                (translate (as_mapper sp) (PhysAddr r) w m)
         else translate (as_mapper sp) (PhysAddr r) w m))"
  using assms
proof (induction "n - j" arbitrary: j m fls0)
  case 0
  then show ?case by auto
next
  case (Suc k)
  let ?h = "as_mapper sp" and ?v = "page_va base j"
  have j: "j < n" and up: "[j..<n] = j # [Suc j..<n]" using Suc.hyps(2) by (simp_all add: upt_conv_Cons)
  note P = page_step [OF Suc.prems(3) j]
  have "j \<in> {j..<n}" using j by simp
  then obtain f fl0 where t: "translate ?h (PhysAddr r) (page_start (Page ?v)) m = Some (Page4KiB f fl0)"
    using Suc.prems(5) unfolding page.sel by blast
  have v: "virt_ok (page_start (Page ?v))" "unat (va (page_start (Page ?v))) < 2 ^ 47"
    using P(4) page_va_unat [OF Suc.prems(3) j] Suc.prems(7) j by simp_all
  from update_flags_native [OF Suc.prems(1) v(1) t Suc.prems(6), of Size4KiB] obtain m1 where
    b: "page_mapper_update_flags Size4KiB ?h (PhysAddr r) (Page ?v) fl m = Some (Inr (map_flush_new ?v), m1)"
      "pt_wf ?h r m1" "tables m1 r = tables m r" "path_writes r (indices (page_start (Page ?v))) {} m m1"
      "\<forall>w. virt_ok w \<longrightarrow> translate ?h (PhysAddr r) w m1 = (if same_page Size4KiB w ?v
         then Some (Page4KiB f (map_flags_to_native fl)) else translate ?h (PhysAddr r) w m)" by auto
  have len: "length (m1 u) = 512" for u using pt_wfD(1) [OF b(2)] by simp
  note I = path_isolated [OF b(4) v len Suc.prems(8) _ Suc.prems(9), simplified]
  note tr = b(5) [unfolded same_page_page_va [OF Suc.prems(3) j]]
  have later: "\<forall>i \<in> {Suc j..<n}. \<exists>f fl0. translate ?h (PhysAddr r) (page_va base i) m1 = Some (Page4KiB f fl0)"
    using tr Suc.prems(5) page_va_unat [OF Suc.prems(3)] page_step(4) [OF Suc.prems(3)] by auto
  have k: "k = n - Suc j" and le: "Suc j \<le> n" using Suc.hyps(2) j by simp_all
  from Suc.hyps(1) [OF k b(2) Suc.prems(2,3) le later Suc.prems(6,7) I(2,3), of "fls0 @ [?v]"] obtain fls m' where
    e: "protect_pages sp base fl [Suc j..<n] (fls0 @ [?v]) m1 = Some (Inr (), fls, m')"
      "fls = (fls0 @ [?v]) @ map (page_va base) [Suc j..<n]" "pt_wf ?h r m'" "tables m' r = tables m1 r"
      "pt_wf h r' m'" "apart m' r r'" "\<forall>w. translate h (PhysAddr r') w m' = translate h (PhysAddr r') w m1"
      "\<forall>w. virt_ok w \<longrightarrow> translate ?h (PhysAddr r) w m' =
        (if unat (va base) + 4096 * Suc j \<le> unat (va w) \<and> unat (va w) < unat (va base) + 4096 * n
         then map_option (reflag fl) (translate ?h (PhysAddr r) w m1) else translate ?h (PhysAddr r) w m1)" by blast
  have "map_flush_flush (map_flush_new ?v) = [?v]"
    by (simp add: map_flush_flush_def map_flush_new_def map_flush_drop_def Let_def)
  then have "protect_pages sp base fl [j..<n] fls0 m = Some (Inr (), fls, m')"
    unfolding up using b(1) e(1) by (simp add: P(1-3) Let_def Suc.prems(2))
  moreover have "translate ?h (PhysAddr r) w m' =
      (if unat (va base) + 4096 * j \<le> unat (va w) \<and> unat (va w) < unat (va base) + 4096 * n
       then map_option (reflag fl) (translate ?h (PhysAddr r) w m) else translate ?h (PhysAddr r) w m)"
    if w: "virt_ok w" for w
  proof (cases "same_page Size4KiB w ?v")
    case True
    then have "translate ?h (PhysAddr r) w m = Some (Page4KiB f fl0)"
      using translate_same_page [OF Suc.prems(1) w P(4)] t by simp
    then show ?thesis using True e(8) tr w j unfolding same_page_page_va [OF Suc.prems(3) j] by simp
  next
    case False
    then show ?thesis using e(8) tr w j unfolding same_page_page_va [OF Suc.prems(3) j] by auto
  qed
  ultimately show ?case using e b(3) I(4) up by auto
qed

lemma map_user_page_spec:
  assumes "pt_wf h r m" "frames_fresh h r m (pmm_avail s)" "pmm_good False s" "3 \<le> card (pmm_avail s)"
    and v: "virt_ok (page_start pg)" "unat (va (page_start pg)) < 2 ^ 47" and f: "phys_frame_ok Size4KiB f"
    and "mappable Size4KiB h r m (page_start pg)" and fl: "\<not> flags_contains fl MF_WRITE_COMBINE"
    and other: "pt_wf h r' m" "frames_fresh h r' m (pmm_avail s)" "apart m r r'"
    and sp: "as_mapper sp = h" "as_root_phys sp = PhysAddr r"
  obtains m' s' where "map_user_page (pmm_alloc False) sp pg f fl m s = Some (Inr (map_flush_new (page_start pg)), m', s')"
    "pmm_good False s'" "pt_wf h r m'" "frames_fresh h r m' (pmm_avail s')"
    "\<forall>w. virt_ok w \<longrightarrow> translate h (PhysAddr r) w m' = (if same_page Size4KiB w (page_start pg)
       then Some (Page4KiB f (map_flags_to_native (fl OR MF_USER))) else translate h (PhysAddr r) w m)"
    "pt_wf h r' m'" "frames_fresh h r' m' (pmm_avail s')" "apart m' r r'"
    "\<forall>w. translate h (PhysAddr r') w m' = translate h (PhysAddr r') w m"
proof -
  note plain = user_flag_plain [OF fl]
  have fr: "frames_fresh h r m (pmm_avail s \<union> {})" using assms(2) by simp
  from pmm.page_mapper_map_keeps [OF assms(1) fr assms(3,4) _ v(1) f assms(8) native_flags_bits(1) [OF plain]]
  obtain m' s' where b: "page_mapper_map Size4KiB (expect_frame (pmm_alloc False)) h (PhysAddr r) pg f (fl OR MF_USER) m s =
      Some (map_flush_new (page_start pg), m', s')" "pmm_good False s'" "pmm_avail s' \<subseteq> pmm_avail s"
    "pt_wf h r m'" "frames_fresh h r m' (pmm_avail s')"
    "path_writes r (indices (page_start pg)) (frame_addrs (pmm_avail s)) m m'"
    "\<forall>w. virt_ok w \<longrightarrow> translate h (PhysAddr r) w m' = (if same_page Size4KiB w (page_start pg)
       then Some (Page4KiB f (map_flags_to_native (fl OR MF_USER))) else translate h (PhysAddr r) w m)"
    unfolding leaf_result_native [OF plain f] by auto
  have len: "length (m' u) = 512" for u using pt_wfD(1) [OF b(4)] by simp
  note I = path_isolated [OF b(6) v len other(1) fresh_apart [OF other(2)] other(3)]
  have "map_user_page (pmm_alloc False) sp pg f fl m s = Some (Inr (map_flush_new (page_start pg)), m', s')"
    using b(1) by (simp add: map_user_page_def sp)
  moreover have "frames_fresh h r' m' (pmm_avail s')" using other(2) b(3) I(1) by (auto simp: frames_fresh_def)
  ultimately show ?thesis using b(2,4,5,7) I by (intro that) auto
qed

text \<open>An empty user address space beside another empty tree, on the small machine.\<close>

definition small_space :: "unit address_space" where
  "small_space = \<lparr>as_root_phys = PhysAddr 0x1000, as_mapper = tiny_hhdm, as_dealloc_fn = \<lambda>_ d. Some d\<rparr>"

lemma no_tables_tables: "tables no_tables r = {r}" "user_tables no_tables r = {r}"
  by (auto simp: tables_def user_tables_def no_tables_walk)

lemma small_space_ok:
  "pt_wf tiny_hhdm 0x80000 no_tables" "frames_fresh tiny_hhdm 0x80000 no_tables (pmm_avail (small_pmm, mem))"
  "apart no_tables 0x1000 0x80000" "frames_fresh tiny_hhdm 0x1000 no_tables (pmm_avail (small_pmm, mem))"
  "pmm_good False (small_pmm, mem)" "translate tiny_hhdm (PhysAddr 0x1000) v no_tables = Some TNotMapped"
proof -
  show wf: "pt_wf tiny_hhdm 0x80000 no_tables"
    unfolding pt_wf_def no_tables_tables by (auto simp: no_tables_walk accessible_def tiny_hhdm_def split: if_splits)
      (simp_all add: no_tables_def)
  note I = vmm_invD [OF small_vmm_inv(1) [of mem]]
  have m: "vm_mapper small_vmm = tiny_hhdm" "vm_root_phys small_vmm = PhysAddr 0x1000"
    by (simp_all add: small_vmm_def vmm_new_def Let_def)
  show g: "pmm_good False (small_pmm, mem)" and f: "frames_fresh tiny_hhdm 0x1000 no_tables (pmm_avail (small_pmm, mem))"
    using I(2,4) by (simp_all add: m)
  have "pa (frame_start f) \<noteq> 0x80000" if "f \<in> pmm_avail (small_pmm, mem)" for f
  proof -
    obtain i where i: "f = frame_at i" "i < 128" using \<open>f \<in> _\<close> by (auto simp: pmm_avail_def small_pmm_free)
    have "unat (pa (frame_start f)) = i * 4096"
      using i(2) by (simp add: i(1) frame_at_def frame_addr_def unat_word_ariths unat_of_nat)
    then show ?thesis using i(2) by (auto simp: word_unat_eq_iff)
  qed
  then show "frames_fresh tiny_hhdm 0x80000 no_tables (pmm_avail (small_pmm, mem))"
    using f by (auto simp: frames_fresh_def no_tables_tables)
  show "apart no_tables 0x1000 0x80000" by (simp add: apart_def no_tables_tables)
  show "translate tiny_hhdm (PhysAddr 0x1000) v no_tables = Some TNotMapped"
    by (simp add: translate_resolve [OF no_tables_ok(1)] no_tables_resolve)
qed

lemmas small_map = map_user_page_spec [OF no_tables_ok(1) small_space_ok(4,5), where sp = small_space and r' = "0x80000"]

section \<open>Properties\<close>

text \<open>
  C14: creating a user address space takes one free frame for its root table. The new tree is well
  formed; every lower-half address is unmapped in it and every upper-half address translates as in
  the kernel's tree, whose own translations are unchanged. Apart from the upper half the two trees
  share no table. Dropping the address space at once makes the frame free again.
\<close>

theorem new_user_shares_kernel:
  assumes "pt_wf h kr m" "frames_fresh h kr m (pmm_avail s)" "pmm_good False s" "pmm_avail s \<noteq> {}"
  shows "\<exists>sp m' s'. new_user (pmm_alloc False) (PhysAddr kr) h (\<lambda>f d. pmm_dealloc False d f) m s = Some (Inr sp, m', s') \<and>
    as_mapper sp = h \<and> pt_wf h (pa (as_root_phys sp)) m' \<and> apart m' (pa (as_root_phys sp)) kr \<and>
    frames_fresh h (pa (as_root_phys sp)) m' (pmm_avail s') \<and> frames_fresh h kr m' (pmm_avail s') \<and>
    (\<forall>w. virt_ok w \<longrightarrow> translate h (as_root_phys sp) w m' =
      (if unat (va w) < 2 ^ 47 then Some TNotMapped else translate h (PhysAddr kr) w m)) \<and>
    (\<forall>w. translate h (PhysAddr kr) w m' = translate h (PhysAddr kr) w m) \<and>
    (\<exists>s''. address_space_drop sp s' = Some s'' \<and> pmm_good False s'' \<and> pmm_avail s'' = pmm_avail s)"
proof -
  from pmm.alloc_law [OF assms(3)] assms(4) obtain f s' where a: "pmm_alloc False s = Some (Some f, s')"
    "pmm_good False s'" "f \<in> pmm_avail s" "pmm_avail s' = pmm_avail s - {f}" "pmm_tracked s' = pmm_tracked s"
    by (auto split: option.splits)
  define n where "n = pa (frame_start f)"
  have n: "n \<notin> tables m kr" "accessible h n" using assms(2) a(3) by (auto simp: frames_fresh_def n_def)
  define m' where "m' = m(n := replicate 256 pte_empty @ drop 256 (m kr))"
  note N = new_root [OF assms(1) n, folded m'_def]
  have nk: "n \<noteq> kr" using n(1) walk_in_tables [of m kr "[]" kr] by auto
  let ?sp = "\<lparr>as_root_phys = frame_start f, as_mapper = h, as_dealloc_fn = \<lambda>f d. pmm_dealloc False d f\<rparr>"
  have "new_user (pmm_alloc False) (PhysAddr kr) h (\<lambda>f d. pmm_dealloc False d f) m s = Some (Inr ?sp, m', s')"
    using nk by (simp add: new_user_def a(1) KERNEL_PML4_ENTRIES_def m'_def n_def Let_def)
  moreover have fk: "frames_fresh h kr m' (pmm_avail s')"
    using assms(2) a(4) N(4) by (auto simp: frames_fresh_def)
  moreover have "pa (frame_start g) \<noteq> n" if "g \<in> pmm_avail s'" for g
    using that a(4) unfolding n_def by (metis DiffE insertI1 phys_addr.expand phys_frame.expand)
  then have fn: "frames_fresh h n m' (pmm_avail s')"
    using fk N(1) N(4) by (auto simp: frames_fresh_def)
  have f: "phys_frame_ok Size4KiB f"
    using a(3) pmm.avail_tracked [OF assms(3)] pmm.tracked_ok [OF assms(3)] by blast
  have tr: "f \<in> pmm_tracked s'" "f \<notin> pmm_avail s'" using a(3-5) pmm.avail_tracked [OF assms(3)] by auto
  have d: "\<exists>s''. pmm_dealloc False s' f = Some s'' \<and> pmm_good False s'' \<and> pmm_avail s'' = pmm_avail s"
    using pmm.dealloc_law [OF a(2) tr] unfolding a(4) insert_Diff [OF a(3)] by blast
  have "phys_frame_containing_address Size4KiB (frame_start f) = Some f"
    using phys_frame_ok_4096 [OF f]
    by (simp add: phys_frame_containing_address_eq phys_frame.expand phys_addr.expand word_unat_eq_iff unat_and_not_mask)
  then have "\<exists>s''. address_space_drop ?sp s' = Some s'' \<and> pmm_good False s'' \<and> pmm_avail s'' = pmm_avail s"
    using d by (simp add: address_space_drop_def)
  ultimately show ?thesis using N(2,5-7) fn
    by (intro exI [of _ ?sp] exI [of _ m'] exI [of _ s']) (simp add: n_def)
qed


theorem new_user_shares_kernel_witness:
  "\<exists>sp m' s' s''. new_user (pmm_alloc False) (PhysAddr 0x1000) tiny_hhdm (\<lambda>f d. pmm_dealloc False d f) no_tables
      (small_pmm, \<lambda>_. 0) = Some (Inr sp, m', s') \<and> pt_wf tiny_hhdm (pa (as_root_phys sp)) m' \<and>
    address_space_drop sp s' = Some s'' \<and> pmm_avail s'' = pmm_avail (small_pmm, \<lambda>_. 0)"
proof -
  have "pmm_avail (small_pmm, \<lambda>_. 0) \<noteq> {}" using small_vmm_inv(2) [of "\<lambda>_. 0"] by force
  from new_user_shares_kernel [OF no_tables_ok(1) small_space_ok(4,5) this] show ?thesis by blast
qed

text \<open>
  C3: isolation. Mapping a lower-half page in a user address space and unmapping it again leaves the
  translations of any other address space \<open>r'\<close> unchanged, provided the two trees share no table except
  through the upper half and no free frame is a table of either. In its own address space the page
  is accessible to user mode with the flags asked for, and unmapping returns the frame, flushes the
  page and restores the translation.
\<close>

theorem user_page_isolated:
  assumes "pt_wf h r m" "frames_fresh h r m (pmm_avail s)" "pmm_good False s" "3 \<le> card (pmm_avail s)"
    and "virt_ok (page_start pg)" "unat (va (page_start pg)) < 2 ^ 47" "phys_frame_ok Size4KiB f"
    and "translate h (PhysAddr r) (page_start pg) m = Some TNotMapped" "\<not> flags_contains fl MF_WRITE_COMBINE"
    and "pt_wf h r' m" "frames_fresh h r' m (pmm_avail s)" "apart m r r'"
    and "as_mapper sp = h" "as_root_phys sp = PhysAddr r"
  shows "\<exists>m1 s1 m2. map_user_page (pmm_alloc False) sp pg f fl m s = Some (Inr (map_flush_new (page_start pg)), m1, s1) \<and>
    unmap_user_page sp pg m1 = Some (Inr f, [page_start pg], m2) \<and>
    (\<forall>w. virt_ok w \<longrightarrow> translate h (PhysAddr r) w m1 = (if same_page Size4KiB w (page_start pg)
       then Some (Page4KiB f (map_flags_to_native (fl OR MF_USER))) else translate h (PhysAddr r) w m)) \<and>
    (\<forall>w. virt_ok w \<longrightarrow> translate h (PhysAddr r) w m2 = translate h (PhysAddr r) w m) \<and>
    (\<forall>w. translate h (PhysAddr r') w m1 = translate h (PhysAddr r') w m \<and>
         translate h (PhysAddr r') w m2 = translate h (PhysAddr r') w m) \<and>
    pt_wf h r m2 \<and> pt_wf h r' m2 \<and> apart m2 r r' \<and> pmm_good False s1 \<and>
    frames_fresh h r m2 (pmm_avail s1) \<and> frames_fresh h r' m2 (pmm_avail s1)"
proof -
  have mp: "mappable Size4KiB h r m (page_start pg)" using assms(8) by (simp add: mappable_def)
  obtain m1 s1 where a: "map_user_page (pmm_alloc False) sp pg f fl m s = Some (Inr (map_flush_new (page_start pg)), m1, s1)"
    "pmm_good False s1" "pt_wf h r m1" "frames_fresh h r m1 (pmm_avail s1)"
    "\<forall>w. virt_ok w \<longrightarrow> translate h (PhysAddr r) w m1 = (if same_page Size4KiB w (page_start pg)
       then Some (Page4KiB f (map_flags_to_native (fl OR MF_USER))) else translate h (PhysAddr r) w m)"
    "pt_wf h r' m1" "frames_fresh h r' m1 (pmm_avail s1)" "apart m1 r r'"
    "\<forall>w. translate h (PhysAddr r') w m1 = translate h (PhysAddr r') w m"
    by (rule map_user_page_spec [OF assms(1-7) mp assms(9-14)])
  have "translate h (PhysAddr r) (page_start pg) m1 = Some (Page4KiB f (map_flags_to_native (fl OR MF_USER)))"
    using a(5) assms(5) by (simp add: same_page_def)
  from page_mapper_unmap_spec [OF a(3) assms(5) this, of Size4KiB] obtain m2 where
    b: "page_mapper_unmap Size4KiB h (PhysAddr r) pg m1 =
        Some (Inr (PhysFrame (PhysAddr (pa (frame_start f) AND NOT (mask 12))), map_flush_new (page_start pg)), m2)"
      "pt_wf h r m2" "tables m2 r = tables m1 r" "path_writes r (indices (page_start pg)) {} m1 m2"
      "\<forall>w. virt_ok w \<longrightarrow> translate h (PhysAddr r) w m2 =
        (if same_page Size4KiB w (page_start pg) then Some TNotMapped else translate h (PhysAddr r) w m1)" by auto
  have len: "length (m2 u) = 512" for u using pt_wfD(1) [OF b(2)] by simp
  note I = path_isolated [OF b(4) assms(5,6) len a(6) _ a(8), simplified]
  have "PhysFrame (PhysAddr (pa (frame_start f) AND NOT (mask 12))) = f"
    using phys_frame_ok_4096 [OF assms(7)]
    by (simp add: phys_frame.expand phys_addr.expand word_unat_eq_iff unat_and_not_mask)
  then have "unmap_user_page sp pg m1 = Some (Inr f, [page_start pg], m2)"
    using b(1) by (simp add: unmap_user_page_def assms(13,14) map_flush_flush_def map_flush_new_def map_flush_drop_def Let_def)
  moreover have "\<forall>w. virt_ok w \<longrightarrow> translate h (PhysAddr r) w m2 = translate h (PhysAddr r) w m"
    using b(5) a(5) translate_same_page [OF assms(1) _ assms(5)] assms(8) by auto
  moreover have "frames_fresh h r m2 (pmm_avail s1)" "frames_fresh h r' m2 (pmm_avail s1)"
    using a(4,7) b(3) I(1) by (simp_all add: frames_fresh_def)
  ultimately show ?thesis using a(1,2,5,9) b(2) I(2-4) by auto
qed

theorem user_page_isolated_witness:
  "\<exists>m1 s1 m2. map_user_page (pmm_alloc False) small_space (Page (VirtAddr 0x400000)) (frame_at 7) MF_WRITABLE no_tables
      (small_pmm, \<lambda>_. 0) = Some (Inr (map_flush_new (VirtAddr 0x400000)), m1, s1) \<and>
    unmap_user_page small_space (Page (VirtAddr 0x400000)) m1 = Some (Inr (frame_at 7), [VirtAddr 0x400000], m2) \<and>
    translate tiny_hhdm (PhysAddr 0x80000) (VirtAddr 0x400000) m1 =
      translate tiny_hhdm (PhysAddr 0x80000) (VirtAddr 0x400000) no_tables"
proof -
  have "\<not> flags_contains MF_WRITABLE MF_WRITE_COMBINE"
    by (simp add: flags_contains_def MF_WRITABLE_def MF_WRITE_COMBINE_def)
  moreover have "phys_frame_ok Size4KiB (frame_at 7)" by (rule frame_at_ok) simp
  moreover have "virt_ok (page_start (Page (VirtAddr 0x400000)))" by (simp add: virt_ok_def canonical_iff)
  ultimately show ?thesis
    using user_page_isolated [OF no_tables_ok(1) small_space_ok(4,5), of "\<lambda>_. 0" "Page (VirtAddr 0x400000)" "frame_at 7"
        MF_WRITABLE "0x80000" small_space] small_space_ok small_vmm_inv(2) [of "\<lambda>_. 0"]
    by (auto simp: small_space_def)
qed

text \<open>
  C23: \<^verbatim>\<open>protect_range\<close> over pages that are all mapped succeeds: it replaces the flags of exactly these
  pages, always with user access, keeps their frames, flushes every page of the range once, and
  leaves the translations of any other address space unchanged.
\<close>

theorem protect_range_correct:
  assumes "pt_wf h r m" "as_mapper sp = h" "as_root_phys sp = PhysAddr r" "range_ok base n"
    and "\<forall>i \<in> {0..<n}. \<exists>f fl0. translate h (PhysAddr r) (page_va base i) m = Some (Page4KiB f fl0)"
    and "\<not> flags_contains fl MF_WRITE_COMBINE" "unat (va base) + 4096 * n \<le> 2 ^ 47"
    and "pt_wf h r' m" "apart m r r'"
  shows "\<exists>m'. protect_range sp base n fl m = Some (Inr (), map (page_va base) [0..<n], m') \<and>
      pt_wf h r m' \<and> pt_wf h r' m' \<and> apart m' r r' \<and>
      (\<forall>w. translate h (PhysAddr r') w m' = translate h (PhysAddr r') w m) \<and>
      (\<forall>w. virt_ok w \<longrightarrow> translate h (PhysAddr r) w m' =
        (if unat (va base) \<le> unat (va w) \<and> unat (va w) < unat (va base) + 4096 * n
         then map_option (reflag (fl OR MF_USER)) (translate h (PhysAddr r) w m)
         else translate h (PhysAddr r) w m))"
  using protect_pages_spec [of sp r m base n 0 "fl OR MF_USER" h r' "[]"] assms user_flag_plain [OF assms(6)]
  by (auto simp: protect_range_def)


theorem protect_range_correct_witness:
  "\<exists>m1 s1 m2. map_user_page (pmm_alloc False) small_space (Page (VirtAddr 0x400000)) (frame_at 7) MF_WRITABLE no_tables
      (small_pmm, \<lambda>_. 0) = Some (Inr (map_flush_new (VirtAddr 0x400000)), m1, s1) \<and>
    protect_range small_space (VirtAddr 0x400000) 1 MF_EXECUTABLE m1 = Some (Inr (), [VirtAddr 0x400000], m2) \<and>
    translate tiny_hhdm (PhysAddr 0x1000) (VirtAddr 0x400123) m2 =
      Some (Page4KiB (frame_at 7) (map_flags_to_native (MF_EXECUTABLE OR MF_USER)))"
proof -
  have fl: "\<not> flags_contains MF_WRITABLE MF_WRITE_COMBINE" "\<not> flags_contains MF_EXECUTABLE MF_WRITE_COMBINE"
    by (simp_all add: flags_contains_def MF_WRITABLE_def MF_EXECUTABLE_def MF_WRITE_COMBINE_def)
  have v: "virt_ok (page_start (Page (VirtAddr 0x400000)))" "virt_ok (VirtAddr 0x400123)"
    by (simp_all add: virt_ok_def canonical_iff)
  have f: "phys_frame_ok Size4KiB (frame_at 7)" by (rule frame_at_ok) simp
  have c: "3 \<le> card (pmm_avail (small_pmm, \<lambda>_. 0))" by (simp add: small_vmm_inv(2))
  have sp: "as_mapper small_space = tiny_hhdm" "as_root_phys small_space = PhysAddr 0x1000"
    by (simp_all add: small_space_def)
  obtain m1 s1 where a: "map_user_page (pmm_alloc False) small_space (Page (VirtAddr 0x400000)) (frame_at 7) MF_WRITABLE
      no_tables (small_pmm, \<lambda>_. 0) = Some (Inr (map_flush_new (VirtAddr 0x400000)), m1, s1)" "pt_wf tiny_hhdm 0x1000 m1"
    "\<forall>w. virt_ok w \<longrightarrow> translate tiny_hhdm (PhysAddr 0x1000) w m1 = (if same_page Size4KiB w (VirtAddr 0x400000)
       then Some (Page4KiB (frame_at 7) (map_flags_to_native (MF_WRITABLE OR MF_USER)))
       else translate tiny_hhdm (PhysAddr 0x1000) w no_tables)"
    "pt_wf tiny_hhdm 0x80000 m1" "apart m1 0x1000 0x80000"
    by (rule small_map [OF c v(1) _ f no_tables_mappable fl(1) small_space_ok(1-3) sp]) simp_all
  have rg: "range_ok (VirtAddr 0x400000) 1"
    by (auto simp: range_ok_def virt_ok_def canonical_iff)
  have p: "page_va (VirtAddr 0x400000) 0 = VirtAddr 0x400000" by (simp add: page_va_def)
  have "translate tiny_hhdm (PhysAddr 0x1000) (page_va (VirtAddr 0x400000) 0) m1 =
      Some (Page4KiB (frame_at 7) (map_flags_to_native (MF_WRITABLE OR MF_USER)))"
    using a(3) v(1) by (simp add: p same_page_def)
  then have mapped: "\<forall>i \<in> {0..<1}. \<exists>f fl0. translate tiny_hhdm (PhysAddr 0x1000) (page_va (VirtAddr 0x400000) i) m1 =
      Some (Page4KiB f fl0)" by auto
  have "unat (va (VirtAddr 0x400000)) + 4096 * 1 \<le> 2 ^ 47" by simp
  from protect_range_correct [OF a(2) sp rg mapped fl(2) this a(4,5)] obtain m2 where
    d: "protect_range small_space (VirtAddr 0x400000) 1 MF_EXECUTABLE m1 = Some (Inr (), [VirtAddr 0x400000], m2)"
      "translate tiny_hhdm (PhysAddr 0x1000) (VirtAddr 0x400123) m2 = map_option (reflag (MF_EXECUTABLE OR MF_USER))
         (translate tiny_hhdm (PhysAddr 0x1000) (VirtAddr 0x400123) m1)"
    using v(2) by (auto simp: p)
  have "translate tiny_hhdm (PhysAddr 0x1000) (VirtAddr 0x400123) m1 =
      Some (Page4KiB (frame_at 7) (map_flags_to_native (MF_WRITABLE OR MF_USER)))"
    using a(3) v(2) by (simp add: same_page_def)
  then show ?thesis using a(1) d by simp
qed

end
