(* ===== verification/Circular_Buffer.thy ===== *)
theory Circular_Buffer
  imports Hadron_Prelude
begin

text \<open>
  The circular byte buffer of \<^verbatim>\<open>kernel/ipc/src/circular_buffer.rs\<close>: reads and writes with at most two
  bulk copies. The lemmas show that it implements a bounded first-in first-out queue of bytes: the
  locale \<open>byte_queue\<close> is the contract its clients rely on.
\<close>

record circular_buffer =
  cb_data :: "u8 list"
  read_pos :: usize
  write_pos :: usize
  cb_count :: usize

definition circular_buffer_new :: "usize \<Rightarrow> circular_buffer" where
  "circular_buffer_new capacity =
     \<lparr>cb_data = replicate capacity 0, read_pos = 0, write_pos = 0, cb_count = 0\<rparr>"

definition cb_capacity :: "circular_buffer \<Rightarrow> usize" where
  "cb_capacity self = length (cb_data self)"

definition cb_is_empty :: "circular_buffer \<Rightarrow> bool" where
  "cb_is_empty self = (cb_count self = 0)"

definition cb_is_full :: "circular_buffer \<Rightarrow> bool" where
  "cb_is_full self = (cb_count self = length (cb_data self))"

text \<open>\<^verbatim>\<open>a % b\<close> on \<open>usize\<close>: division by zero panics.\<close>

definition us_mod :: "usize \<Rightarrow> usize \<Rightarrow> usize option" where
  "us_mod a b = (if b = 0 then None else Some (a mod b))"

definition cb_read ::
  "circular_buffer \<Rightarrow> u8 list \<Rightarrow> (usize \<times> u8 list \<times> circular_buffer) option" where
  "cb_read self buf =
     (let to_read = min (length buf) (cb_count self)
      in if to_read = 0 then Some (0, buf, self)
         else do {
           let cap = length (cb_data self);
           room \<leftarrow> us_sub cap (read_pos self);
           let first = min room to_read;
           e \<leftarrow> us_add (read_pos self) first;
           src \<leftarrow> slice (cb_data self) (read_pos self) e;
           buf \<leftarrow> copy_slice buf 0 first src;
           buf \<leftarrow> (if first < to_read
                   then do { src \<leftarrow> slice (cb_data self) 0 (to_read - first);
                             copy_slice buf first to_read src }
                   else Some buf);
           p \<leftarrow> us_add (read_pos self) to_read;
           p \<leftarrow> us_mod p cap;
           c \<leftarrow> us_sub (cb_count self) to_read;
           Some (to_read, buf, self\<lparr>read_pos := p, cb_count := c\<rparr>) })"

definition cb_write :: "circular_buffer \<Rightarrow> u8 list \<Rightarrow> (usize \<times> circular_buffer) option" where
  "cb_write self buf =
     do { available \<leftarrow> us_sub (length (cb_data self)) (cb_count self);
          let to_write = min (length buf) available;
          if to_write = 0 then Some (0, self)
          else do {
            let cap = length (cb_data self);
            room \<leftarrow> us_sub cap (write_pos self);
            let first = min room to_write;
            e \<leftarrow> us_add (write_pos self) first;
            src \<leftarrow> slice buf 0 first;
            d \<leftarrow> copy_slice (cb_data self) (write_pos self) e src;
            d \<leftarrow> (if first < to_write
                  then do { src \<leftarrow> slice buf first to_write;
                            copy_slice d 0 (to_write - first) src }
                  else Some d);
            p \<leftarrow> us_add (write_pos self) to_write;
            p \<leftarrow> us_mod p cap;
            c \<leftarrow> us_add (cb_count self) to_write;
            Some (to_write, self\<lparr>cb_data := d, write_pos := p, cb_count := c\<rparr>) } }"

section \<open>Contents and invariant\<close>

text \<open>The slice \<open>data\<close> is an allocation, so its length is below 2^63 (\<^verbatim>\<open>isize::MAX\<close>).\<close>

definition cb_inv :: "circular_buffer \<Rightarrow> bool" where
  "cb_inv self =
     (length (cb_data self) < 2 ^ 63 \<and> cb_count self \<le> length (cb_data self) \<and>
      (0 < length (cb_data self) \<longrightarrow>
         read_pos self < length (cb_data self) \<and>
         write_pos self = (read_pos self + cb_count self) mod length (cb_data self)))"

definition cb_contents :: "circular_buffer \<Rightarrow> u8 list" where
  "cb_contents self = take (cb_count self) (rotate (read_pos self) (cb_data self))"

lemma length_cb_contents: "cb_inv self \<Longrightarrow> length (cb_contents self) = cb_count self"
  by (simp add: cb_contents_def cb_inv_def)

lemma cb_contents_nth:
  assumes "cb_inv self" "i < cb_count self"
  shows "cb_contents self ! i = cb_data self ! ((read_pos self + i) mod length (cb_data self))"
  using assms by (simp add: cb_contents_def cb_inv_def nth_rotate)

lemma circular_buffer_new_inv: "n < 2 ^ 63 \<Longrightarrow> cb_inv (circular_buffer_new n)"
  "cb_contents (circular_buffer_new n) = []"
  by (simp_all add: cb_inv_def circular_buffer_new_def cb_contents_def)

lemma mod_add_cancel_nat: "(a + x) mod m = (a + y) mod m \<longleftrightarrow> x mod m = y mod m" for a x y m :: nat
  by (simp add: nat_mod_eq_iff add.assoc)

lemma rotate_two_chunks:
  assumes "r < length D" "n \<le> length D"
  shows "take n (rotate r D) =
    take (min (length D - r) n) (drop r D) @ take (n - min (length D - r) n) D"
  using assms by (auto simp: rotate_drop_take min_def)

lemma cb_contents_drop:
  assumes "r < length D" "c \<le> length D" "n \<le> c"
  shows "take (c - n) (rotate ((r + n) mod length D) D) = drop n (take c (rotate r D))"
proof (rule nth_equalityI)
  fix i assume "i < length (take (c - n) (rotate ((r + n) mod length D) D))"
  then have i: "i < c - n" by simp
  show "take (c - n) (rotate ((r + n) mod length D) D) ! i = drop n (take c (rotate r D)) ! i"
    using i assms by (simp add: nth_rotate mod_add_left_eq add.assoc)
qed (use assms in simp)

lemma cb_read_spec:
  fixes buf :: "u8 list"
  assumes inv: "cb_inv self"
  defines "n \<equiv> min (length buf) (cb_count self)"
  shows "\<exists>self'. cb_read self buf = Some (n, take n (cb_contents self) @ drop n buf, self') \<and> cb_inv self' \<and>
    cb_contents self' = drop n (cb_contents self) \<and> cb_capacity self' = cb_capacity self"
proof (cases "n = 0")
  case True
  then show ?thesis using inv by (simp add: cb_read_def flip: n_def)
next
  case False
  let ?D = "cb_data self" and ?r = "read_pos self" and ?c = "cb_count self"
  have b: "0 < length ?D" "length ?D < 2 ^ 63" "?c \<le> length ?D" "?r < length ?D" "n \<le> ?c" "n \<le> length buf"
    using inv False by (auto simp: cb_inv_def n_def)
  define f where "f = min (length ?D - ?r) n"
  define self' where "self' = self\<lparr>read_pos := (?r + n) mod length ?D, cb_count := ?c - n\<rparr>"
  have f: "f \<le> n" "?r + f \<le> length ?D" using b by (auto simp: f_def)
  have chunks: "take n (cb_contents self) = take f (drop ?r ?D) @ take (n - f) ?D"
    using rotate_two_chunks [of ?r ?D n] b by (simp add: cb_contents_def min_absorb1 flip: f_def)
  have "cb_read self buf = Some (n, (take f (drop ?r ?D) @ take (n - f) ?D) @ drop n buf, self')"
    using False b f by (cases "f < n") (simp_all add: cb_read_def us_mod_def self'_def flip: n_def f_def)
  then have "cb_read self buf = Some (n, take n (cb_contents self) @ drop n buf, self')" by (simp only: chunks)
  moreover have "cb_contents self' = drop n (cb_contents self)"
    using cb_contents_drop [of ?r ?D ?c n] b by (simp add: cb_contents_def self'_def)
  moreover have "cb_inv self'"
  proof -
    have "((?r + n) mod length ?D + (?c - n)) mod length ?D = (?r + n + (?c - n)) mod length ?D"
      by (rule mod_add_left_eq)
    then show ?thesis using inv b by (simp add: cb_inv_def self'_def)
  qed
  ultimately show ?thesis by (auto simp: self'_def cb_capacity_def)
qed

lemma write_chunks:
  assumes w: "w < length D" "n \<le> length D" "n \<le> length buf"
  defines "f \<equiv> min (length D - w) n"
  defines "D1 \<equiv> take w D @ take f buf @ drop (w + f) D"
  defines "D2 \<equiv> take (n - f) (drop f buf) @ drop (n - f) D1"
  shows "length D1 = length D" "length D2 = length D"
    "j < n \<Longrightarrow> D2 ! ((w + j) mod length D) = buf ! j"
    "k < length D \<Longrightarrow> (\<And>j. j < n \<Longrightarrow> (w + j) mod length D \<noteq> k) \<Longrightarrow> D2 ! k = D ! k"
proof -
  have f: "f \<le> n" "w + f \<le> length D" "f = n \<or> w + f = length D" using w by (auto simp: f_def)
  show l: "length D1 = length D" using w f by (simp add: D1_def)
  show "length D2 = length D" using w f l by (simp add: D2_def)
  have D1: "k < length D \<Longrightarrow> D1 ! k = (if w \<le> k \<and> k < w + f then buf ! (k - w) else D ! k)" for k
    using w f by (auto simp: D1_def nth_append)
  have D2: "k < length D \<Longrightarrow> D2 ! k = (if k < n - f then buf ! (f + k) else D1 ! k)" for k
    using w f l by (auto simp: D2_def nth_append)
  show "D2 ! ((w + j) mod length D) = buf ! j" if "j < n"
  proof (cases "w + j < length D")
    case True
    then show ?thesis using that f w by (auto simp: D2 D1)
  next
    case False
    then have "(w + j) mod length D = w + j - length D" using that w by (simp add: mod_if)
    moreover have "w + f = length D" using that f False by auto
    ultimately have "(w + j) mod length D = j - f" "f \<le> j" using False by auto
    moreover have "j - f < n - f" using that calculation(2) by (rule diff_less_mono)
    ultimately show ?thesis using w by (simp add: D2)
  qed
  show "D2 ! k = D ! k" if k: "k < length D" "\<And>j. j < n \<Longrightarrow> (w + j) mod length D \<noteq> k"
  proof -
    have "\<not> (w \<le> k \<and> k < w + f)" using k(2) [of "k - w"] k(1) f(1) by fastforce
    moreover have "\<not> k < n - f"
    proof
      assume a: "k < n - f"
      then have "w + f = length D" using f by auto
      then have "(w + (f + k)) mod length D = k" using k(1) by (simp flip: add.assoc)
      then show False using k(2) [of "f + k"] a by simp
    qed
    ultimately show ?thesis using k(1) by (auto simp: D2 D1)
  qed
qed

lemma cb_write_spec:
  fixes buf :: "u8 list"
  assumes inv: "cb_inv self"
  defines "n \<equiv> min (length buf) (cb_capacity self - cb_count self)"
  shows "\<exists>self'. cb_write self buf = Some (n, self') \<and> cb_inv self' \<and>
    cb_contents self' = cb_contents self @ take n buf \<and> cb_capacity self' = cb_capacity self"
proof (cases "n = 0")
  case True
  then show ?thesis using inv by (auto simp: cb_write_def cb_inv_def n_def cb_capacity_def)
next
  case False
  let ?D = "cb_data self" and ?r = "read_pos self" and ?c = "cb_count self" and ?w = "write_pos self"
  have b: "0 < length ?D" "length ?D < 2 ^ 63" "?c + n \<le> length ?D" "?r < length ?D" "n \<le> length buf"
    "?w = (?r + ?c) mod length ?D"
    using inv False by (auto simp: cb_inv_def n_def cb_capacity_def)
  have w: "?w < length ?D" using b(1,6) by simp
  define f where "f = min (length ?D - ?w) n"
  define D1 where "D1 = take ?w ?D @ take f buf @ drop (?w + f) ?D"
  define D2 where "D2 = take (n - f) (drop f buf) @ drop (n - f) D1"
  have n: "n \<le> length ?D" using b(3) by simp
  note wc = write_chunks [OF w n b(5), folded f_def, folded D1_def, folded D2_def]
  define self' where "self' = self\<lparr>cb_data := D2, write_pos := (?w + n) mod length ?D, cb_count := ?c + n\<rparr>"
  have f: "f \<le> n" "?w + f \<le> length ?D" using w by (auto simp: f_def)
  have n': "min (length buf) (length ?D - ?c) = n" by (simp add: n_def cb_capacity_def)
  have c1: "copy_slice ?D ?w (?w + f) (take f buf) = Some D1" using f b(5) by (simp add: D1_def)
  have c2: "copy_slice D1 0 (n - f) (take (n - f) (drop f buf)) = Some D2"
    using n b(5) wc(1) by (simp add: D2_def)
  have c3: "\<not> f < n \<Longrightarrow> D1 = D2" by (simp add: D2_def)
  have eq: "cb_write self buf = Some (n, self')"
    using False b(1-3,5) w f n c1 c2 c3
    by (cases "f < n") (simp_all add: cb_write_def us_mod_def self'_def n' Let_def flip: f_def)
  have inv': "cb_inv self'" using b wc(2) by (auto simp: cb_inv_def self'_def mod_add_left_eq add.assoc)
  have "cb_contents self' = cb_contents self @ take n buf"
  proof (rule nth_equalityI)
    show "length (cb_contents self') = length (cb_contents self @ take n buf)"
      using length_cb_contents [OF inv] length_cb_contents [OF inv'] b(5) by (simp add: self'_def)
    fix i assume "i < length (cb_contents self')"
    then have i: "i < ?c + n" using length_cb_contents [OF inv'] by (simp add: self'_def)
    have lhs: "cb_contents self' ! i = D2 ! ((?r + i) mod length ?D)"
      using cb_contents_nth [OF inv', of i] i wc(2) by (simp add: self'_def)
    show "cb_contents self' ! i = (cb_contents self @ take n buf) ! i"
    proof (cases "i < ?c")
      case True
      have "(?w + j) mod length ?D \<noteq> (?r + i) mod length ?D" if "j < n" for j
      proof
        assume "(?w + j) mod length ?D = (?r + i) mod length ?D"
        then have "(?r + (?c + j)) mod length ?D = (?r + i) mod length ?D"
          by (simp add: b(6) mod_add_left_eq add.assoc)
        then have "(?c + j) mod length ?D = i mod length ?D"
          by (simp only: mod_add_cancel_nat)
        then show False using that True b(3) by simp
      qed
      then have "D2 ! ((?r + i) mod length ?D) = ?D ! ((?r + i) mod length ?D)" using b(1) by (intro wc(4)) auto
      then show ?thesis using True lhs cb_contents_nth [OF inv True] length_cb_contents [OF inv] by (simp add: nth_append)
    next
      case False
      then obtain j where j: "i = ?c + j" "j < n" using i by (metis add_diff_inverse_nat nat_add_left_cancel_less)
      have "(?r + i) mod length ?D = (?w + j) mod length ?D" by (simp add: j b(6) mod_add_left_eq add.assoc)
      then show ?thesis using lhs wc(3) [OF j(2)] j length_cb_contents [OF inv] b(5) by (simp add: nth_append)
    qed
  qed
  then show ?thesis using eq inv' wc(2) by (auto simp: self'_def cb_capacity_def)
qed

section \<open>The contract: a bounded queue of bytes\<close>

text \<open>A client's sequence of calls, its run on an implementation, and its run on the abstract queue.\<close>

datatype queue_op = Read nat | Write "u8 list"
datatype queue_out = Got "u8 list" | Wrote nat

fun queue_run ::
  "('q \<Rightarrow> u8 list \<Rightarrow> (usize \<times> u8 list \<times> 'q) option) \<Rightarrow> ('q \<Rightarrow> u8 list \<Rightarrow> (usize \<times> 'q) option) \<Rightarrow>
   'q \<Rightarrow> queue_op list \<Rightarrow> (queue_out list \<times> 'q) option" where
  "queue_run rd wr q [] = Some ([], q)"
| "queue_run rd wr q (Read n # ops) =
     do { (k, buf, q) \<leftarrow> rd q (replicate n 0); (outs, q) \<leftarrow> queue_run rd wr q ops;
          Some (Got (take k buf) # outs, q) }"
| "queue_run rd wr q (Write bs # ops) =
     do { (k, q) \<leftarrow> wr q bs; (outs, q) \<leftarrow> queue_run rd wr q ops; Some (Wrote k # outs, q) }"

fun fifo_run :: "nat \<Rightarrow> u8 list \<Rightarrow> queue_op list \<Rightarrow> queue_out list \<times> u8 list" where
  "fifo_run cap xs [] = ([], xs)"
| "fifo_run cap xs (Read n # ops) =
     (let (outs, ys) = fifo_run cap (drop n xs) ops in (Got (take n xs) # outs, ys))"
| "fifo_run cap xs (Write bs # ops) =
     (let k = min (length bs) (cap - length xs); (outs, ys) = fifo_run cap (xs @ take k bs) ops
      in (Wrote k # outs, ys))"

locale byte_queue =
  fixes qread :: "'q \<Rightarrow> u8 list \<Rightarrow> (usize \<times> u8 list \<times> 'q) option"
    and qwrite :: "'q \<Rightarrow> u8 list \<Rightarrow> (usize \<times> 'q) option"
    and qinv :: "'q \<Rightarrow> bool" and contents :: "'q \<Rightarrow> u8 list" and capacity :: "'q \<Rightarrow> nat"
  assumes read_law: "qinv q \<Longrightarrow> \<exists>q'. qread q buf =
      Some (min (length buf) (length (contents q)), take (length buf) (contents q) @ drop (length (contents q)) buf, q') \<and>
      qinv q' \<and> contents q' = drop (length buf) (contents q) \<and> capacity q' = capacity q"
    and write_law: "qinv q \<Longrightarrow> \<exists>q'. qwrite q bs = Some (min (length bs) (capacity q - length (contents q)), q') \<and>
      qinv q' \<and> contents q' = contents q @ take (capacity q - length (contents q)) bs \<and> capacity q' = capacity q"
    and bounded: "qinv q \<Longrightarrow> length (contents q) \<le> capacity q"
begin

lemma refines_fifo:
  assumes "qinv q"
  shows "\<exists>q'. queue_run qread qwrite q ops = Some (fst (fifo_run (capacity q) (contents q) ops), q') \<and>
    qinv q' \<and> contents q' = snd (fifo_run (capacity q) (contents q) ops) \<and> capacity q' = capacity q"
  using assms
proof (induction ops arbitrary: q)
  case (Cons op ops)
  show ?case
  proof (cases op)
    case (Read n)
    from read_law [OF Cons.prems, of "replicate n 0"] obtain q1 where
      1: "qread q (replicate n 0) = Some (min n (length (contents q)),
        take n (contents q) @ drop (length (contents q)) (replicate n 0), q1)"
        "qinv q1" "contents q1 = drop n (contents q)" "capacity q1 = capacity q" by auto
    have t: "take (min n (length xs)) xs = take n xs" for xs :: "u8 list" by (simp add: min_def)
    show ?thesis using Cons.IH [OF 1(2)] by (auto simp: Read 1 t split: prod.split)
  next
    case (Write bs)
    from write_law [OF Cons.prems, of bs] obtain q1 where
      1: "qwrite q bs = Some (min (length bs) (capacity q - length (contents q)), q1)"
        "qinv q1" "contents q1 = contents q @ take (capacity q - length (contents q)) bs"
        "capacity q1 = capacity q" by auto
    have t: "take (min (length bs) k) bs = take k bs" for k by (simp add: min_def)
    show ?thesis using Cons.IH [OF 1(2)] by (auto simp: Write 1 t Let_def split: prod.split)
  qed
qed simp

end

interpretation cbuf: byte_queue cb_read cb_write cb_inv cb_contents cb_capacity
proof
  fix q and buf :: "u8 list" assume inv: "cb_inv q"
  have t: "take (min (length buf) k) xs = take (length buf) xs" "drop (min (length buf) k) xs = drop (length buf) xs"
    "drop (min (length buf) k) buf = drop k buf" if "length xs = k" for k and xs :: "u8 list"
    using that by (auto simp: min_def)
  show "\<exists>q'. cb_read q buf = Some (min (length buf) (length (cb_contents q)),
      take (length buf) (cb_contents q) @ drop (length (cb_contents q)) buf, q') \<and>
      cb_inv q' \<and> cb_contents q' = drop (length buf) (cb_contents q) \<and> cb_capacity q' = cb_capacity q"
    using cb_read_spec [OF inv, of buf] t [OF length_cb_contents [OF inv]] by (simp add: length_cb_contents [OF inv])
next
  fix q and bs :: "u8 list" assume inv: "cb_inv q"
  have t: "take (min (length bs) k) bs = take k bs" for k by (simp add: min_def)
  show "\<exists>q'. cb_write q bs = Some (min (length bs) (cb_capacity q - length (cb_contents q)), q') \<and>
      cb_inv q' \<and> cb_contents q' = cb_contents q @ take (cb_capacity q - length (cb_contents q)) bs \<and>
      cb_capacity q' = cb_capacity q"
    using cb_write_spec [OF inv, of bs] by (simp add: length_cb_contents [OF inv] t)
next
  fix q assume "cb_inv q"
  then show "length (cb_contents q) \<le> cb_capacity q" by (simp add: length_cb_contents) (simp add: cb_inv_def cb_capacity_def)
qed

text \<open>
  C12: The circular buffer refines a bounded first-in first-out queue: for every sequence of reads and
  writes on a new buffer, every call returns without a panic and gives what the abstract queue of the
  same capacity gives, and the buffer then holds what the abstract queue holds.
\<close>

theorem circular_buffer_refines_fifo:
  assumes "n < 2 ^ 63"
  shows "\<exists>b. queue_run cb_read cb_write (circular_buffer_new n) ops = Some (fst (fifo_run n [] ops), b) \<and>
    cb_inv b \<and> cb_contents b = snd (fifo_run n [] ops)"
  using cbuf.refines_fifo [OF circular_buffer_new_inv(1) [OF assms], of ops]
  by (auto simp: circular_buffer_new_inv(2)) (simp_all add: cb_capacity_def circular_buffer_new_def)

theorem circular_buffer_refines_fifo_witness:
  "\<exists>b. queue_run cb_read cb_write (circular_buffer_new 4) [Write [1, 2, 3], Read 2, Write [4, 5, 6, 7], Read 9] =
     Some ([Wrote 3, Got [1, 2], Wrote 3, Got [3, 4, 5, 6]], b) \<and> cb_contents b = []"
  using circular_buffer_refines_fifo [of 4 "[Write [1, 2, 3], Read 2, Write [4, 5, 6, 7], Read 9]"] by auto

end
