(* ===== verification/Fs_Types.thy ===== *)
theory Fs_Types
  imports Hadron_Prelude
begin

text \<open>
  The vocabulary the file system and the inter-process communication share: inode types,
  permissions and errors of \<^verbatim>\<open>kernel/fs/src/lib.rs\<close>, the poll events and error numbers of
  \<^verbatim>\<open>kernel/syscall/src/lib.rs\<close>, and the heap-backed wait queue of
  \<^verbatim>\<open>kernel/core/src/sync/heap_waitqueue.rs\<close>.
\<close>

datatype inode_type = File | Directory | CharDevice | Symlink | BlockDevice | Socket

record permissions =
  perm_read :: bool
  perm_write :: bool
  perm_execute :: bool

definition permissions_all :: permissions where
  "permissions_all = \<lparr>perm_read = True, perm_write = True, perm_execute = True\<rparr>"

definition permissions_read_only :: permissions where
  "permissions_read_only = \<lparr>perm_read = True, perm_write = False, perm_execute = False\<rparr>"

definition permissions_read_write :: permissions where
  "permissions_read_write = \<lparr>perm_read = True, perm_write = True, perm_execute = False\<rparr>"

datatype fs_error =
    NotFound | NotADirectory | IsADirectory | AlreadyExists | BadFd | PermissionDenied | IoError
  | InvalidArgument | NotSupported | SymlinkLoop | Interrupted | BrokenPipe | Fault

fun to_errno :: "fs_error \<Rightarrow> int" where
  "to_errno NotFound = 2"
| "to_errno NotADirectory = 20"
| "to_errno IsADirectory = 21"
| "to_errno AlreadyExists = 17"
| "to_errno BadFd = 9"
| "to_errno PermissionDenied = 13"
| "to_errno IoError = 5"
| "to_errno InvalidArgument = 22"
| "to_errno NotSupported = 38"
| "to_errno SymlinkLoop = 40"
| "to_errno Interrupted = 4"
| "to_errno BrokenPipe = 32"
| "to_errno Fault = 14"

definition POLLIN :: u16 where "POLLIN = 0x0001"
definition POLLOUT :: u16 where "POLLOUT = 0x0004"
definition POLLERR :: u16 where "POLLERR = 0x0008"
definition POLLHUP :: u16 where "POLLHUP = 0x0010"

section \<open>Wait queues\<close>

text \<open>
  \<^verbatim>\<open>HeapWaitQueue\<close>: the queued wakers, oldest first. Two wakers are the same when \<^verbatim>\<open>will_wake\<close> says so;
  \<open>wake_one\<close> and \<open>wake_all\<close> return the wakers they invoke.
\<close>

type_synonym 'w wait_queue = "'w list"

definition register_waker :: "'w wait_queue \<Rightarrow> 'w \<Rightarrow> 'w wait_queue" where
  "register_waker waiters waker = (if waker \<in> set waiters then waiters else waiters @ [waker])"

fun wake_one :: "'w wait_queue \<Rightarrow> 'w list \<times> 'w wait_queue" where
  "wake_one [] = ([], [])"
| "wake_one (w # ws) = ([w], ws)"

definition wake_all :: "'w wait_queue \<Rightarrow> 'w list \<times> 'w wait_queue" where
  "wake_all waiters = (waiters, [])"

text \<open>\<^verbatim>\<open>HeapWaitFuture::poll\<close>: the first poll queues the waker, the second one completes.\<close>

definition wait_future_poll :: "'w wait_queue \<Rightarrow> bool \<Rightarrow> 'w \<Rightarrow> bool \<times> bool \<times> 'w wait_queue" where
  "wait_future_poll waiters registered waker =
     (if registered then (True, registered, waiters) else (False, True, waiters @ [waker]))"

lemma set_register_waker [simp]: "set (register_waker q w) = insert w (set q)"
  by (auto simp: register_waker_def)

lemma distinct_register_waker [simp]: "distinct q \<Longrightarrow> distinct (register_waker q w)"
  by (auto simp: register_waker_def)

lemma distinct_wake_one [simp]: "distinct q \<Longrightarrow> distinct (snd (wake_one q))"
  by (cases q) auto

end
