(* ===== verification/Pipe.thy ===== *)
theory Pipe
  imports Circular_Buffer Fs_Types
begin

text \<open>
  Pipes: \<^verbatim>\<open>kernel/ipc/src/pipe.rs\<close>. \<open>pipe_inner\<close> is the shared state behind the two halves. The
  asynchronous \<^verbatim>\<open>read\<close> and \<^verbatim>\<open>write\<close> run as tasks that interleave at every lock: a task registers its
  waker, checks the condition under the buffer lock, sleeps or proceeds, performs the transfer under
  the lock, and wakes the other side. \<open>pipe_step\<close> is the relation of these atomic steps for a set of
  reader tasks and a set of writer tasks that share the two halves. The lemmas show that bytes are
  delivered in order, that with one reader and one writer no wakeup is lost, and that with two tasks
  on the same half a wakeup can be lost.
\<close>

section \<open>The shared state and its operations\<close>

definition PIPE_BUF_SIZE :: usize where "PIPE_BUF_SIZE = 64 * 1024"

record pipe_inner =
  pipe_buffer :: circular_buffer
  read_wq :: "nat wait_queue"
  write_wq :: "nat wait_queue"
  readers :: usize
  writers :: usize

definition pipe :: pipe_inner where
  "pipe = \<lparr>pipe_buffer = circular_buffer_new PIPE_BUF_SIZE, read_wq = [], write_wq = [],
     readers = 1, writers = 1\<rparr>"

text \<open>\<^verbatim>\<open>AtomicUsize::fetch_sub(1)\<close> wraps at zero.\<close>

definition fetch_sub_1 :: "usize \<Rightarrow> usize" where
  "fetch_sub_1 n = (if n = 0 then 2 ^ 64 - 1 else n - 1)"

datatype outcome = Retry | Return "fs_error + usize" | WakeReturn "fs_error + usize"

definition pipe_read_ready :: "pipe_inner \<Rightarrow> bool" where
  "pipe_read_ready p = (\<not> cb_is_empty (pipe_buffer p) \<or> writers p = 0)"

definition pipe_read_attempt ::
  "pipe_inner \<Rightarrow> u8 list \<Rightarrow> (outcome \<times> u8 list \<times> pipe_inner) option" where
  "pipe_read_attempt p buf =
     (if \<not> cb_is_empty (pipe_buffer p)
      then do { (n, buf', b) \<leftarrow> cb_read (pipe_buffer p) buf;
                Some (WakeReturn (Inr n), buf', p\<lparr>pipe_buffer := b\<rparr>) }
      else if writers p = 0 then Some (Return (Inr 0), buf, p)
      else Some (Retry, buf, p))"

definition pipe_write_ready :: "pipe_inner \<Rightarrow> bool" where
  "pipe_write_ready p = (readers p = 0 \<or> \<not> cb_is_full (pipe_buffer p))"

definition pipe_write_attempt :: "pipe_inner \<Rightarrow> u8 list \<Rightarrow> (outcome \<times> pipe_inner) option" where
  "pipe_write_attempt p buf =
     (if readers p = 0 then Some (Return (Inl BrokenPipe), p)
      else if \<not> cb_is_full (pipe_buffer p)
      then do { (n, b) \<leftarrow> cb_write (pipe_buffer p) buf;
                Some (WakeReturn (Inr n), p\<lparr>pipe_buffer := b\<rparr>) }
      else Some (Retry, p))"

definition reader_poll_readiness :: "pipe_inner \<Rightarrow> nat option \<Rightarrow> u16 \<times> pipe_inner" where
  "reader_poll_readiness p waker =
     (let p = (case waker of None \<Rightarrow> p | Some w \<Rightarrow> p\<lparr>read_wq := register_waker (read_wq p) w\<rparr>);
          events = (if \<not> cb_is_empty (pipe_buffer p) then POLLIN else 0);
          events = (if writers p = 0 then events OR POLLHUP OR POLLIN else events)
      in (events, p))"

definition writer_poll_readiness :: "pipe_inner \<Rightarrow> nat option \<Rightarrow> u16 \<times> pipe_inner" where
  "writer_poll_readiness p waker =
     (let p = (case waker of None \<Rightarrow> p | Some w \<Rightarrow> p\<lparr>write_wq := register_waker (write_wq p) w\<rparr>);
          events = (if \<not> cb_is_full (pipe_buffer p) then POLLOUT else 0);
          events = (if readers p = 0 then events OR POLLERR else events)
      in (events, p))"

definition pipe_inode_type :: inode_type where "pipe_inode_type = CharDevice"
definition pipe_size :: "pipe_inner \<Rightarrow> usize" where "pipe_size p = cb_count (pipe_buffer p)"

definition reader_write :: "fs_error + usize" where "reader_write = Inl NotSupported"
definition writer_read :: "fs_error + usize" where "writer_read = Inl NotSupported"

definition writer_permissions :: permissions where
  "writer_permissions = \<lparr>perm_read = False, perm_write = True, perm_execute = False\<rparr>"

section \<open>Tasks\<close>

text \<open>
  Where a task stands in \<^verbatim>\<open>read\<close>, \<^verbatim>\<open>write\<close> or \<^verbatim>\<open>drop\<close>. A task that was woken is polled again, also when the
  wakeup came before it went to sleep.
\<close>

datatype pipe_pc =
    Idle
  | ReadRegister "u8 list" | ReadCheck "u8 list" | ReadSleep "u8 list" | ReadTake "u8 list"
  | ReadWake "fs_error + usize" "u8 list" | ReadDone "fs_error + usize" "u8 list"
  | WriteRegister "u8 list" | WriteCheck "u8 list" | WriteSleep "u8 list" | WritePut "u8 list"
  | WriteWake "fs_error + usize" | WriteDone "fs_error + usize"
  | Dropping | Dropped

text \<open>
  A system of tasks on one pipe. \<open>sent\<close> and \<open>delivered\<close> record, for the statements only, the bytes
  accepted from writers and handed to readers, in the order of the transfers.
\<close>

record pipe_sys =
  the_pipe :: pipe_inner
  pc :: "nat \<Rightarrow> pipe_pc"
  woken :: "nat set"
  sent :: "u8 list"
  delivered :: "u8 list"

definition pipe_sys_init :: pipe_sys where
  "pipe_sys_init = \<lparr>the_pipe = pipe, pc = (\<lambda>_. Idle), woken = {}, sent = [], delivered = []\<rparr>"

definition goto :: "nat \<Rightarrow> pipe_pc \<Rightarrow> pipe_sys \<Rightarrow> pipe_sys" where
  "goto t c s = s\<lparr>pc := (pc s)(t := c)\<rparr>"

fun resting :: "pipe_pc \<Rightarrow> bool" where
  "resting Idle = True" | "resting (ReadDone _ _) = True" | "resting (WriteDone _) = True"
| "resting _ = False"

text \<open>One atomic step of task \<open>t\<close> inside \<^verbatim>\<open>PipeReader::read\<close>; \<open>None\<close> when it is not there or asleep.\<close>

fun reader_step :: "nat \<Rightarrow> pipe_pc \<Rightarrow> pipe_sys \<Rightarrow> pipe_sys option" where
  "reader_step t (ReadRegister buf) s =
     Some (goto t (ReadCheck buf) (s\<lparr>the_pipe := (the_pipe s)\<lparr>read_wq := register_waker (read_wq (the_pipe s)) t\<rparr>\<rparr>))"
| "reader_step t (ReadCheck buf) s =
     Some (goto t (if pipe_read_ready (the_pipe s) then ReadTake buf else ReadSleep buf) s)"
| "reader_step t (ReadSleep buf) s =
     (if t \<in> woken s then Some (goto t (ReadRegister buf) (s\<lparr>woken := woken s - {t}\<rparr>)) else None)"
| "reader_step t (ReadTake buf) s =
     do { (r, buf', p) \<leftarrow> pipe_read_attempt (the_pipe s) buf;
          Some (case r of
              Retry \<Rightarrow> goto t (ReadRegister buf) s
            | Return v \<Rightarrow> goto t (ReadDone v buf') s
            | WakeReturn v \<Rightarrow>
                goto t (ReadWake v buf') (s\<lparr>the_pipe := p, delivered := delivered s @
                  (case v of Inr n \<Rightarrow> take n buf' | Inl _ \<Rightarrow> [])\<rparr>)) }"
| "reader_step t (ReadWake v buf) s =
     (let (ws, q) = wake_one (write_wq (the_pipe s))
      in Some (goto t (ReadDone v buf)
           (s\<lparr>the_pipe := (the_pipe s)\<lparr>write_wq := q\<rparr>, woken := woken s \<union> set ws\<rparr>)))"
| "reader_step t _ s = None"

text \<open>One atomic step of task \<open>t\<close> inside \<^verbatim>\<open>PipeWriter::write\<close>.\<close>

fun writer_step :: "nat \<Rightarrow> pipe_pc \<Rightarrow> pipe_sys \<Rightarrow> pipe_sys option" where
  "writer_step t (WriteRegister buf) s =
     Some (goto t (WriteCheck buf) (s\<lparr>the_pipe := (the_pipe s)\<lparr>write_wq := register_waker (write_wq (the_pipe s)) t\<rparr>\<rparr>))"
| "writer_step t (WriteCheck buf) s =
     Some (goto t (if pipe_write_ready (the_pipe s) then WritePut buf else WriteSleep buf) s)"
| "writer_step t (WriteSleep buf) s =
     (if t \<in> woken s then Some (goto t (WriteRegister buf) (s\<lparr>woken := woken s - {t}\<rparr>)) else None)"
| "writer_step t (WritePut buf) s =
     do { (r, p) \<leftarrow> pipe_write_attempt (the_pipe s) buf;
          Some (case r of
              Retry \<Rightarrow> goto t (WriteRegister buf) s
            | Return v \<Rightarrow> goto t (WriteDone v) s
            | WakeReturn v \<Rightarrow>
                goto t (WriteWake v) (s\<lparr>the_pipe := p, sent := sent s @
                  (case v of Inr n \<Rightarrow> take n buf | Inl _ \<Rightarrow> [])\<rparr>)) }"
| "writer_step t (WriteWake v) s =
     (let (ws, q) = wake_one (read_wq (the_pipe s))
      in Some (goto t (WriteDone v)
           (s\<lparr>the_pipe := (the_pipe s)\<lparr>read_wq := q\<rparr>, woken := woken s \<union> set ws\<rparr>)))"
| "writer_step t _ s = None"

text \<open>The two steps of \<^verbatim>\<open>drop\<close> on the reader and on the writer half: the counter, then the wakeups.\<close>

definition reader_drop :: "nat \<Rightarrow> pipe_sys \<Rightarrow> pipe_sys" where
  "reader_drop t s =
     goto t Dropping (s\<lparr>the_pipe := (the_pipe s)\<lparr>readers := fetch_sub_1 (readers (the_pipe s))\<rparr>\<rparr>)"

definition reader_drop_wake :: "nat \<Rightarrow> pipe_sys \<Rightarrow> pipe_sys" where
  "reader_drop_wake t s =
     (let (ws, q) = wake_all (write_wq (the_pipe s))
      in goto t Dropped (s\<lparr>the_pipe := (the_pipe s)\<lparr>write_wq := q\<rparr>, woken := woken s \<union> set ws\<rparr>))"

definition writer_drop :: "nat \<Rightarrow> pipe_sys \<Rightarrow> pipe_sys" where
  "writer_drop t s =
     goto t Dropping (s\<lparr>the_pipe := (the_pipe s)\<lparr>writers := fetch_sub_1 (writers (the_pipe s))\<rparr>\<rparr>)"

definition writer_drop_wake :: "nat \<Rightarrow> pipe_sys \<Rightarrow> pipe_sys" where
  "writer_drop_wake t s =
     (let (ws, q) = wake_all (read_wq (the_pipe s))
      in goto t Dropped (s\<lparr>the_pipe := (the_pipe s)\<lparr>read_wq := q\<rparr>, woken := woken s \<union> set ws\<rparr>))"

text \<open>
  The steps of a system whose reader half is shared by the tasks \<open>R\<close> and whose writer half is shared
  by the tasks \<open>W\<close>. A task that is alone on its half may drop it; a half with several tasks stays open.
  Tasks that only poll a half for readiness, and so queue a waker without reading or writing, are not
  part of the system.
\<close>

inductive pipe_step :: "nat set \<Rightarrow> nat set \<Rightarrow> pipe_sys \<Rightarrow> pipe_sys \<Rightarrow> bool" for R W where
  start_read: "t \<in> R \<Longrightarrow> resting (pc s t) \<Longrightarrow> pipe_step R W s (goto t (ReadRegister buf) s)"
| start_write: "t \<in> W \<Longrightarrow> resting (pc s t) \<Longrightarrow> pipe_step R W s (goto t (WriteRegister buf) s)"
| reader: "t \<in> R \<Longrightarrow> reader_step t (pc s t) s = Some s' \<Longrightarrow> pipe_step R W s s'"
| writer: "t \<in> W \<Longrightarrow> writer_step t (pc s t) s = Some s' \<Longrightarrow> pipe_step R W s s'"
| drop_reader: "R = {t} \<Longrightarrow> resting (pc s t) \<Longrightarrow> pipe_step R W s (reader_drop t s)"
| drop_reader_wake: "t \<in> R \<Longrightarrow> pc s t = Dropping \<Longrightarrow> pipe_step R W s (reader_drop_wake t s)"
| drop_writer: "W = {t} \<Longrightarrow> resting (pc s t) \<Longrightarrow> pipe_step R W s (writer_drop t s)"
| drop_writer_wake: "t \<in> W \<Longrightarrow> pc s t = Dropping \<Longrightarrow> pipe_step R W s (writer_drop_wake t s)"

inductive pipe_reachable :: "nat set \<Rightarrow> nat set \<Rightarrow> pipe_sys \<Rightarrow> bool" for R W where
  init: "pipe_reachable R W pipe_sys_init"
| step: "pipe_reachable R W s \<Longrightarrow> pipe_step R W s s' \<Longrightarrow> pipe_reachable R W s'"

section \<open>Bytes arrive in order\<close>

lemma goto_simps [simp]:
  "the_pipe (goto t c s) = the_pipe s" "woken (goto t c s) = woken s" "sent (goto t c s) = sent s"
  "delivered (goto t c s) = delivered s" "pc (goto t c s) = (pc s)(t := c)"
  by (simp_all add: goto_def)

definition pipe_data_inv :: "pipe_sys \<Rightarrow> bool" where
  "pipe_data_inv s =
     (cb_inv (pipe_buffer (the_pipe s)) \<and> cb_capacity (pipe_buffer (the_pipe s)) = PIPE_BUF_SIZE \<and>
      delivered s @ cb_contents (pipe_buffer (the_pipe s)) = sent s)"

lemma pipe_read_attempt_spec:
  assumes "cb_inv (pipe_buffer p)"
  shows "\<exists>r buf' p'. pipe_read_attempt p buf = Some (r, buf', p') \<and> cb_inv (pipe_buffer p') \<and>
    cb_capacity (pipe_buffer p') = cb_capacity (pipe_buffer p) \<and> (\<forall>n. r \<noteq> Return (Inl n)) \<and>
    (case r of WakeReturn v \<Rightarrow> \<exists>n. v = Inr n \<and> cb_contents (pipe_buffer p) = take n buf' @ cb_contents (pipe_buffer p')
     | _ \<Rightarrow> p' = p \<and> cb_is_empty (pipe_buffer p))"
proof (cases "cb_is_empty (pipe_buffer p)")
  case False
  let ?c = "cb_contents (pipe_buffer p)"
  from cbuf.read_law [OF assms, of buf] obtain b where
    b: "cb_read (pipe_buffer p) buf = Some (min (length buf) (length ?c), take (length buf) ?c @ drop (length ?c) buf, b)"
      "cb_inv b" "cb_contents b = drop (length buf) ?c" "cb_capacity b = cb_capacity (pipe_buffer p)" by blast
  have "?c = take (min (length buf) (length ?c)) (take (length buf) ?c @ drop (length ?c) buf) @ drop (length buf) ?c"
    by (simp add: min_def)
  then show ?thesis using False b by (simp add: pipe_read_attempt_def)
qed (use assms in \<open>auto simp: pipe_read_attempt_def\<close>)

lemma pipe_write_attempt_spec:
  assumes "cb_inv (pipe_buffer p)"
  shows "\<exists>r p'. pipe_write_attempt p buf = Some (r, p') \<and> cb_inv (pipe_buffer p') \<and>
    cb_capacity (pipe_buffer p') = cb_capacity (pipe_buffer p) \<and>
    (case r of WakeReturn v \<Rightarrow> \<exists>n. v = Inr n \<and> cb_contents (pipe_buffer p') = cb_contents (pipe_buffer p) @ take n buf
     | Return v \<Rightarrow> v = Inl BrokenPipe \<and> p' = p \<and> readers p = 0
     | Retry \<Rightarrow> p' = p \<and> cb_is_full (pipe_buffer p))"
proof (cases "readers p = 0 \<or> cb_is_full (pipe_buffer p)")
  case False
  let ?c = "cb_contents (pipe_buffer p)" and ?k = "cb_capacity (pipe_buffer p)"
  from cbuf.write_law [OF assms, of buf] obtain b where
    b: "cb_write (pipe_buffer p) buf = Some (min (length buf) (?k - length ?c), b)"
      "cb_inv b" "cb_contents b = ?c @ take (?k - length ?c) buf" "cb_capacity b = ?k" by blast
  have "take (min (length buf) n) buf = take n buf" for n by (simp add: min_def)
  then show ?thesis using False b by (simp add: pipe_write_attempt_def)
qed (use assms in \<open>auto simp: pipe_write_attempt_def\<close>)

lemma reader_step_data:
  assumes "pipe_data_inv s" "reader_step t c s = Some s'" shows "pipe_data_inv s'"
proof (cases c)
  case (ReadTake buf)
  have inv: "cb_inv (pipe_buffer (the_pipe s))" using assms(1) by (simp add: pipe_data_inv_def)
  then obtain r buf' p' where a: "pipe_read_attempt (the_pipe s) buf = Some (r, buf', p')" "cb_inv (pipe_buffer p')"
    "cb_capacity (pipe_buffer p') = cb_capacity (pipe_buffer (the_pipe s))"
    "case r of WakeReturn v \<Rightarrow> \<exists>n. v = Inr n \<and> cb_contents (pipe_buffer (the_pipe s)) = take n buf' @ cb_contents (pipe_buffer p')
     | _ \<Rightarrow> p' = the_pipe s \<and> cb_is_empty (pipe_buffer (the_pipe s))"
    using pipe_read_attempt_spec [OF inv, of buf] by blast
  show ?thesis using a assms by (cases r) (auto simp: ReadTake pipe_data_inv_def)
qed (use assms in \<open>auto simp: pipe_data_inv_def Let_def split: if_splits prod.splits\<close>)

lemma writer_step_data:
  assumes "pipe_data_inv s" "writer_step t c s = Some s'" shows "pipe_data_inv s'"
proof (cases c)
  case (WritePut buf)
  have inv: "cb_inv (pipe_buffer (the_pipe s))" using assms(1) by (simp add: pipe_data_inv_def)
  then obtain r p' where a: "pipe_write_attempt (the_pipe s) buf = Some (r, p')" "cb_inv (pipe_buffer p')"
    "cb_capacity (pipe_buffer p') = cb_capacity (pipe_buffer (the_pipe s))"
    "case r of WakeReturn v \<Rightarrow> \<exists>n. v = Inr n \<and>
        cb_contents (pipe_buffer p') = cb_contents (pipe_buffer (the_pipe s)) @ take n buf
     | Return v \<Rightarrow> v = Inl BrokenPipe \<and> p' = the_pipe s \<and> readers (the_pipe s) = 0
     | Retry \<Rightarrow> p' = the_pipe s \<and> cb_is_full (pipe_buffer (the_pipe s))"
    using pipe_write_attempt_spec [OF inv, of buf] by blast
  show ?thesis using a assms by (cases r) (auto simp: WritePut pipe_data_inv_def)
qed (use assms in \<open>auto simp: pipe_data_inv_def Let_def split: if_splits prod.splits\<close>)

lemma pipe_reachable_data: "pipe_reachable R W s \<Longrightarrow> pipe_data_inv s"
proof (induction rule: pipe_reachable.induct)
  case init
  show ?case
    by (simp add: pipe_data_inv_def pipe_sys_init_def pipe_def circular_buffer_new_inv PIPE_BUF_SIZE_def)
      (simp add: cb_capacity_def circular_buffer_new_def)
next
  case (step s s')
  from step.hyps(2) show ?case
  proof (cases rule: pipe_step.cases)
    case (reader t) then show ?thesis using step.IH reader_step_data by blast
  next
    case (writer t) then show ?thesis using step.IH writer_step_data by blast
  qed (use step.IH in \<open>simp_all add: pipe_data_inv_def reader_drop_def reader_drop_wake_def
      writer_drop_def writer_drop_wake_def wake_all_def\<close>)
qed

text \<open>
  C19: Whatever the interleaving of any number of readers and writers, the bytes handed to readers, in
  the order of the transfers, followed by the bytes in the buffer are exactly the bytes accepted from
  writers: nothing is lost, duplicated or reordered, and the buffer never exceeds its capacity.
\<close>

theorem pipe_bytes_in_order:
  assumes "pipe_reachable R W s"
  shows "delivered s @ cb_contents (pipe_buffer (the_pipe s)) = sent s \<and>
    length (cb_contents (pipe_buffer (the_pipe s))) \<le> PIPE_BUF_SIZE"
  using pipe_reachable_data [OF assms] cbuf.bounded by (force simp: pipe_data_inv_def)

section \<open>Wakeups\<close>

fun reads :: "pipe_pc \<Rightarrow> bool" where
  "reads (ReadRegister _) = True" | "reads (ReadCheck _) = True" | "reads (ReadSleep _) = True"
| "reads (ReadTake _) = True" | "reads (ReadWake _ _) = True" | "reads _ = False"

fun writes :: "pipe_pc \<Rightarrow> bool" where
  "writes (WriteRegister _) = True" | "writes (WriteCheck _) = True" | "writes (WriteSleep _) = True"
| "writes (WritePut _) = True" | "writes (WriteWake _) = True" | "writes _ = False"

text \<open>The waker of a task in these states is queued, unless it has been invoked already.\<close>

fun read_waits :: "pipe_pc \<Rightarrow> bool" where
  "read_waits (ReadCheck _) = True" | "read_waits (ReadSleep _) = True" | "read_waits _ = False"

fun write_waits :: "pipe_pc \<Rightarrow> bool" where
  "write_waits (WriteCheck _) = True" | "write_waits (WriteSleep _) = True" | "write_waits _ = False"

fun read_sleeps :: "pipe_pc \<Rightarrow> bool" where
  "read_sleeps (ReadSleep _) = True" | "read_sleeps _ = False"

fun write_sleeps :: "pipe_pc \<Rightarrow> bool" where
  "write_sleeps (WriteSleep _) = True" | "write_sleeps _ = False"

text \<open>The other side is about to invoke the queued wakers.\<close>

fun will_wake_reader :: "pipe_pc \<Rightarrow> bool" where
  "will_wake_reader (WriteWake _) = True" | "will_wake_reader Dropping = True" | "will_wake_reader _ = False"

fun will_wake_writer :: "pipe_pc \<Rightarrow> bool" where
  "will_wake_writer (ReadWake _ _) = True" | "will_wake_writer Dropping = True" | "will_wake_writer _ = False"

definition wake_inv :: "nat \<Rightarrow> nat \<Rightarrow> pipe_sys \<Rightarrow> bool" where
  "wake_inv a b s =
     (set (read_wq (the_pipe s)) \<subseteq> {a} \<and> set (write_wq (the_pipe s)) \<subseteq> {b} \<and>
      \<not> writes (pc s a) \<and> \<not> reads (pc s b) \<and>
      (read_waits (pc s a) \<longrightarrow> a \<in> set (read_wq (the_pipe s)) \<or> a \<in> woken s) \<and>
      (write_waits (pc s b) \<longrightarrow> b \<in> set (write_wq (the_pipe s)) \<or> b \<in> woken s) \<and>
      (read_sleeps (pc s a) \<longrightarrow> a \<notin> woken s \<longrightarrow> pipe_read_ready (the_pipe s) \<longrightarrow> will_wake_reader (pc s b)) \<and>
      (write_sleeps (pc s b) \<longrightarrow> b \<notin> woken s \<longrightarrow> pipe_write_ready (the_pipe s) \<longrightarrow> will_wake_writer (pc s a)))"

lemma ready_wq [simp]:
  "pipe_read_ready (p\<lparr>read_wq := q\<rparr>) = pipe_read_ready p" "pipe_write_ready (p\<lparr>read_wq := q\<rparr>) = pipe_write_ready p"
  "pipe_read_ready (p\<lparr>write_wq := q\<rparr>) = pipe_read_ready p" "pipe_write_ready (p\<lparr>write_wq := q\<rparr>) = pipe_write_ready p"
  by (simp_all add: pipe_read_ready_def pipe_write_ready_def)

lemma sleeps_waits: "read_sleeps c \<Longrightarrow> read_waits c" "write_sleeps c \<Longrightarrow> write_waits c"
  by (cases c; simp)+

lemma wake_one_single: "set q \<subseteq> {a} \<Longrightarrow> distinct q \<Longrightarrow> wake_one q = (ws, q') \<Longrightarrow> a \<in> set q \<Longrightarrow> ws = [a] \<and> q' = []"
  by (cases q rule: wake_one.cases) (auto simp: subset_singleton_iff)

lemma wake_one_parts: "wake_one q = (ws, q') \<Longrightarrow> set q' \<subseteq> set q \<and> set q \<subseteq> set ws \<union> set q' \<and> set ws \<subseteq> set q"
  by (cases q rule: wake_one.cases) auto

lemma reader_step_wake:
  assumes inv: "wake_inv a b s" and st: "reader_step a (pc s a) s = Some s'" and ab: "a \<noteq> b"
  shows "wake_inv a b s'"
proof (cases "pc s a")
  case (ReadTake buf)
  from st obtain r buf' p where p: "pipe_read_attempt (the_pipe s) buf = Some (r, buf', p)"
    by (auto simp: ReadTake bind_eq_Some_conv)
  then have q: "read_wq p = read_wq (the_pipe s)" "write_wq p = write_wq (the_pipe s)"
    by (auto simp: pipe_read_attempt_def bind_eq_Some_conv split: if_splits)
  show ?thesis using inv st ab p q unfolding wake_inv_def by (cases r; clarsimp simp: ReadTake)
next
  case (ReadWake v buf)
  obtain ws q where w: "wake_one (write_wq (the_pipe s)) = (ws, q)" by fastforce
  have woke: "write_waits (pc s b) \<longrightarrow> b \<in> woken s \<or> b \<in> set ws"
    using inv wake_one_parts [OF w] by (cases "write_wq (the_pipe s)") (use w in \<open>auto simp: wake_inv_def\<close>)
  have sub: "set q \<subseteq> {b}" using inv wake_one_parts [OF w] unfolding wake_inv_def by blast
  have "s' = goto a (ReadDone v buf) (s\<lparr>the_pipe := (the_pipe s)\<lparr>write_wq := q\<rparr>, woken := woken s \<union> set ws\<rparr>)"
    using st w by (simp add: ReadWake)
  then show ?thesis
    using inv woke ab sleeps_waits(2) [of "pc s b"] sub unfolding wake_inv_def by simp
next
  case (ReadRegister buf)
  then show ?thesis using inv st ab unfolding wake_inv_def by clarsimp
next
  case (ReadCheck buf)
  then show ?thesis using inv st ab unfolding wake_inv_def by (cases "pipe_read_ready (the_pipe s)"; clarsimp)
next
  case (ReadSleep buf)
  then have "a \<in> woken s" using st by (simp split: if_splits)
  then show ?thesis using ReadSleep inv st ab unfolding wake_inv_def by clarsimp
qed (use st in simp_all)

lemma writer_step_wake:
  assumes inv: "wake_inv a b s" and st: "writer_step b (pc s b) s = Some s'" and ab: "a \<noteq> b"
  shows "wake_inv a b s'"
proof (cases "pc s b")
  case (WritePut buf)
  from st obtain r p where p: "pipe_write_attempt (the_pipe s) buf = Some (r, p)"
    by (auto simp: WritePut bind_eq_Some_conv)
  then have q: "read_wq p = read_wq (the_pipe s)" "write_wq p = write_wq (the_pipe s)"
    by (auto simp: pipe_write_attempt_def bind_eq_Some_conv split: if_splits)
  show ?thesis using inv st ab p q unfolding wake_inv_def by (cases r; clarsimp simp: WritePut)
next
  case (WriteWake v)
  obtain ws q where w: "wake_one (read_wq (the_pipe s)) = (ws, q)" by fastforce
  have woke: "read_waits (pc s a) \<longrightarrow> a \<in> woken s \<or> a \<in> set ws"
    using inv wake_one_parts [OF w] by (cases "read_wq (the_pipe s)") (use w in \<open>auto simp: wake_inv_def\<close>)
  have sub: "set q \<subseteq> {a}" using inv wake_one_parts [OF w] unfolding wake_inv_def by blast
  have "s' = goto b (WriteDone v) (s\<lparr>the_pipe := (the_pipe s)\<lparr>read_wq := q\<rparr>, woken := woken s \<union> set ws\<rparr>)"
    using st w by (simp add: WriteWake)
  then show ?thesis
    using inv woke ab sleeps_waits(1) [of "pc s a"] sub unfolding wake_inv_def by simp
next
  case (WriteRegister buf)
  then show ?thesis using inv st ab unfolding wake_inv_def by clarsimp
next
  case (WriteCheck buf)
  then show ?thesis using inv st ab unfolding wake_inv_def by (cases "pipe_write_ready (the_pipe s)"; clarsimp)
next
  case (WriteSleep buf)
  then have "b \<in> woken s" using st by (simp split: if_splits)
  then show ?thesis using WriteSleep inv st ab unfolding wake_inv_def by clarsimp
qed (use st in simp_all)

lemma resting_waits: "resting c \<Longrightarrow> \<not> read_waits c \<and> \<not> write_waits c \<and> \<not> reads c \<and> \<not> writes c \<and>
    \<not> read_sleeps c \<and> \<not> write_sleeps c \<and> \<not> will_wake_reader c \<and> \<not> will_wake_writer c"
  by (cases c) auto

lemma pipe_reachable_wake:
  assumes ab: "a \<noteq> b" shows "pipe_reachable {a} {b} s \<Longrightarrow> wake_inv a b s"
proof (induction rule: pipe_reachable.induct)
  case init
  show ?case by (simp add: wake_inv_def pipe_sys_init_def pipe_def)
next
  case (step s s')
  from step.hyps(2) show ?case
  proof (cases rule: pipe_step.cases)
    case (reader t) then show ?thesis using step.IH reader_step_wake [OF _ _ ab] by blast
  next
    case (writer t) then show ?thesis using step.IH writer_step_wake [OF _ _ ab] by blast
  next
    case (drop_reader_wake t)
    then show ?thesis using step.IH ab sleeps_waits(2) [of "pc s b"]
      by (auto simp: wake_inv_def reader_drop_wake_def wake_all_def pipe_read_ready_def)
  next
    case (drop_writer_wake t)
    then show ?thesis using step.IH ab sleeps_waits(1) [of "pc s a"]
      by (auto simp: wake_inv_def writer_drop_wake_def wake_all_def pipe_write_ready_def)
  next
    case (drop_reader t)
    then show ?thesis using step.IH ab resting_waits [of "pc s a"]
      by (auto simp: wake_inv_def reader_drop_def pipe_read_ready_def)
  next
    case (drop_writer t)
    then show ?thesis using step.IH ab resting_waits [of "pc s b"]
      by (auto simp: wake_inv_def writer_drop_def pipe_write_ready_def)
  qed (use step.IH ab resting_waits [of "pc s a"] resting_waits [of "pc s b"] in \<open>auto simp: wake_inv_def\<close>)
qed

lemma reader_step_enabled:
  assumes "pipe_data_inv s" "reads (pc s a)" "\<nexists>buf. pc s a = ReadSleep buf \<and> a \<notin> woken s"
  shows "\<exists>s'. reader_step a (pc s a) s = Some s'"
proof (cases "pc s a")
  case (ReadTake buf)
  then show ?thesis using pipe_read_attempt_spec [of "the_pipe s" buf] assms(1) by (auto simp: pipe_data_inv_def)
qed (use assms in \<open>auto simp: Let_def split: prod.splits\<close>)

lemma writer_step_enabled:
  assumes "pipe_data_inv s" "writes (pc s b)" "\<nexists>buf. pc s b = WriteSleep buf \<and> b \<notin> woken s"
  shows "\<exists>s'. writer_step b (pc s b) s = Some s'"
proof (cases "pc s b")
  case (WritePut buf)
  then show ?thesis using pipe_write_attempt_spec [of "the_pipe s" buf] assms(1) by (auto simp: pipe_data_inv_def)
qed (use assms in \<open>auto simp: Let_def split: prod.splits\<close>)

text \<open>
  C8: With one reading and one writing task no wakeup is lost: a reader that sleeps although it could
  proceed, and has not been woken, is about to be woken by the writer, and the same holds for a
  sleeping writer. Hence the two never block each other: while a read and a write are both in
  progress, at least one of the two tasks can take its next step, and no step panics.
\<close>

theorem pipe_no_lost_wakeup:
  assumes "a \<noteq> b" "pipe_reachable {a} {b} s"
  shows "(read_sleeps (pc s a) \<longrightarrow> a \<notin> woken s \<longrightarrow> pipe_read_ready (the_pipe s) \<longrightarrow> will_wake_reader (pc s b)) \<and>
    (write_sleeps (pc s b) \<longrightarrow> b \<notin> woken s \<longrightarrow> pipe_write_ready (the_pipe s) \<longrightarrow> will_wake_writer (pc s a)) \<and>
    (reads (pc s a) \<longrightarrow> writes (pc s b) \<longrightarrow>
       (\<exists>s'. reader_step a (pc s a) s = Some s' \<or> writer_step b (pc s b) s = Some s'))"
proof -
  note w = pipe_reachable_wake [OF assms] and d = pipe_reachable_data [OF assms(2)]
  have "\<exists>s'. reader_step a (pc s a) s = Some s' \<or> writer_step b (pc s b) s = Some s'"
    if r: "reads (pc s a)" and wr: "writes (pc s b)"
  proof (rule ccontr)
    assume stuck: "\<nexists>s'. reader_step a (pc s a) s = Some s' \<or> writer_step b (pc s b) s = Some s'"
    then obtain x y where sl: "pc s a = ReadSleep x" "a \<notin> woken s" "pc s b = WriteSleep y" "b \<notin> woken s"
      using reader_step_enabled [OF d r] writer_step_enabled [OF d wr] by blast
    then have "\<not> pipe_read_ready (the_pipe s)" "\<not> pipe_write_ready (the_pipe s)"
      using w unfolding wake_inv_def by auto
    then show False using d
      by (auto simp: pipe_read_ready_def pipe_write_ready_def cb_is_empty_def cb_is_full_def pipe_data_inv_def
          cb_capacity_def PIPE_BUF_SIZE_def)
  qed
  then show ?thesis using w unfolding wake_inv_def by blast
qed

section \<open>Complete operations\<close>

lemma write_transfer:
  assumes r: "pipe_reachable R W s" and t: "t \<in> W" "resting (pc s t)"
    and p: "readers (the_pipe s) \<noteq> 0" "length (cb_contents (pipe_buffer (the_pipe s))) + length buf \<le> PIPE_BUF_SIZE" "buf \<noteq> []"
  obtains s' where "pipe_reachable R W s'" "pc s' = (pc s)(t := WriteDone (Inr (length buf)))"
    "cb_contents (pipe_buffer (the_pipe s')) = cb_contents (pipe_buffer (the_pipe s)) @ buf"
    "read_wq (the_pipe s') = snd (wake_one (read_wq (the_pipe s)))"
    "write_wq (the_pipe s') = register_waker (write_wq (the_pipe s)) t"
    "woken s' = woken s \<union> set (fst (wake_one (read_wq (the_pipe s))))"
    "readers (the_pipe s') = readers (the_pipe s)" "writers (the_pipe s') = writers (the_pipe s)"
    "sent s' = sent s @ buf" "delivered s' = delivered s"
proof -
  note step = pipe_reachable.step [OF _ pipe_step.writer [OF t(1)]]
  have d: "cb_inv (pipe_buffer (the_pipe s))" "cb_capacity (pipe_buffer (the_pipe s)) = PIPE_BUF_SIZE"
    using pipe_reachable_data [OF r] by (simp_all add: pipe_data_inv_def)
  let ?c = "cb_contents (pipe_buffer (the_pipe s))"
  have nf: "\<not> cb_is_full (pipe_buffer (the_pipe s))"
    using p d by (cases buf) (auto simp: cb_is_full_def length_cb_contents cb_capacity_def)
  obtain b where b: "cb_write (pipe_buffer (the_pipe s)) buf = Some (length buf, b)" "cb_contents b = ?c @ buf"
    using cbuf.write_law [OF d(1), of buf] d(2) p(2) by auto
  define s1 where "s1 = goto t (WriteRegister buf) s"
  define s2 where "s2 = goto t (WriteCheck buf)
    (s1\<lparr>the_pipe := (the_pipe s1)\<lparr>write_wq := register_waker (write_wq (the_pipe s1)) t\<rparr>\<rparr>)"
  define s3 where "s3 = goto t (WritePut buf) s2"
  define s4 where "s4 = goto t (WriteWake (Inr (length buf)))
    (s3\<lparr>the_pipe := (the_pipe s3)\<lparr>pipe_buffer := b\<rparr>, sent := sent s3 @ buf\<rparr>)"
  define s5 where "s5 = goto t (WriteDone (Inr (length buf)))
    (s4\<lparr>the_pipe := (the_pipe s4)\<lparr>read_wq := snd (wake_one (read_wq (the_pipe s4)))\<rparr>,
        woken := woken s4 \<union> set (fst (wake_one (read_wq (the_pipe s4))))\<rparr>)"
  have "pipe_reachable R W s1" unfolding s1_def by (rule pipe_reachable.step [OF r pipe_step.start_write [OF t]])
  then have "pipe_reachable R W s2" by (rule step) (simp add: s1_def s2_def)
  then have "pipe_reachable R W s3"
    by (rule step) (simp add: s1_def s2_def s3_def pipe_write_ready_def nf)
  then have "pipe_reachable R W s4"
    by (rule step) (simp add: s1_def s2_def s3_def s4_def pipe_write_attempt_def nf p b)
  then have r5: "pipe_reachable R W s5" by (rule step) (simp add: s4_def s5_def split: prod.split)
  show thesis
    by (rule that [OF r5]) (simp_all add: s1_def s2_def s3_def s4_def s5_def b)
qed

lemma read_transfer:
  fixes buf :: "u8 list"
  assumes r: "pipe_reachable R W s" and t: "t \<in> R" "resting (pc s t)"
    and p: "cb_contents (pipe_buffer (the_pipe s)) = xs @ ys" "xs \<noteq> []" "length buf = length xs"
  obtains s' where "pipe_reachable R W s'" "pc s' = (pc s)(t := ReadDone (Inr (length xs)) xs)"
    "cb_contents (pipe_buffer (the_pipe s')) = ys"
    "write_wq (the_pipe s') = snd (wake_one (write_wq (the_pipe s)))"
    "read_wq (the_pipe s') = register_waker (read_wq (the_pipe s)) t"
    "woken s' = woken s \<union> set (fst (wake_one (write_wq (the_pipe s))))"
    "readers (the_pipe s') = readers (the_pipe s)" "writers (the_pipe s') = writers (the_pipe s)"
    "sent s' = sent s" "delivered s' = delivered s @ xs"
proof -
  note step = pipe_reachable.step [OF _ pipe_step.reader [OF t(1)]]
  have d: "cb_inv (pipe_buffer (the_pipe s))"
    using pipe_reachable_data [OF r] by (simp_all add: pipe_data_inv_def)
  have ne: "\<not> cb_is_empty (pipe_buffer (the_pipe s))"
    using p length_cb_contents [OF d] by (cases xs) (auto simp: cb_is_empty_def)
  obtain b where b: "cb_read (pipe_buffer (the_pipe s)) buf = Some (length xs, xs, b)" "cb_contents b = ys"
    using cbuf.read_law [OF d, of buf] p by auto
  define s1 where "s1 = goto t (ReadRegister buf) s"
  define s2 where "s2 = goto t (ReadCheck buf)
    (s1\<lparr>the_pipe := (the_pipe s1)\<lparr>read_wq := register_waker (read_wq (the_pipe s1)) t\<rparr>\<rparr>)"
  define s3 where "s3 = goto t (ReadTake buf) s2"
  define s4 where "s4 = goto t (ReadWake (Inr (length xs)) xs)
    (s3\<lparr>the_pipe := (the_pipe s3)\<lparr>pipe_buffer := b\<rparr>, delivered := delivered s3 @ xs\<rparr>)"
  define s5 where "s5 = goto t (ReadDone (Inr (length xs)) xs)
    (s4\<lparr>the_pipe := (the_pipe s4)\<lparr>write_wq := snd (wake_one (write_wq (the_pipe s4)))\<rparr>,
        woken := woken s4 \<union> set (fst (wake_one (write_wq (the_pipe s4))))\<rparr>)"
  have "pipe_reachable R W s1" unfolding s1_def by (rule pipe_reachable.step [OF r pipe_step.start_read [OF t]])
  then have "pipe_reachable R W s2" by (rule step) (simp add: s1_def s2_def)
  then have "pipe_reachable R W s3"
    by (rule step) (simp add: s1_def s2_def s3_def pipe_read_ready_def ne)
  then have "pipe_reachable R W s4"
    by (rule step) (simp add: s1_def s2_def s3_def s4_def pipe_read_attempt_def ne b)
  then have r5: "pipe_reachable R W s5" by (rule step) (simp add: s4_def s5_def split: prod.split)
  show thesis
    by (rule that [OF r5]) (simp_all add: s1_def s2_def s3_def s4_def s5_def b)
qed

lemma read_blocks:
  assumes r: "pipe_reachable R W s" and t: "t \<in> R" "resting (pc s t)"
    and p: "cb_contents (pipe_buffer (the_pipe s)) = []" "writers (the_pipe s) \<noteq> 0"
  obtains s' where "pipe_reachable R W s'"
    "s' = goto t (ReadSleep buf) (s\<lparr>the_pipe := (the_pipe s)\<lparr>read_wq := register_waker (read_wq (the_pipe s)) t\<rparr>\<rparr>)"
proof -
  note step = pipe_reachable.step [OF _ pipe_step.reader [OF t(1)]]
  have e: "cb_is_empty (pipe_buffer (the_pipe s))"
    using p pipe_reachable_data [OF r] length_cb_contents by (force simp: cb_is_empty_def pipe_data_inv_def)
  define s1 where "s1 = goto t (ReadRegister buf) s"
  define s2 where "s2 = goto t (ReadCheck buf)
    (s1\<lparr>the_pipe := (the_pipe s1)\<lparr>read_wq := register_waker (read_wq (the_pipe s1)) t\<rparr>\<rparr>)"
  have "pipe_reachable R W s1" unfolding s1_def by (rule pipe_reachable.step [OF r pipe_step.start_read [OF t]])
  then have "pipe_reachable R W s2" by (rule step) (simp add: s1_def s2_def)
  then have "pipe_reachable R W (goto t (ReadSleep buf) s2)"
    by (rule step) (simp add: s1_def s2_def pipe_read_ready_def e p)
  then show thesis by (rule that) (simp add: s1_def s2_def goto_def)
qed

lemma pipe_init_simps:
  "pc pipe_sys_init = (\<lambda>_. Idle)" "readers (the_pipe pipe_sys_init) = 1" "writers (the_pipe pipe_sys_init) = 1"
  "cb_contents (pipe_buffer (the_pipe pipe_sys_init)) = []" "read_wq (the_pipe pipe_sys_init) = []"
  "write_wq (the_pipe pipe_sys_init) = []" "woken pipe_sys_init = {}" "sent pipe_sys_init = []" "delivered pipe_sys_init = []"
  by (simp_all add: pipe_sys_init_def pipe_def circular_buffer_new_inv)

text \<open>A byte is written and read by one task, and a second byte is written.\<close>

lemma stale_waker_trace:
  obtains s where "pipe_reachable {0, 2} {1} s" "pc s 2 = ReadSleep [0]" "2 \<notin> woken s"
    "cb_contents (pipe_buffer (the_pipe s)) = [7]" "resting (pc s 0)" "resting (pc s 1)" "sent s = [1, 7]" "delivered s = [1]"
proof -
  obtain s1 where 1: "pipe_reachable {0, 2} {1} s1" "pc s1 = (\<lambda>_. Idle)(1 := WriteDone (Inr 1))"
    "cb_contents (pipe_buffer (the_pipe s1)) = [1]" "read_wq (the_pipe s1) = []" "write_wq (the_pipe s1) = [1]"
    "woken s1 = {}" "readers (the_pipe s1) = 1" "writers (the_pipe s1) = 1" "sent s1 = [1]" "delivered s1 = []"
    by (rule write_transfer [of "{0, 2}" "{1}" pipe_sys_init 1 "[1]"])
      (simp_all add: pipe_reachable.init pipe_init_simps PIPE_BUF_SIZE_def register_waker_def)
  obtain s2 where 2: "pipe_reachable {0, 2} {1} s2" "pc s2 = (pc s1)(0 := ReadDone (Inr 1) [1])"
    "cb_contents (pipe_buffer (the_pipe s2)) = []" "read_wq (the_pipe s2) = [0]" "write_wq (the_pipe s2) = []"
    "woken s2 = {1}" "readers (the_pipe s2) = 1" "writers (the_pipe s2) = 1" "sent s2 = [1]" "delivered s2 = [1]"
    by (rule read_transfer [OF 1(1), of 0 "[1]" "[]" "[0]"]) (simp_all add: 1 register_waker_def)
  obtain s3 where 3: "pipe_reachable {0, 2} {1} s3" "s3 = goto 2 (ReadSleep [0])
      (s2\<lparr>the_pipe := (the_pipe s2)\<lparr>read_wq := register_waker (read_wq (the_pipe s2)) 2\<rparr>\<rparr>)"
    by (rule read_blocks [OF 2(1), of 2 "[0]"]) (simp_all add: 1 2)
  obtain s4 where 4: "pipe_reachable {0, 2} {1} s4" "pc s4 = (pc s3)(1 := WriteDone (Inr 1))"
    "cb_contents (pipe_buffer (the_pipe s4)) = [7]" "woken s4 = {1, 0}" "sent s4 = [1, 7]" "delivered s4 = [1]"
    by (rule write_transfer [OF 3(1), of 1 "[7]"])
      (simp_all add: 3(2) 1 2 PIPE_BUF_SIZE_def register_waker_def insert_commute)
  show thesis by (rule that [OF 4(1)]) (simp_all add: 4 3(2) 2 1)
qed

theorem pipe_bytes_in_order_witness:
  "\<exists>s. pipe_reachable {0, 2} {1} s \<and> delivered s = [1] \<and> sent s = [1, 7] \<and>
     [1] @ cb_contents (pipe_buffer (the_pipe s)) = [1, 7]"
proof -
  obtain s where "pipe_reachable {0, 2} {1} s" "sent s = [1, 7]" "delivered s = [1]" by (rule stale_waker_trace)
  then show ?thesis using pipe_bytes_in_order [of "{0, 2}" "{1}" s] by metis
qed

theorem pipe_no_lost_wakeup_witness:
  "\<exists>s. pipe_reachable {0} {1} s \<and> pc s 0 = ReadSleep [0] \<and> 0 \<notin> woken s \<and> \<not> pipe_read_ready (the_pipe s)"
proof -
  obtain s where s: "pipe_reachable {0} {1} s" "s = goto 0 (ReadSleep [0]) (pipe_sys_init
      \<lparr>the_pipe := (the_pipe pipe_sys_init)\<lparr>read_wq := register_waker (read_wq (the_pipe pipe_sys_init)) 0\<rparr>\<rparr>)"
    by (rule read_blocks [where R = "{0}" and W = "{1}" and t = 0 and buf = "[0]", OF pipe_reachable.init]) (simp_all add: pipe_init_simps)
  then show ?thesis using pipe_no_lost_wakeup [OF _ s(1)] by (intro exI [of _ s]) (simp add: pipe_init_simps)
qed

text \<open>
  C39: With two tasks on the reading half a wakeup can be lost: a task that completed a read leaves its
  waker in the queue, the next write spends its single wakeup on that task, and another reader stays
  asleep although the buffer holds data and no task is about to wake it.
\<close>

theorem pipe_two_readers_lost_wakeup:
  "\<exists>s. pipe_reachable {0, 2} {1} s \<and> pc s 2 = ReadSleep [0] \<and> 2 \<notin> woken s \<and> pipe_read_ready (the_pipe s) \<and>
     resting (pc s 0) \<and> resting (pc s 1)"
proof -
  obtain s where s: "pipe_reachable {0, 2} {1} s" "pc s 2 = ReadSleep [0]" "2 \<notin> woken s"
    "cb_contents (pipe_buffer (the_pipe s)) = [7]" "resting (pc s 0)" "resting (pc s 1)" by (rule stale_waker_trace)
  then have "cb_count (pipe_buffer (the_pipe s)) = 1"
    using pipe_reachable_data [OF s(1)] length_cb_contents by (fastforce simp: pipe_data_inv_def)
  then have "pipe_read_ready (the_pipe s)" by (simp add: pipe_read_ready_def cb_is_empty_def)
  then show ?thesis using s by blast
qed

end
