(* ===== verification/Channel.thy ===== *)
theory Channel
  imports Fs_Types
begin

text \<open>
  Message channels and service endpoints: \<^verbatim>\<open>kernel/ipc/src/channel.rs\<close> and \<^verbatim>\<open>kernel/ipc/src/service.rs\<close>.
  \<open>channel_inner\<close> is the state the two endpoints share; an operation of an endpoint takes the side it
  is on. The blocking \<^verbatim>\<open>read\<close> and \<^verbatim>\<open>write\<close> are given as the condition they wait for and the attempt
  they make once it holds; the wakers an operation invokes are part of its result. Inodes attached
  to messages are of an arbitrary type \<open>'i\<close>. The lemmas show that each direction delivers whole
  messages with their attachments in order, within its bounds.
\<close>

definition MAX_MESSAGE_SIZE :: usize where "MAX_MESSAGE_SIZE = 4096"
definition MAX_BUFFERED_MESSAGES :: usize where "MAX_BUFFERED_MESSAGES = 16"

record 'i channel_message =
  msg_data :: "u8 list"
  msg_attached :: "'i option"

record 'i channel_inner =
  a_to_b :: "'i channel_message list"
  b_to_a :: "'i channel_message list"
  a_send_wq :: "nat wait_queue"
  a_recv_wq :: "nat wait_queue"
  b_send_wq :: "nat wait_queue"
  b_recv_wq :: "nat wait_queue"
  a_endpoints :: usize
  b_endpoints :: usize

definition channel :: "'i channel_inner" where
  "channel = \<lparr>a_to_b = [], b_to_a = [], a_send_wq = [], a_recv_wq = [], b_send_wq = [], b_recv_wq = [],
     a_endpoints = 1, b_endpoints = 1\<rparr>"

text \<open>\<^verbatim>\<open>send_queue\<close>: the queue a side sends to, with the update of that queue and of the wait queues.\<close>

definition send_queue :: "'i channel_inner \<Rightarrow> bool \<Rightarrow> 'i channel_message list" where
  "send_queue c is_a = (if is_a then a_to_b c else b_to_a c)"

definition set_send_queue :: "bool \<Rightarrow> 'i channel_message list \<Rightarrow> 'i channel_inner \<Rightarrow> 'i channel_inner" where
  "set_send_queue is_a q c = (if is_a then c\<lparr>a_to_b := q\<rparr> else c\<lparr>b_to_a := q\<rparr>)"

text \<open>\<^verbatim>\<open>recv_queue\<close>: a side receives from the queue its peer sends to.\<close>

definition recv_queue :: "'i channel_inner \<Rightarrow> bool \<Rightarrow> 'i channel_message list" where
  "recv_queue c is_a = (if is_a then b_to_a c else a_to_b c)"

definition set_recv_queue :: "bool \<Rightarrow> 'i channel_message list \<Rightarrow> 'i channel_inner \<Rightarrow> 'i channel_inner" where
  "set_recv_queue is_a q c = (if is_a then c\<lparr>b_to_a := q\<rparr> else c\<lparr>a_to_b := q\<rparr>)"

definition peer_counter :: "'i channel_inner \<Rightarrow> bool \<Rightarrow> usize" where
  "peer_counter c is_a = (if is_a then b_endpoints c else a_endpoints c)"

text \<open>Waking one waiter of the peer: its receivers after a send, its senders after a receive.\<close>

definition wake_peer_recv :: "bool \<Rightarrow> 'i channel_inner \<Rightarrow> nat list \<times> 'i channel_inner" where
  "wake_peer_recv is_a c =
     (if is_a then let (ws, q) = wake_one (b_recv_wq c) in (ws, c\<lparr>b_recv_wq := q\<rparr>)
      else let (ws, q) = wake_one (a_recv_wq c) in (ws, c\<lparr>a_recv_wq := q\<rparr>))"

definition wake_peer_send :: "bool \<Rightarrow> 'i channel_inner \<Rightarrow> nat list \<times> 'i channel_inner" where
  "wake_peer_send is_a c =
     (if is_a then let (ws, q) = wake_one (b_send_wq c) in (ws, c\<lparr>b_send_wq := q\<rparr>)
      else let (ws, q) = wake_one (a_send_wq c) in (ws, c\<lparr>a_send_wq := q\<rparr>))"

definition endpoint_drop :: "bool \<Rightarrow> 'i channel_inner \<Rightarrow> nat list \<times> 'i channel_inner" where
  "endpoint_drop is_a c =
     (let dec = (\<lambda>n. if n = 0 then 2 ^ 64 - 1 else n - 1 :: usize)
      in if is_a
         then let c = c\<lparr>a_endpoints := dec (a_endpoints c)\<rparr>; (ws, q) = wake_all (b_recv_wq c);
                  (ws', q') = wake_all (b_send_wq c)
              in (ws @ ws', c\<lparr>b_recv_wq := q, b_send_wq := q'\<rparr>)
         else let c = c\<lparr>b_endpoints := dec (b_endpoints c)\<rparr>; (ws, q) = wake_all (a_recv_wq c);
                  (ws', q') = wake_all (a_send_wq c)
              in (ws @ ws', c\<lparr>a_recv_wq := q, a_send_wq := q'\<rparr>))"

text \<open>The non-blocking operations; the inner \<open>None\<close> means that the call would block.\<close>

definition send_with_attachment ::
  "bool \<Rightarrow> u8 list \<Rightarrow> 'i option \<Rightarrow> 'i channel_inner \<Rightarrow>
   (fs_error + usize) option \<times> nat list \<times> 'i channel_inner" where
  "send_with_attachment is_a data attached c =
     (if MAX_MESSAGE_SIZE < length data then (Some (Inl InvalidArgument), [], c)
      else if peer_counter c is_a = 0 then (Some (Inl BrokenPipe), [], c)
      else let queue = send_queue c is_a
           in if length queue < MAX_BUFFERED_MESSAGES
              then let c = set_send_queue is_a (queue @ [\<lparr>msg_data = data, msg_attached = attached\<rparr>]) c;
                       (ws, c) = wake_peer_recv is_a c
                   in (Some (Inr (length data)), ws, c)
              else (None, [], c))"

definition recv_with_attachment ::
  "bool \<Rightarrow> u8 list \<Rightarrow> 'i channel_inner \<Rightarrow>
   ((fs_error + usize \<times> 'i option) option \<times> u8 list \<times> nat list \<times> 'i channel_inner) option" where
  "recv_with_attachment is_a buf c =
     (case recv_queue c is_a of
        msg # rest \<Rightarrow>
          do { let copy_len = min (length (msg_data msg)) (length buf);
               src \<leftarrow> slice (msg_data msg) 0 copy_len;
               buf \<leftarrow> copy_slice buf 0 copy_len src;
               let (ws, c) = wake_peer_send is_a (set_recv_queue is_a rest c);
               Some (Some (Inr (length (msg_data msg), msg_attached msg)), buf, ws, c) }
      | [] \<Rightarrow>
          Some (if peer_counter c is_a = 0 then Some (Inr (0, None)) else None, buf, [], c))"

text \<open>The blocking \<^verbatim>\<open>write\<close> and \<^verbatim>\<open>read\<close>: what they wait for, and the attempt; \<open>None\<close> means retry.\<close>

definition channel_write_ready :: "bool \<Rightarrow> 'i channel_inner \<Rightarrow> bool" where
  "channel_write_ready is_a c =
     (peer_counter c is_a = 0 \<or> length (send_queue c is_a) < MAX_BUFFERED_MESSAGES)"

definition channel_write_attempt ::
  "bool \<Rightarrow> u8 list \<Rightarrow> 'i channel_inner \<Rightarrow> (fs_error + usize) option \<times> nat list \<times> 'i channel_inner" where
  "channel_write_attempt is_a buf c =
     (if MAX_MESSAGE_SIZE < length buf then (Some (Inl InvalidArgument), [], c)
      else if peer_counter c is_a = 0 then (Some (Inl BrokenPipe), [], c)
      else let queue = send_queue c is_a
           in if length queue < MAX_BUFFERED_MESSAGES
              then let c = set_send_queue is_a (queue @ [\<lparr>msg_data = buf, msg_attached = None\<rparr>]) c;
                       (ws, c) = wake_peer_recv is_a c
                   in (Some (Inr (length buf)), ws, c)
              else (None, [], c))"

definition channel_read_ready :: "bool \<Rightarrow> 'i channel_inner \<Rightarrow> bool" where
  "channel_read_ready is_a c = (recv_queue c is_a \<noteq> [] \<or> peer_counter c is_a = 0)"

definition channel_read_attempt ::
  "bool \<Rightarrow> u8 list \<Rightarrow> 'i channel_inner \<Rightarrow>
   ((fs_error + usize) option \<times> u8 list \<times> nat list \<times> 'i channel_inner) option" where
  "channel_read_attempt is_a buf c =
     (case recv_queue c is_a of
        msg # rest \<Rightarrow>
          do { let copy_len = min (length (msg_data msg)) (length buf);
               src \<leftarrow> slice (msg_data msg) 0 copy_len;
               buf \<leftarrow> copy_slice buf 0 copy_len src;
               let (ws, c) = wake_peer_send is_a (set_recv_queue is_a rest c);
               Some (Some (Inr (length (msg_data msg))), buf, ws, c) }
      | [] \<Rightarrow> Some (if peer_counter c is_a = 0 then Some (Inr 0) else None, buf, [], c))"

definition channel_size :: "bool \<Rightarrow> 'i channel_inner \<Rightarrow> usize" where
  "channel_size is_a c = length (recv_queue c is_a)"

definition channel_poll_readiness :: "bool \<Rightarrow> nat option \<Rightarrow> 'i channel_inner \<Rightarrow> u16 \<times> 'i channel_inner" where
  "channel_poll_readiness is_a waker c =
     (let c = (case waker of None \<Rightarrow> c
               | Some w \<Rightarrow> if is_a then c\<lparr>a_recv_wq := register_waker (a_recv_wq c) w,
                                            a_send_wq := register_waker (a_send_wq c) w\<rparr>
                           else c\<lparr>b_recv_wq := register_waker (b_recv_wq c) w,
                                  b_send_wq := register_waker (b_send_wq c) w\<rparr>);
          events = (if recv_queue c is_a \<noteq> [] then POLLIN else 0);
          events = (if length (send_queue c is_a) < MAX_BUFFERED_MESSAGES then events OR POLLOUT else events);
          events = (if peer_counter c is_a = 0 then events OR POLLHUP OR POLLIN else events)
      in (events, c))"

section \<open>Services\<close>

text \<open>The connector queues the server end of a new channel; channels are of an arbitrary type \<open>'c\<close> of ends.\<close>

definition MAX_PENDING :: usize where "MAX_PENDING = 16"

record 'c service_inner =
  pending :: "'c list"
  accept_wq :: "nat wait_queue"

definition create_service :: "'c service_inner" where
  "create_service = \<lparr>pending = [], accept_wq = []\<rparr>"

definition try_accept :: "'c service_inner \<Rightarrow> 'c option \<times> 'c service_inner" where
  "try_accept s = (case pending s of [] \<Rightarrow> (None, s) | e # es \<Rightarrow> (Some e, s\<lparr>pending := es\<rparr>))"

definition listener_poll_readiness :: "nat option \<Rightarrow> 'c service_inner \<Rightarrow> u16 \<times> 'c service_inner" where
  "listener_poll_readiness waker s =
     (let s = (case waker of None \<Rightarrow> s | Some w \<Rightarrow> s\<lparr>accept_wq := register_waker (accept_wq s) w\<rparr>)
      in (if pending s = [] then 0 else POLLIN, s))"

text \<open>\<^verbatim>\<open>on_open\<close> with the pair of ends the new channel has: the server end is queued, the client end returned.\<close>

definition connector_on_open :: "'c \<times> 'c \<Rightarrow> 'c service_inner \<Rightarrow> (fs_error + 'c option) \<times> nat list \<times> 'c service_inner" where
  "connector_on_open ends s =
     (if MAX_PENDING \<le> length (pending s) then (Inl NotSupported, [], s)
      else let (server_end, client_end) = ends;
               s = s\<lparr>pending := pending s @ [server_end]\<rparr>;
               (ws, q) = wake_one (accept_wq s)
           in (Inr (Some client_end), ws, s\<lparr>accept_wq := q\<rparr>))"

section \<open>Sequences of operations on a channel\<close>

datatype 'i chan_op = ChSend bool "u8 list" "'i option" | ChRecv bool "u8 list" | ChDrop bool

datatype 'i chan_event =
    Sent bool "'i channel_message" | Received bool usize "u8 list" "'i option" | Eof bool
  | Blocked bool | Failed bool fs_error | DroppedEnd bool

fun chan_run :: "'i chan_op list \<Rightarrow> 'i channel_inner \<Rightarrow> ('i chan_event list \<times> 'i channel_inner) option" where
  "chan_run [] c = Some ([], c)"
| "chan_run (ChSend side data att # ops) c =
     (let (r, ws, c) = send_with_attachment side data att c;
          ev = (case r of None \<Rightarrow> Blocked side | Some (Inl e) \<Rightarrow> Failed side e
                | Some (Inr n) \<Rightarrow> Sent side \<lparr>msg_data = data, msg_attached = att\<rparr>)
      in do { (evs, c) \<leftarrow> chan_run ops c; Some (ev # evs, c) })"
| "chan_run (ChRecv side buf # ops) c =
     do { (r, buf, ws, c') \<leftarrow> recv_with_attachment side buf c;
          let ev = (case r of None \<Rightarrow> Blocked side | Some (Inl e) \<Rightarrow> Failed side e
                    | Some (Inr (n, att)) \<Rightarrow>
                        (if recv_queue c side = [] then Eof side else Received side n buf att));
          (evs, c) \<leftarrow> chan_run ops c'; Some (ev # evs, c) }"
| "chan_run (ChDrop side # ops) c =
     (let (ws, c) = endpoint_drop side c in do { (evs, c) \<leftarrow> chan_run ops c; Some (DroppedEnd side # evs, c) })"

fun sent_msgs :: "bool \<Rightarrow> 'i chan_event list \<Rightarrow> 'i channel_message list" where
  "sent_msgs side [] = []"
| "sent_msgs side (Sent s m # evs) = (if s = side then m # sent_msgs side evs else sent_msgs side evs)"
| "sent_msgs side (_ # evs) = sent_msgs side evs"

text \<open>What a side received: the reported length, the bytes it got and the attachment.\<close>

fun received_msgs :: "bool \<Rightarrow> 'i chan_event list \<Rightarrow> (usize \<times> u8 list \<times> 'i option) list" where
  "received_msgs side [] = []"
| "received_msgs side (Received s n buf att # evs) =
     (if s = side then (n, buf, att) # received_msgs side evs else received_msgs side evs)"
| "received_msgs side (_ # evs) = received_msgs side evs"

text \<open>A received item carries message \<open>m\<close>: its length, as much of it as the buffer holds, its attachment.\<close>

definition carries :: "usize \<times> u8 list \<times> 'i option \<Rightarrow> 'i channel_message \<Rightarrow> bool" where
  "carries r m = (case r of (n, buf, att) \<Rightarrow> n = length (msg_data m) \<and> att = msg_attached m \<and>
     take (length (msg_data m)) buf = take (length buf) (msg_data m))"

definition chan_inv :: "'i channel_inner \<Rightarrow> bool" where
  "chan_inv c = (\<forall>side. length (send_queue c side) \<le> MAX_BUFFERED_MESSAGES \<and>
     (\<forall>m \<in> set (send_queue c side). length (msg_data m) \<le> MAX_MESSAGE_SIZE))"

lemma queue_simps [simp]:
  "send_queue (set_send_queue x q c) y = (if x = y then q else send_queue c y)"
  "recv_queue c y = send_queue c (\<not> y)"
  "set_recv_queue x q c = set_send_queue (\<not> x) q c"
  by (auto simp: send_queue_def set_send_queue_def recv_queue_def set_recv_queue_def)

lemma wake_queues [simp]:
  "send_queue (snd (wake_peer_recv x c)) y = send_queue c y" "send_queue (snd (wake_peer_send x c)) y = send_queue c y"
  "send_queue (snd (endpoint_drop x c)) y = send_queue c y"
  by (auto simp: wake_peer_recv_def wake_peer_send_def endpoint_drop_def send_queue_def wake_all_def Let_def
      split: prod.split)

lemma send_spec:
  assumes inv: "chan_inv c" and eq: "send_with_attachment side data att c = (r, ws, c')"
  shows "chan_inv c' \<and>
    (case r of Some (Inr n) \<Rightarrow> (\<forall>y. send_queue c' y = (if y = side
         then send_queue c side @ [\<lparr>msg_data = data, msg_attached = att\<rparr>] else send_queue c y))
     | _ \<Rightarrow> c' = c)"
proof (cases "MAX_MESSAGE_SIZE < length data \<or> peer_counter c side = 0 \<or> \<not> length (send_queue c side) < MAX_BUFFERED_MESSAGES")
  case True
  then show ?thesis using inv eq by (auto simp: send_with_attachment_def Let_def split: if_splits)
next
  case False
  define c1 where "c1 = set_send_queue side (send_queue c side @ [\<lparr>msg_data = data, msg_attached = att\<rparr>]) c"
  have r: "r = Some (Inr (length data))" "c' = snd (wake_peer_recv side c1)"
    using False eq by (auto simp: send_with_attachment_def Let_def c1_def split: prod.splits)
  have q: "send_queue c' y = (if y = side then send_queue c side @ [\<lparr>msg_data = data, msg_attached = att\<rparr>]
      else send_queue c y)" for y by (auto simp: r(2) c1_def)
  then have "chan_inv c'" using inv False by (auto simp: chan_inv_def)
  then show ?thesis using q r(1) by simp
qed

lemma recv_spec:
  assumes inv: "chan_inv c"
  shows "case send_queue c (\<not> side) of
      [] \<Rightarrow> recv_with_attachment side buf c =
        Some (if peer_counter c side = 0 then Some (Inr (0, None)) else None, buf, [], c)
    | m # rest \<Rightarrow> \<exists>buf' ws c'. recv_with_attachment side buf c =
          Some (Some (Inr (length (msg_data m), msg_attached m)), buf', ws, c') \<and> chan_inv c' \<and>
        carries (length (msg_data m), buf', msg_attached m) m \<and> length buf' = length buf \<and>
        (\<forall>y. send_queue c' y = (if y = side then send_queue c y else rest))"
proof (cases "send_queue c (\<not> side)")
  case Nil
  then show ?thesis by (simp add: recv_with_attachment_def)
next
  case (Cons m rest)
  define n where "n = min (length (msg_data m)) (length buf)"
  define c' where "c' = snd (wake_peer_send side (set_send_queue (\<not> side) rest c))"
  have q: "send_queue c' y = (if y = side then send_queue c y else rest)" for y by (auto simp: c'_def)
  have "length rest \<le> MAX_BUFFERED_MESSAGES \<and> (\<forall>m \<in> set rest. length (msg_data m) \<le> MAX_MESSAGE_SIZE)"
    using inv [unfolded chan_inv_def, rule_format, of "\<not> side"] by (simp add: Cons)
  then have "chan_inv c'" using inv by (simp add: chan_inv_def q)
  moreover have "recv_with_attachment side buf c =
      Some (Some (Inr (length (msg_data m), msg_attached m)), take n (msg_data m) @ drop n buf,
        fst (wake_peer_send side (set_send_queue (\<not> side) rest c)), c')"
    by (simp add: recv_with_attachment_def Cons n_def c'_def Let_def split: prod.split)
  moreover have "carries (length (msg_data m), take n (msg_data m) @ drop n buf, msg_attached m) m"
    by (auto simp: carries_def n_def min_def)
  ultimately show ?thesis using Cons q by (auto simp: n_def)
qed

lemma drop_spec: "chan_inv c \<Longrightarrow> chan_inv (snd (endpoint_drop side c))"
  by (simp add: chan_inv_def)

definition delivers :: "bool \<Rightarrow> 'i chan_event list \<Rightarrow> 'i channel_message list \<Rightarrow> 'i channel_message list \<Rightarrow> bool" where
  "delivers side evs before after =
     (\<exists>k. list_all2 carries (received_msgs (\<not> side) evs) (take k (before @ sent_msgs side evs)) \<and>
          after = drop k (before @ sent_msgs side evs))"

lemma delivers_skip [simp]:
  "delivers y (Sent x m # evs) b a = delivers y evs (if x = y then b @ [m] else b) a"
  "delivers y (Blocked x # evs) b a = delivers y evs b a" "delivers y (Failed x e # evs) b a = delivers y evs b a"
  "delivers y (Eof x # evs) b a = delivers y evs b a" "delivers y (DroppedEnd x # evs) b a = delivers y evs b a"
  "delivers x (Received x n buf att # evs) b a = delivers x evs b a"
  by (simp_all add: delivers_def del: take_append drop_append)

lemma delivers_received:
  assumes "delivers y evs b a" "carries (n, buf, att) m" "y \<noteq> x"
  shows "delivers y (Received x n buf att # evs) (m # b) a"
proof -
  from assms(1) obtain k where "list_all2 carries (received_msgs (\<not> y) evs) (take k (b @ sent_msgs y evs))"
    "a = drop k (b @ sent_msgs y evs)" by (auto simp: delivers_def simp del: take_append drop_append)
  then show ?thesis using assms(2,3)
    by (auto simp: delivers_def simp del: take_append drop_append intro!: exI [of _ "Suc k"])
qed

lemma chan_run_spec:
  assumes "chan_inv c"
  shows "\<exists>evs c'. chan_run ops c = Some (evs, c') \<and> chan_inv c' \<and>
    (\<forall>side. delivers side evs (send_queue c side) (send_queue c' side))"
  using assms
proof (induction ops arbitrary: c)
  case Nil
  then show ?case by (force simp: delivers_def)
next
  case (Cons op ops)
  show ?case
  proof (cases op)
    case (ChSend side data att)
    obtain r ws c1 where s: "send_with_attachment side data att c = (r, ws, c1)" by (metis prod_cases3)
    note sp = send_spec [OF Cons.prems s]
    then obtain evs c' where 1: "chan_run ops c1 = Some (evs, c')" "chan_inv c'"
      "\<forall>side. delivers side evs (send_queue c1 side) (send_queue c' side)" using Cons.IH by blast
    define ev where "ev = (case r of None \<Rightarrow> Blocked side | Some (Inl e) \<Rightarrow> Failed side e
        | Some (Inr n) \<Rightarrow> Sent side \<lparr>msg_data = data, msg_attached = att\<rparr>)"
    have "chan_run (op # ops) c = Some (ev # evs, c')" by (simp add: ChSend s 1(1) ev_def)
    moreover have "delivers y (ev # evs) (send_queue c y) (send_queue c' y)" for y
      using sp 1(3) [rule_format, of y] by (cases "y = side") (auto simp: ev_def split: option.splits sum.splits)
    ultimately show ?thesis using 1(2) by blast
  next
    case (ChRecv side buf)
    note sp = recv_spec [OF Cons.prems, of side buf]
    show ?thesis
    proof (cases "send_queue c (\<not> side)")
      case Nil
      then have "recv_with_attachment side buf c =
          Some (if peer_counter c side = 0 then Some (Inr (0, None)) else None, buf, [], c)" using sp by simp
      then show ?thesis using Cons.IH [OF Cons.prems] Nil by (auto simp: ChRecv)
    next
      case q: (Cons m rest)
      then obtain buf' ws c1 where r: "recv_with_attachment side buf c =
          Some (Some (Inr (length (msg_data m), msg_attached m)), buf', ws, c1)" "chan_inv c1"
        "carries (length (msg_data m), buf', msg_attached m) m"
        "\<forall>y. send_queue c1 y = (if y = side then send_queue c y else rest)" using sp by auto
      from Cons.IH [OF r(2)] obtain evs c' where 1: "chan_run ops c1 = Some (evs, c')" "chan_inv c'"
        "\<forall>side. delivers side evs (send_queue c1 side) (send_queue c' side)" by blast
      have "delivers y (Received side (length (msg_data m)) buf' (msg_attached m) # evs) (send_queue c y) (send_queue c' y)" for y
        using 1(3) [rule_format, of y] r(4) delivers_received [OF _ r(3), of y evs rest _ side] q
        by (cases "y = side") auto
      then show ?thesis using 1 r(1) q by (auto simp: ChRecv)
    qed
  next
    case (ChDrop side)
    obtain ws c1 where d: "endpoint_drop side c = (ws, c1)" by fastforce
    then have c1: "chan_inv c1" "\<forall>y. send_queue c1 y = send_queue c y"
      using drop_spec [OF Cons.prems, of side] wake_queues(3) [of side c] by auto
    then show ?thesis using Cons.IH [OF c1(1)] by (auto simp: ChDrop d)
  qed
qed

text \<open>
  C29: Whatever the sequence of sends, receives and endpoint drops on a new channel, no call panics and
  each direction delivers the accepted messages in order: the messages the other side received, each
  with its length, attachment and as many bytes as its buffer holds, followed by the queued ones are
  the messages that were sent. A queue never holds more than 16 messages, each of at most 4096 bytes.
\<close>

theorem channel_delivers_in_order:
  "\<exists>evs c. chan_run ops channel = Some (evs, c) \<and> chan_inv c \<and>
     (\<exists>k. list_all2 carries (received_msgs (\<not> side) evs) (take k (sent_msgs side evs)) \<and>
          send_queue c side = drop k (sent_msgs side evs))"
proof -
  have c: "chan_inv channel" "send_queue channel side = []" by (simp_all add: chan_inv_def channel_def send_queue_def)
  from chan_run_spec [OF c(1), of ops] obtain evs c' where "chan_run ops channel = Some (evs, c')" "chan_inv c'"
    "delivers side evs [] (send_queue c' side)" using c(2) by metis
  then show ?thesis unfolding delivers_def append_Nil by blast
qed

end
