(* ===== verification/Checksum.thy ===== *)
theory Checksum
  imports Hadron_Prelude
begin

text \<open>
  The Internet checksum of \<^verbatim>\<open>kernel/net/src/checksum.rs\<close>. The code sums the 16-bit words in a 32-bit
  accumulator and folds the carries at the end; RFC 1071 defines the checksum with an addition that
  carries around after every word. The lemmas show that the two agree and that a message carrying
  its own checksum sums to zero.
\<close>

section \<open>The code\<close>

definition from_be_bytes :: "u8 \<Rightarrow> u8 \<Rightarrow> u16" where
  "from_be_bytes hi lo = push_bit 8 (ucast hi) OR ucast lo"

definition to_be_bytes :: "u16 \<Rightarrow> u8 list" where
  "to_be_bytes w = [ucast (drop_bit 8 w), ucast w]"

text \<open>\<^verbatim>\<open>while i + 1 < data.len()\<close>: the index and the accumulator when the loop ends.\<close>

function checksum_words :: "u8 list \<Rightarrow> usize \<Rightarrow> u32 \<Rightarrow> (usize \<times> u32) option" where
  "checksum_words data i acc =
     do { j \<leftarrow> us_add i 1;
          if j < length data
          then do { a \<leftarrow> idx data i;
                    b \<leftarrow> idx data j;
                    acc \<leftarrow> chk_add acc (ucast (from_be_bytes a b));
                    i \<leftarrow> us_add i 2;
                    checksum_words data i acc }
          else Some (i, acc) }"
  by pat_completeness auto
termination by (relation "measure (\<lambda>(data, i, _). length data - i)") auto

text \<open>\<^verbatim>\<open>while sum >> 16 != 0\<close>.\<close>

lemma fold_decreases:
  assumes "drop_bit 16 s \<noteq> (0 :: u32)"
  shows "unat (s AND 0xFFFF) + unat (drop_bit 16 s) < unat s"
proof -
  have m: "unat (s AND 0xFFFF) = unat s mod 65536"
    using unat_and_mask [of s 16] by (simp add: mask_eq_exp_minus_1)
  have d: "unat (drop_bit 16 s) = unat s div 65536" by (simp add: unat_drop_bit)
  have "0 < unat s div 65536" using assms unfolding d [symmetric] by (simp add: unat_gt_0)
  moreover have "unat s div 65536 * 65536 + unat s mod 65536 = unat s" by (rule div_mult_mod_eq)
  ultimately show ?thesis unfolding m d by linarith
qed

function checksum_fold :: "u32 \<Rightarrow> u32 option" where
  "checksum_fold acc =
     (if drop_bit 16 acc \<noteq> 0
      then do { acc \<leftarrow> chk_add (acc AND 0xFFFF) (drop_bit 16 acc); checksum_fold acc }
      else Some acc)"
  by pat_completeness auto
termination by (relation "measure unat") (auto simp: chk_add_Some_iff fold_decreases)

declare checksum_words.simps [simp del] checksum_fold.simps [simp del]

definition internet_checksum :: "u8 list \<Rightarrow> u16 option" where
  "internet_checksum data =
     do { (i, acc) \<leftarrow> checksum_words data 0 0;
          acc \<leftarrow> (if i < length data
                  then do { a \<leftarrow> idx data i; chk_add acc (push_bit 8 (ucast a)) }
                  else Some acc);
          acc \<leftarrow> checksum_fold acc;
          Some (NOT (ucast acc)) }"

section \<open>The definition of RFC 1071\<close>

fun be_words :: "u8 list \<Rightarrow> u16 list" where
  "be_words (a # b # data) = from_be_bytes a b # be_words data"
| "be_words [a] = [from_be_bytes a 0]"
| "be_words [] = []"

text \<open>Addition with end-around carry.\<close>

definition oc_add :: "u16 \<Rightarrow> u16 \<Rightarrow> u16" where
  "oc_add x y = (if unat x + unat y < 2 ^ 16 then x + y else x + y + 1)"

definition oc_sum :: "u8 list \<Rightarrow> u16" where
  "oc_sum data = foldl oc_add 0 (be_words data)"

section \<open>Values modulo 65535\<close>

text \<open>The representative of a sum in \<open>1..m\<close>, and 0 for 0: what repeated carrying leaves.\<close>

definition carried :: "nat \<Rightarrow> nat \<Rightarrow> nat" where
  "carried m n = (if n = 0 then 0 else (n - 1) mod m + 1)"

abbreviation norm :: "nat \<Rightarrow> nat" where
  "norm \<equiv> carried 65535"

lemma carried_small: "n \<le> m \<Longrightarrow> carried m n = n"
  by (simp add: carried_def)

lemma carried_le: "0 < m \<Longrightarrow> carried m n \<le> m"
  by (simp add: carried_def Suc_le_eq)

lemma carried_0_iff [simp]: "carried m n = 0 \<longleftrightarrow> n = 0"
  by (simp add: carried_def)

lemma carried_mod: "carried m n mod m = n mod m"
proof (cases n)
  case (Suc k)
  then show ?thesis by (simp add: carried_def mod_Suc_eq)
qed (simp add: carried_def)

lemma carried_add_multiple: "0 < n \<Longrightarrow> carried m (n + m * k) = carried m n"
  by (cases n) (simp_all add: carried_def)

lemma carried_cong:
  assumes "a mod m = b mod m" "a = 0 \<longleftrightarrow> b = 0"
  shows "carried m a = carried m b"
proof (cases "a = 0")
  case False
  then have pos: "0 < a" "0 < b" using assms(2) by auto
  have "carried m x = carried m y" if eq: "y mod m = x mod m" and "0 < x" "x \<le> y" for x y
  proof -
    from eq obtain k where "y = x + m * k" using mod_eq_nat1E [OF eq \<open>x \<le> y\<close>] by blast
    then show ?thesis using carried_add_multiple [of x m k] \<open>0 < x\<close> by simp
  qed
  then show ?thesis using assms(1) pos by (metis nat_le_linear)
qed (use assms in simp)

lemma carried_add: "carried m (carried m a + b) = carried m (a + b)"
proof (rule carried_cong)
  show "(carried m a + b) mod m = (a + b) mod m"
    by (rule mod_add_cong [OF carried_mod refl])
qed simp

lemma carried_multiple: "0 < k \<Longrightarrow> 0 < m \<Longrightarrow> carried m (m * k) = m"
  using carried_cong [of "m * k" m m] carried_small [of m m] by simp

section \<open>The code computes the one's-complement sum\<close>

lemma unat_u8_lt: "unat (b :: u8) < 256"
  using unsigned_less [of b] by simp

lemma unat_u16_lt: "unat (w :: u16) < 65536"
  using unsigned_less [of w] by simp

lemma unat_ucast_u32: "unat (ucast (w :: u16) :: u32) = unat w"
  using unat_u16_lt [of w] by (simp add: unsigned_ucast_eq take_bit_eq_mod)

lemma unat_from_be_bytes: "unat (from_be_bytes a b) = 256 * unat a + unat b"
proof -
  have "push_bit 8 (ucast a :: u16) AND ucast b = 0"
    by (auto simp: bit_eq_iff bit_simps dest: bit_imp_le_length)
  then have "from_be_bytes a b = push_bit 8 (ucast a) + ucast b"
    by (simp add: from_be_bytes_def disjunctive_add_eq_or)
  also have "push_bit 8 (ucast a :: u16) = of_nat (256 * unat a)"
    by (simp add: push_bit_eq_mult)
  also have "\<dots> + ucast b = of_nat (256 * unat a + unat b)" by simp
  finally have eq: "from_be_bytes a b = of_nat (256 * unat a + unat b)" .
  have "unat a < 256" "unat b < 256" using unsigned_less [of a] unsigned_less [of b] by simp_all
  then show ?thesis unfolding eq by (intro unat_of_nat_lt) simp
qed

lemma be_bytes_inverse: "from_be_bytes (ucast (drop_bit 8 w)) (ucast w) = w"
proof -
  have "unat w < 65536" by (rule unat_u16_lt)
  then have "unat w div 256 < 256" by (simp add: less_mult_imp_div_less)
  then have "unat (from_be_bytes (ucast (drop_bit 8 w)) (ucast w)) = unat w"
    by (simp add: unat_from_be_bytes unsigned_ucast_eq take_bit_eq_mod unat_drop_bit)
  then show ?thesis by (simp only: word_unat_eq_iff)
qed

lemma unat_oc_add: "unat (oc_add x y) = norm (unat x + unat y)"
proof -
  have b: "unat x < 65536" "unat y < 65536" using unsigned_less [of x] unsigned_less [of y] by simp_all
  show ?thesis
  proof (cases "unat x + unat y < 65536")
    case True
    then show ?thesis by (simp add: oc_add_def carried_small unat_word_ariths)
  next
    case False
    have "x + y + 1 = of_nat (unat x + unat y + 1)" by simp
    also have "\<dots> = of_nat (unat x + unat y + 1 - 65536)"
      using False by (simp add: of_nat_diff)
    finally have "unat (x + y + 1) = unat x + unat y + 1 - 65536"
      using b by (simp only:) (intro unat_of_nat_lt, simp)
    moreover have "norm (unat x + unat y) = unat x + unat y + 1 - 65536"
      using carried_add_multiple [of "unat x + unat y - 65535" 65535 1] False b
      by (simp add: carried_small)
    ultimately show ?thesis using False by (simp add: oc_add_def)
  qed
qed

lemma unat_foldl_oc_add:
  "unat (foldl oc_add w ws) = norm (unat w + sum_list (map unat ws))"
proof (induction ws arbitrary: w)
  case Nil
  then show ?case using unat_u16_lt [of w] by (simp add: carried_small)
next
  case (Cons v ws)
  then show ?case by (simp add: unat_oc_add carried_add add.assoc)
qed

abbreviation word_sum :: "u8 list \<Rightarrow> nat" where
  "word_sum data \<equiv> sum_list (map unat (be_words data))"

lemma unat_oc_sum: "unat (oc_sum data) = norm (word_sum data)"
  by (simp add: oc_sum_def unat_foldl_oc_add)

lemma checksum_fold_correct: "\<exists>r. checksum_fold s = Some r \<and> unat r = norm (unat s)"
proof (induction s rule: checksum_fold.induct)
  case (1 s)
  let ?q = "drop_bit 16 s" and ?r = "s AND 0xFFFF"
  have m: "unat ?r = unat s mod 65536"
    using unat_and_mask [of s 16] by (simp add: mask_eq_exp_minus_1)
  have d: "unat ?q = unat s div 65536" by (simp add: unat_drop_bit)
  show ?case
  proof (cases "?q = 0")
    case True
    then have "unat s < 65536" using d by (simp add: div_eq_0_iff)
    then show ?thesis using True by (subst checksum_fold.simps) (simp add: carried_small)
  next
    case False
    have "unat ?r + unat ?q < unat s" using False by (rule fold_decreases)
    then have add: "chk_add ?r ?q = Some (?r + ?q)" and u: "unat (?r + ?q) = unat ?r + unat ?q"
      using unat_add_below [of ?r ?q s] by (simp_all add: chk_add_Some_iff)
    have pos: "0 < unat ?q" using False by (simp add: unat_gt_0)
    have "unat s = unat ?r + unat ?q + 65535 * unat ?q"
      unfolding m d using div_mult_mod_eq [of "unat s" 65536] by linarith
    then have "norm (unat s) = norm (unat (?r + ?q))"
      using carried_add_multiple [of "unat ?r + unat ?q" 65535 "unat ?q"] pos u by simp
    then show ?thesis using 1 [OF False add] False by (subst checksum_fold.simps) (simp add: add)
  qed
qed

lemma checksum_words_correct:
  assumes "i \<le> length data" "length data < 2 ^ 63"
    and "unat acc + word_sum (drop i data) < 2 ^ 32"
  shows "\<exists>j acc'. checksum_words data i acc = Some (j, acc') \<and>
    (j = length data \<and> unat acc' = unat acc + word_sum (drop i data) \<or>
     j + 1 = length data \<and> unat acc' + 256 * unat (data ! j) = unat acc + word_sum (drop i data))"
  using assms
proof (induction data i acc rule: checksum_words.induct)
  case (1 data i acc)
  show ?case
  proof (cases "i + 1 < length data")
    case True
    let ?w = "from_be_bytes (data ! i) (data ! (i + 1))"
    have dr: "drop i data = data ! i # data ! (i + 1) # drop (i + 2) data"
      using True by (simp add: Cons_nth_drop_Suc [symmetric])
    have fits: "unat acc + unat ?w + word_sum (drop (i + 2) data) < 2 ^ 32"
      using 1(4) unfolding dr by simp
    define acc' where "acc' = acc + ucast ?w"
    have w: "unat (ucast ?w :: u32) = unat ?w" by (rule unat_ucast_u32)
    have u: "unat acc' = unat acc + unat ?w"
      unfolding acc'_def using fits w by (simp add: unat_word_ariths)
    have add: "chk_add acc (ucast ?w) = Some acc'"
      unfolding chk_add_Some_iff using u w by simp
    have step: "checksum_words data i acc = checksum_words data (i + 2) acc'"
      using True 1(3) by (subst checksum_words.simps) (simp add: add [simplified])
    have "unat acc' + word_sum (drop (i + 2) data) < 2 ^ 32" using fits u by simp
    then show ?thesis
      using 1(1) [of "i + 1" "data ! i" "data ! (i + 1)" acc' "i + 2"] True 1(3) add u
      unfolding step dr by (simp add: add.assoc)
  next
    case False
    then show ?thesis
    proof (cases "i = length data")
      case True
      then show ?thesis using 1(3) by (subst checksum_words.simps) simp
    next
      case i: False
      then have last: "i + 1 = length data" using False 1(2) by simp
      then have "drop i data = [data ! i]" by (simp add: Cons_nth_drop_Suc [symmetric])
      then show ?thesis using last 1(3)
        by (subst checksum_words.simps) (simp add: unat_from_be_bytes)
    qed
  qed
qed

lemma word_sum_bound: "word_sum data \<le> 65535 * ((length data + 1) div 2)"
proof (induction data rule: be_words.induct)
  case (1 a b data)
  have "unat (from_be_bytes a b) \<le> 65535"
    using unat_u16_lt [of "from_be_bytes a b"] by simp
  moreover have "(length (a # b # data) + 1) div 2 = (length data + 1) div 2 + 1" by simp
  ultimately show ?case using 1 by simp
next
  case (2 a)
  show ?case using unat_u16_lt [of "from_be_bytes a 0"] by simp
qed simp

lemma checksum_sum_correct:
  assumes "length data \<le> 131072"
  shows "internet_checksum data = Some (NOT (oc_sum data))"
proof -
  have "(length data + 1) div 2 \<le> 65536" using assms by simp
  then have "65535 * ((length data + 1) div 2) \<le> 65535 * 65536" by (rule mult_le_mono2)
  with word_sum_bound [of data] have total: "word_sum data < 2 ^ 32" by simp
  have len: "length data < 2 ^ 63" using assms by simp
  obtain j acc where run: "checksum_words data 0 0 = Some (j, acc)"
    and j: "j = length data \<and> unat acc = word_sum data \<or>
      j + 1 = length data \<and> unat acc + 256 * unat (data ! j) = word_sum data"
    using checksum_words_correct [of 0 data 0] len total by auto
  obtain acc' where odd: "(if j < length data
       then do { a \<leftarrow> idx data j; chk_add acc (push_bit 8 (ucast a)) } else Some acc) = Some acc'"
    and acc': "unat acc' = word_sum data"
  proof (cases "j < length data")
    case True
    let ?b = "push_bit 8 (ucast (data ! j)) :: u32"
    have "?b = of_nat (256 * unat (data ! j))" by (simp add: push_bit_eq_mult)
    moreover have "256 * unat (data ! j) < 2 ^ 32"
      using unat_u8_lt [of "data ! j"] by simp
    ultimately have b: "unat ?b = 256 * unat (data ! j)"
      by (simp only:) (rule unat_of_nat_lt, simp)
    have "unat (acc + ?b) = word_sum data" using True j b total by (simp add: unat_word_ariths)
    then show ?thesis using that [of "acc + ?b"] True j b by (simp add: chk_add_Some_iff)
  next
    case False
    then show ?thesis using that [of acc] j by simp
  qed
  obtain r where r: "checksum_fold acc' = Some r" "unat r = norm (word_sum data)"
    using checksum_fold_correct [of acc'] acc' by auto
  have "norm (word_sum data) \<le> 65535" by (rule carried_le) simp
  then have "unat (ucast r :: u16) = unat (oc_sum data)"
    using r(2) by (simp add: unsigned_ucast_eq take_bit_eq_mod unat_oc_sum)
  then have "ucast r = oc_sum data" by (simp only: word_unat_eq_iff)
  then show ?thesis unfolding internet_checksum_def using run odd r(1) by simp
qed

section \<open>Messages that carry their checksum\<close>

lemma word_sum_append: "even (length p) \<Longrightarrow> word_sum (p @ q) = word_sum p + word_sum q"
  by (induction p rule: be_words.induct) auto

lemma oc_sum_self:
  assumes "even (length p)" "c = NOT (oc_sum (p @ [0, 0] @ q))"
  shows "oc_sum (p @ to_be_bytes c @ q) = - 1"
proof -
  let ?S = "word_sum p + word_sum q"
  have s0: "word_sum (p @ [0, 0] @ q) = ?S"
    using assms(1) by (simp add: word_sum_append unat_from_be_bytes)
  have c: "unat c = 65535 - norm ?S"
    using assms(2) by (simp add: unat_NOT unat_oc_sum s0 [simplified])
  have le: "norm ?S \<le> 65535" by (rule carried_le) simp
  have "word_sum (p @ to_be_bytes c @ q) = ?S + unat c"
    using assms(1) by (simp add: word_sum_append to_be_bytes_def be_bytes_inverse)
  then have "unat (oc_sum (p @ to_be_bytes c @ q)) = norm (norm ?S + unat c)"
    by (simp only: unat_oc_sum carried_add)
  also have "\<dots> = norm 65535" using c le by simp
  finally have "unat (oc_sum (p @ to_be_bytes c @ q)) = unat (- 1 :: u16)"
    by (simp add: carried_small unsigned_minus_1_eq_mask mask_eq_exp_minus_1)
  then show ?thesis by (simp only: word_unat_eq_iff)
qed

lemma checksum_self:
  assumes "even (length p)" "length p + 2 + length q \<le> 131072"
    and "internet_checksum (p @ [0, 0] @ q) = Some c"
  shows "internet_checksum (p @ to_be_bytes c @ q) = Some 0"
proof -
  have "c = NOT (oc_sum (p @ [0, 0] @ q))" using assms by (simp add: checksum_sum_correct)
  then have "oc_sum (p @ to_be_bytes c @ q) = - 1" by (rule oc_sum_self [OF assms(1)])
  moreover have "length (p @ to_be_bytes c @ q) \<le> 131072"
    using assms(2) by (simp add: to_be_bytes_def)
  ultimately show ?thesis by (simp only: checksum_sum_correct) simp
qed

section \<open>Properties\<close>

text \<open>
  C31: \<^verbatim>\<open>internet_checksum\<close>, which sums into 32 bits and folds the carries at the end, returns the
  complement of the one's-complement sum that RFC 1071 defines word by word with end-around carry,
  a trailing odd byte padded with zero, for every message of up to 128 KiB; on such messages it does
  not overflow.
\<close>

theorem internet_checksum_rfc1071:
  assumes "length data \<le> 131072"
  shows "internet_checksum data = Some (NOT (foldl oc_add 0 (be_words data)))"
  using checksum_sum_correct [OF assms] by (simp only: oc_sum_def)

text \<open>The example of RFC 1071.\<close>

theorem internet_checksum_rfc1071_witness:
  "length [0x00, 0x01, 0xF2, 0x03, 0xF4, 0xF5, 0xF6, 0xF7 :: u8] \<le> 131072 \<and>
   internet_checksum [0x00, 0x01, 0xF2, 0x03, 0xF4, 0xF5, 0xF6, 0xF7] = Some 0x220D"
    (is "?L \<and> ?C")
proof
  show len: ?L by simp
  have "NOT (foldl oc_add 0 (be_words [0x00, 0x01, 0xF2, 0x03, 0xF4, 0xF5, 0xF6, 0xF7])) = 0x220D"
    by (simp add: oc_add_def from_be_bytes_def)
  then show ?C using internet_checksum_rfc1071 [OF len] by (simp only:)
qed

end
