(* ===== verification/Net.thy ===== *)
theory Net
  imports Checksum
begin

text \<open>
  The network stack of \<^verbatim>\<open>kernel/net\<close>: Ethernet framing, IPv4 headers, the ARP table and its replies,
  ICMP echo, and the receive loop. A function that fills a caller's buffer returns the buffer next
  to its result; the result \<open>None\<close> of the source is the inner \<^const>\<open>None\<close>, a panic the outer one. The
  lemmas show that the two builders are inverted by the two parsers, that no frame makes the stack
  panic, that the ARP table keeps one entry per address, and that an echo request is answered by a
  frame that carries its data back with valid checksums.
\<close>

type_synonym mac = "u8 list"
type_synonym ipv4 = "u8 list"

text \<open>\<^verbatim>\<open><[u8; N]>::try_from(slice).ok()\<close>.\<close>

definition try_array :: "nat \<Rightarrow> u8 list \<Rightarrow> u8 list option" where
  "try_array n xs = (if length xs = n then Some xs else None)"

section \<open>Ethernet\<close>

definition ETHERNET_HEADER_LEN :: usize where "ETHERNET_HEADER_LEN = 14"
definition ETHERTYPE_ARP :: "u8 list" where "ETHERTYPE_ARP = [0x08, 0x06]"
definition ETHERTYPE_IPV4 :: "u8 list" where "ETHERTYPE_IPV4 = [0x08, 0x00]"
definition BROADCAST_MAC :: mac where "BROADCAST_MAC = replicate 6 0xFF"

record ethernet_header =
  eth_dst :: mac
  eth_src :: mac
  ethertype :: "u8 list"

definition eth_parse :: "u8 list \<Rightarrow> (ethernet_header \<times> u8 list) option option" where
  "eth_parse buf =
     (if length buf < ETHERNET_HEADER_LEN then Some None
      else do {
        d \<leftarrow> slice buf 0 6;
        s \<leftarrow> slice buf 6 12;
        t \<leftarrow> slice buf 12 14;
        payload \<leftarrow> slice buf ETHERNET_HEADER_LEN (length buf);
        Some (do {
          dst \<leftarrow> try_array 6 d;
          src \<leftarrow> try_array 6 s;
          ty \<leftarrow> try_array 2 t;
          Some (\<lparr>eth_dst = dst, eth_src = src, ethertype = ty\<rparr>, payload) }) })"

definition eth_write :: "u8 list \<Rightarrow> mac \<Rightarrow> mac \<Rightarrow> u8 list \<Rightarrow> (usize option \<times> u8 list) option" where
  "eth_write buf dst src ty =
     (if length buf < ETHERNET_HEADER_LEN then Some (None, buf)
      else do {
        buf \<leftarrow> copy_slice buf 0 6 dst;
        buf \<leftarrow> copy_slice buf 6 12 src;
        buf \<leftarrow> copy_slice buf 12 14 ty;
        Some (Some ETHERNET_HEADER_LEN, buf) })"

section \<open>IPv4\<close>

definition IPV4_HEADER_LEN :: usize where "IPV4_HEADER_LEN = 20"
definition PROTO_ICMP :: u8 where "PROTO_ICMP = 1"

record ipv4_header =
  ip_src :: ipv4
  ip_dst :: ipv4
  protocol :: u8
  total_len :: u16

definition ipv4_parse :: "u8 list \<Rightarrow> (ipv4_header \<times> u8 list) option option" where
  "ipv4_parse buf =
     (if length buf < IPV4_HEADER_LEN then Some None
      else do {
        version_ihl \<leftarrow> idx buf 0;
        let version = drop_bit 4 version_ihl;
        let ihl = version_ihl AND 0x0F;
        if version \<noteq> 4 \<or> ihl \<noteq> 5 then Some None
        else do {
          l0 \<leftarrow> idx buf 2;
          l1 \<leftarrow> idx buf 3;
          let len = from_be_bytes l0 l1;
          proto \<leftarrow> idx buf 9;
          s \<leftarrow> slice buf 12 16;
          d \<leftarrow> slice buf 16 20;
          case (try_array 4 s, try_array 4 d) of
            (Some src, Some dst) \<Rightarrow>
              (let payload_end = min (unat len) (length buf)
               in if payload_end \<le> IPV4_HEADER_LEN then Some None
                  else do {
                    payload \<leftarrow> slice buf IPV4_HEADER_LEN payload_end;
                    Some (Some (\<lparr>ip_src = src, ip_dst = dst, protocol = proto, total_len = len\<rparr>,
                                payload)) })
          | _ \<Rightarrow> Some None } })"

text \<open>The stores into the header slice \<open>b\<close>, the checksum left zero.\<close>

definition ipv4_fill :: "u8 list \<Rightarrow> u16 \<Rightarrow> u8 \<Rightarrow> ipv4 \<Rightarrow> ipv4 \<Rightarrow> u8 list option" where
  "ipv4_fill b len proto src dst =
     do { b \<leftarrow> upd_idx b 0 0x45;
          b \<leftarrow> upd_idx b 1 0;
          b \<leftarrow> copy_slice b 2 4 (to_be_bytes len);
          b \<leftarrow> copy_slice b 4 6 [0, 0];
          b \<leftarrow> copy_slice b 6 8 [0x40, 0x00];
          b \<leftarrow> upd_idx b 8 64;
          b \<leftarrow> upd_idx b 9 proto;
          b \<leftarrow> copy_slice b 10 12 [0, 0];
          b \<leftarrow> copy_slice b 12 16 src;
          copy_slice b 16 20 dst }"

text \<open>The cast \<^verbatim>\<open>as u16\<close> of the total length wraps.\<close>

definition ipv4_write ::
  "u8 list \<Rightarrow> usize \<Rightarrow> ipv4 \<Rightarrow> ipv4 \<Rightarrow> u8 \<Rightarrow> usize \<Rightarrow> (usize option \<times> u8 list) option" where
  "ipv4_write buf offset src dst proto payload_len =
     do { e \<leftarrow> us_add offset IPV4_HEADER_LEN;
          if length buf < e then Some (None, buf)
          else do {
            n \<leftarrow> us_add IPV4_HEADER_LEN payload_len;
            let len = (of_nat n :: u16);
            b \<leftarrow> slice buf offset e;
            b \<leftarrow> ipv4_fill b len proto src dst;
            buf \<leftarrow> copy_slice buf offset e b;
            hdr \<leftarrow> slice buf offset e;
            cksum \<leftarrow> internet_checksum hdr;
            c0 \<leftarrow> us_add offset 10;
            c1 \<leftarrow> us_add offset 12;
            buf \<leftarrow> copy_slice buf c0 c1 (to_be_bytes cksum);
            Some (Some e, buf) } }"

section \<open>ARP\<close>

definition ARP_PACKET_LEN :: usize where "ARP_PACKET_LEN = 28"
definition ARP_OP_REQUEST :: u16 where "ARP_OP_REQUEST = 1"
definition ARP_OP_REPLY :: u16 where "ARP_OP_REPLY = 2"
definition ARP_TABLE_SIZE :: usize where "ARP_TABLE_SIZE = 16"

record arp_packet =
  htype :: u16
  ptype :: u16
  hlen :: u8
  plen :: u8
  oper :: u16
  sha :: mac
  spa :: ipv4
  tha :: mac
  tpa :: ipv4

definition be_at :: "u8 list \<Rightarrow> usize \<Rightarrow> u16 option" where
  "be_at data i = do { a \<leftarrow> idx data i; b \<leftarrow> idx data (i + 1); Some (from_be_bytes a b) }"

definition arp_parse :: "u8 list \<Rightarrow> arp_packet option option" where
  "arp_parse data =
     (if length data < ARP_PACKET_LEN then Some None
      else do {
        ht \<leftarrow> be_at data 0;
        pt \<leftarrow> be_at data 2;
        hl \<leftarrow> idx data 4;
        pl \<leftarrow> idx data 5;
        op \<leftarrow> be_at data 6;
        if ht \<noteq> 1 \<or> pt \<noteq> 0x0800 \<or> hl \<noteq> 6 \<or> pl \<noteq> 4 then Some None
        else do {
          sh \<leftarrow> slice data 8 14;
          sp \<leftarrow> slice data 14 18;
          th \<leftarrow> slice data 18 24;
          tp \<leftarrow> slice data 24 28;
          Some (do {
            sh \<leftarrow> try_array 6 sh;
            sp \<leftarrow> try_array 4 sp;
            th \<leftarrow> try_array 6 th;
            tp \<leftarrow> try_array 4 tp;
            Some \<lparr>htype = ht, ptype = pt, hlen = hl, plen = pl, oper = op,
                  sha = sh, spa = sp, tha = th, tpa = tp\<rparr> }) } })"

definition arp_write_reply ::
  "u8 list \<Rightarrow> usize \<Rightarrow> mac \<Rightarrow> ipv4 \<Rightarrow> mac \<Rightarrow> ipv4 \<Rightarrow> (usize option \<times> u8 list) option" where
  "arp_write_reply buf offset our_mac our_ip target_mac target_ip =
     do { e \<leftarrow> us_add offset ARP_PACKET_LEN;
          if length buf < e then Some (None, buf)
          else do {
            b \<leftarrow> slice buf offset (length buf);
            b \<leftarrow> copy_slice b 0 2 (to_be_bytes 1);
            b \<leftarrow> copy_slice b 2 4 (to_be_bytes 0x0800);
            b \<leftarrow> upd_idx b 4 6;
            b \<leftarrow> upd_idx b 5 4;
            b \<leftarrow> copy_slice b 6 8 (to_be_bytes ARP_OP_REPLY);
            b \<leftarrow> copy_slice b 8 14 our_mac;
            b \<leftarrow> copy_slice b 14 18 our_ip;
            b \<leftarrow> copy_slice b 18 24 target_mac;
            b \<leftarrow> copy_slice b 24 28 target_ip;
            buf \<leftarrow> copy_slice buf offset (length buf) b;
            Some (Some ARP_PACKET_LEN, buf) } }"

record arp_entry =
  entry_ip :: ipv4
  entry_mac :: mac

record arp_table =
  entries :: "arp_entry option list"
  next_slot :: usize

definition arp_table_new :: arp_table where
  "arp_table_new = \<lparr>entries = replicate ARP_TABLE_SIZE None, next_slot = 0\<rparr>"

text \<open>The loop over the occupied slots that rewrites the first entry of \<open>ip\<close>; \<open>None\<close> if there is none.\<close>

fun arp_update :: "arp_entry option list \<Rightarrow> ipv4 \<Rightarrow> mac \<Rightarrow> arp_entry option list option" where
  "arp_update [] ip mac = None"
| "arp_update (None # es) ip mac = map_option ((#) None) (arp_update es ip mac)"
| "arp_update (Some e # es) ip mac =
     (if entry_ip e = ip then Some (Some (e\<lparr>entry_mac := mac\<rparr>) # es)
      else map_option ((#) (Some e)) (arp_update es ip mac))"

definition arp_learn :: "arp_table \<Rightarrow> ipv4 \<Rightarrow> mac \<Rightarrow> arp_table option" where
  "arp_learn self ip mac =
     (case arp_update (entries self) ip mac of
        Some es \<Rightarrow> Some (self\<lparr>entries := es\<rparr>)
      | None \<Rightarrow> do {
          es \<leftarrow> upd_idx (entries self) (next_slot self) (Some \<lparr>entry_ip = ip, entry_mac = mac\<rparr>);
          n \<leftarrow> us_add (next_slot self) 1;
          Some \<lparr>entries = es, next_slot = n mod ARP_TABLE_SIZE\<rparr> })"

definition handle_arp ::
  "arp_table \<Rightarrow> ipv4 \<Rightarrow> mac \<Rightarrow> u8 list \<Rightarrow> u8 list \<Rightarrow> (usize option \<times> arp_table \<times> u8 list) option" where
  "handle_arp self our_ip our_mac payload reply_buf =
     do { p \<leftarrow> arp_parse payload;
          case p of
            None \<Rightarrow> Some (None, self, reply_buf)
          | Some pkt \<Rightarrow> do {
              self \<leftarrow> arp_learn self (spa pkt) (sha pkt);
              if oper pkt \<noteq> ARP_OP_REQUEST \<or> tpa pkt \<noteq> our_ip then Some (None, self, reply_buf)
              else do {
                (r, reply_buf) \<leftarrow> eth_write reply_buf (sha pkt) our_mac ETHERTYPE_ARP;
                case r of
                  None \<Rightarrow> Some (None, self, reply_buf)
                | Some eth_off \<Rightarrow> do {
                    (r, reply_buf) \<leftarrow> arp_write_reply reply_buf eth_off our_mac our_ip (sha pkt) (spa pkt);
                    case r of
                      None \<Rightarrow> Some (None, self, reply_buf)
                    | Some arp_len \<Rightarrow> do {
                        n \<leftarrow> us_add eth_off arp_len;
                        Some (Some n, self, reply_buf) } } } } }"

section \<open>ICMP\<close>

definition ICMP_ECHO_REQUEST :: u8 where "ICMP_ECHO_REQUEST = 8"
definition ICMP_ECHO_REPLY :: u8 where "ICMP_ECHO_REPLY = 0"
definition ICMP_HEADER_LEN :: usize where "ICMP_HEADER_LEN = 8"

text \<open>Step 3 of \<^verbatim>\<open>handle_icmp\<close>: the echo reply at offset \<open>off\<close>.\<close>

definition icmp_write_reply :: "u8 list \<Rightarrow> usize \<Rightarrow> u8 list \<Rightarrow> usize \<Rightarrow> u8 list \<Rightarrow> u8 list option" where
  "icmp_write_reply buf off icmp_payload icmp_reply_len icmp_data =
     do { buf \<leftarrow> upd_idx buf off ICMP_ECHO_REPLY;
          i \<leftarrow> us_add off 1;
          buf \<leftarrow> upd_idx buf i 0;
          i \<leftarrow> us_add off 2;
          buf \<leftarrow> upd_idx buf i 0;
          i \<leftarrow> us_add off 3;
          buf \<leftarrow> upd_idx buf i 0;
          i4 \<leftarrow> us_add off 4;
          h \<leftarrow> us_add off ICMP_HEADER_LEN;
          ids \<leftarrow> slice icmp_payload 4 ICMP_HEADER_LEN;
          buf \<leftarrow> copy_slice buf i4 h ids;
          e \<leftarrow> us_add off icmp_reply_len;
          buf \<leftarrow> copy_slice buf h e icmp_data;
          msg \<leftarrow> slice buf off e;
          cksum \<leftarrow> internet_checksum msg;
          i2 \<leftarrow> us_add off 2;
          copy_slice buf i2 i4 (to_be_bytes cksum) }"

definition handle_icmp ::
  "mac \<Rightarrow> ipv4 \<Rightarrow> mac \<Rightarrow> ipv4 \<Rightarrow> u8 list \<Rightarrow> u8 list \<Rightarrow> (usize option \<times> u8 list) option" where
  "handle_icmp src_mac src_ip our_mac our_ip icmp_payload reply_buf =
     (if length icmp_payload < ICMP_HEADER_LEN then Some (None, reply_buf)
      else do {
        icmp_type \<leftarrow> idx icmp_payload 0;
        if icmp_type \<noteq> ICMP_ECHO_REQUEST then Some (None, reply_buf)
        else do {
          icmp_data \<leftarrow> slice icmp_payload ICMP_HEADER_LEN (length icmp_payload);
          icmp_reply_len \<leftarrow> us_add ICMP_HEADER_LEN (length icmp_data);
          hdrs \<leftarrow> us_add ETHERNET_HEADER_LEN IPV4_HEADER_LEN;
          frame_len \<leftarrow> us_add hdrs icmp_reply_len;
          if length reply_buf < frame_len then Some (None, reply_buf)
          else do {
            (r, reply_buf) \<leftarrow> eth_write reply_buf src_mac our_mac ETHERTYPE_IPV4;
            case r of
              None \<Rightarrow> Some (None, reply_buf)
            | Some off \<Rightarrow> do {
                (r, reply_buf) \<leftarrow> ipv4_write reply_buf off our_ip src_ip PROTO_ICMP icmp_reply_len;
                case r of
                  None \<Rightarrow> Some (None, reply_buf)
                | Some off \<Rightarrow> do {
                    reply_buf \<leftarrow> icmp_write_reply reply_buf off icmp_payload icmp_reply_len icmp_data;
                    Some (Some frame_len, reply_buf) } } } } })"

section \<open>The receive loop\<close>

definition MAX_FRAME :: usize where "MAX_FRAME = 1518"

record net_config =
  cfg_ip :: ipv4
  cfg_netmask :: ipv4
  cfg_gateway :: ipv4

record net_state =
  rx_buf :: "u8 list"
  tx_buf :: "u8 list"
  arp_cache :: arp_table

definition net_init :: net_state where
  "net_init = \<lparr>rx_buf = replicate MAX_FRAME 0, tx_buf = replicate MAX_FRAME 0, arp_cache = arp_table_new\<rparr>"

text \<open>
  What \<^verbatim>\<open>nic.recv(&mut rx_buf)\<close> did: the buffer's contents afterwards and its result. The frame to
  send is returned; the result of \<^verbatim>\<open>nic.send\<close> is ignored by the code.
\<close>

datatype recv_result = RecvOk "u8 list" usize | RecvErr "u8 list"

fun net_rx_step :: "mac \<Rightarrow> ipv4 \<Rightarrow> net_state \<Rightarrow> recv_result \<Rightarrow> (u8 list option \<times> net_state) option" where
  "net_rx_step our_mac our_ip s (RecvErr buf) = Some (None, s\<lparr>rx_buf := buf\<rparr>)"
| "net_rx_step our_mac our_ip s (RecvOk buf n) =
     do { let s = s\<lparr>rx_buf := buf\<rparr>;
          frame \<leftarrow> slice buf 0 n;
          p \<leftarrow> eth_parse frame;
          case p of
            None \<Rightarrow> Some (None, s)
          | Some (eth, payload) \<Rightarrow>
              if ethertype eth = ETHERTYPE_ARP then do {
                (r, t, tx) \<leftarrow> handle_arp (arp_cache s) our_ip our_mac payload (tx_buf s);
                let s = s\<lparr>arp_cache := t, tx_buf := tx\<rparr>;
                case r of
                  None \<Rightarrow> Some (None, s)
                | Some reply_len \<Rightarrow> do { out \<leftarrow> slice tx 0 reply_len; Some (Some out, s) } }
              else if ethertype eth = ETHERTYPE_IPV4 then do {
                q \<leftarrow> ipv4_parse payload;
                case q of
                  None \<Rightarrow> Some (None, s)
                | Some (ip_hdr, ip_payload) \<Rightarrow>
                    if ip_dst ip_hdr \<noteq> our_ip then Some (None, s)
                    else if protocol ip_hdr = PROTO_ICMP then do {
                      (r, tx) \<leftarrow> handle_icmp (eth_src eth) (ip_src ip_hdr) our_mac our_ip ip_payload (tx_buf s);
                      let s = s\<lparr>tx_buf := tx\<rparr>;
                      case r of
                        None \<Rightarrow> Some (None, s)
                      | Some reply_len \<Rightarrow> do { out \<leftarrow> slice tx 0 reply_len; Some (Some out, s) } }
                    else Some (None, s) }
              else Some (None, s) }"

text \<open>The loop over the results of successive receives, with the frames it sends.\<close>

fun net_rx_run :: "mac \<Rightarrow> ipv4 \<Rightarrow> net_state \<Rightarrow> recv_result list \<Rightarrow> (u8 list list \<times> net_state) option" where
  "net_rx_run our_mac our_ip s [] = Some ([], s)"
| "net_rx_run our_mac our_ip s (r # rs) =
     do { (out, s) \<leftarrow> net_rx_step our_mac our_ip s r;
          (outs, s) \<leftarrow> net_rx_run our_mac our_ip s rs;
          Some ((case out of None \<Rightarrow> outs | Some f \<Rightarrow> f # outs), s) }"

definition net_rx_loop :: "mac \<Rightarrow> net_config \<Rightarrow> recv_result list \<Rightarrow> (u8 list list \<times> net_state) option" where
  "net_rx_loop our_mac config rs = net_rx_run our_mac (cfg_ip config) net_init rs"

section \<open>Building and parsing headers\<close>

named_theorems net_lens \<open>the constant lengths of the protocol headers\<close>

lemmas header_lengths [net_lens] =
  ETHERNET_HEADER_LEN_def IPV4_HEADER_LEN_def ARP_PACKET_LEN_def ICMP_HEADER_LEN_def

lemma length_to_be_bytes [simp]: "length (to_be_bytes w) = 2"
  by (simp add: to_be_bytes_def)

lemma eth_write_spec:
  assumes "length dst = 6" "length src = 6" "length ty = 2" "14 \<le> length buf"
  shows "eth_write buf dst src ty = Some (Some 14, dst @ src @ ty @ drop 14 buf)"
  using assms by (simp add: eth_write_def net_lens)

lemma eth_parse_build:
  assumes "length dst = 6" "length src = 6" "length ty = 2"
  shows "eth_parse (dst @ src @ ty @ payload)
    = Some (Some (\<lparr>eth_dst = dst, eth_src = src, ethertype = ty\<rparr>, payload))"
  using assms by (simp add: eth_parse_def net_lens try_array_def)

lemma eth_parse_cases:
  obtains "length buf < 14" "eth_parse buf = Some None"
  | h where "14 \<le> length buf" "eth_parse buf = Some (Some (h, drop 14 buf))"
      "length (eth_dst h) = 6" "length (eth_src h) = 6" "length (ethertype h) = 2"
proof (cases "length buf < 14")
  case True
  then show ?thesis by (intro that(1)) (simp_all add: eth_parse_def net_lens)
next
  case False
  then show ?thesis
    by (intro that(2) [of "\<lparr>eth_dst = take 6 buf, eth_src = take 6 (drop 6 buf),
          ethertype = take 2 (drop 12 buf)\<rparr>"])
      (simp_all add: eth_parse_def net_lens try_array_def)
qed

text \<open>The header that \<^const>\<open>ipv4_write\<close> writes, with checksum \<open>ck\<close>.\<close>

definition ip_header_bytes :: "ipv4 \<Rightarrow> ipv4 \<Rightarrow> u8 \<Rightarrow> u16 \<Rightarrow> u8 list \<Rightarrow> u8 list" where
  "ip_header_bytes src dst proto len ck =
     ([0x45, 0] @ to_be_bytes len @ [0, 0, 0x40, 0, 64, proto]) @ ck @ src @ dst"

lemma length_ip_header_bytes:
  "length src = 4 \<Longrightarrow> length dst = 4 \<Longrightarrow> length ck = 2 \<Longrightarrow>
   length (ip_header_bytes src dst proto len ck) = 20"
  by (simp add: ip_header_bytes_def)

lemma length_4_cases: "length xs = 4 \<Longrightarrow> \<exists>a b c d. xs = [a, b, c, d]"
  by (auto simp: numeral_eq_Suc length_Suc_conv)

lemma length_20_cases:
  assumes "length b = 20"
  obtains b0 b1 b2 b3 b4 b5 b6 b7 b8 b9 b10 b11 b12 b13 b14 b15 b16 b17 b18 b19
  where "b = [b0, b1, b2, b3, b4, b5, b6, b7, b8, b9, b10, b11, b12, b13, b14, b15, b16, b17, b18, b19]"
  using assms by (auto simp: numeral_eq_Suc length_Suc_conv)

lemma ipv4_fill_spec:
  assumes "length b = 20" "length src = 4" "length dst = 4"
  shows "ipv4_fill b len proto src dst = Some (ip_header_bytes src dst proto len [0, 0])"
proof -
  obtain s0 s1 s2 s3 d0 d1 d2 d3 where sd: "src = [s0, s1, s2, s3]" "dst = [d0, d1, d2, d3]"
    using length_4_cases [OF assms(2)] length_4_cases [OF assms(3)] by blast
  show ?thesis
    by (rule length_20_cases [OF assms(1)])
      (simp add: sd ipv4_fill_def ip_header_bytes_def to_be_bytes_def)
qed

lemma ip_header_checksum:
  assumes "length src = 4" "length dst = 4"
  obtains c where "internet_checksum (ip_header_bytes src dst proto len [0, 0]) = Some c"
    "internet_checksum (ip_header_bytes src dst proto len (to_be_bytes c)) = Some 0"
proof -
  let ?pre = "[0x45, 0] @ to_be_bytes len @ [0, 0, 0x40, 0, 64, proto]"
  let ?h0 = "?pre @ [0, 0] @ src @ dst"
  have c: "internet_checksum ?h0 = Some (NOT (oc_sum ?h0))"
    by (rule checksum_sum_correct) (use assms in simp)
  have "internet_checksum (?pre @ to_be_bytes (NOT (oc_sum ?h0)) @ src @ dst) = Some 0"
    by (rule checksum_self [OF _ _ c]) (use assms in simp_all)
  then show ?thesis using that c unfolding ip_header_bytes_def by blast
qed

lemma ipv4_write_spec:
  assumes "offset + 20 \<le> length buf" "length src = 4" "length dst = 4"
    and "length buf < 2 ^ 63" "n < 2 ^ 63"
  obtains ck where "length ck = 2"
    "internet_checksum (ip_header_bytes src dst proto (of_nat (20 + n)) ck) = Some 0"
    "ipv4_write buf offset src dst proto n = Some (Some (offset + 20),
       take offset buf @ ip_header_bytes src dst proto (of_nat (20 + n)) ck @ drop (offset + 20) buf)"
proof -
  define len where "len = (of_nat (20 + n) :: u16)"
  have l: "20 + of_nat n = len" by (simp add: len_def)
  let ?h0 = "ip_header_bytes src dst proto len [0, 0]"
  have len0: "length ?h0 = 20" using assms by (simp add: length_ip_header_bytes)
  have b: "length (take 20 (drop offset buf)) = 20" using assms(1) by simp
  obtain c where c: "internet_checksum ?h0 = Some c"
    "internet_checksum (ip_header_bytes src dst proto len (to_be_bytes c)) = Some 0"
    using ip_header_checksum [OF assms(2,3)] by blast
  have patch: "take 10 ?h0 @ to_be_bytes c @ drop 12 ?h0 = ip_header_bytes src dst proto len (to_be_bytes c)"
    by (simp add: ip_header_bytes_def)
  have "ipv4_write buf offset src dst proto n = Some (Some (offset + 20),
       take offset buf @ ip_header_bytes src dst proto len (to_be_bytes c) @ drop (offset + 20) buf)"
    using assms len0
    by (simp add: ipv4_write_def net_lens ipv4_fill_spec [OF b assms(2,3)] c patch l)
  then show ?thesis using that [of "to_be_bytes c"] c(2) by (simp add: l)
qed

lemma be_at_append [simp]: "be_at (a # b # xs) 0 = Some (from_be_bytes a b)"
  by (simp add: be_at_def)

lemma ipv4_parse_build:
  assumes "length src = 4" "length dst = 4" "length ck = 2"
    and "0 < length payload" "20 + length payload < 65536"
  shows "ipv4_parse (ip_header_bytes src dst proto (of_nat (20 + length payload)) ck @ payload)
    = Some (Some (\<lparr>ip_src = src, ip_dst = dst, protocol = proto,
        total_len = of_nat (20 + length payload)\<rparr>, payload))"
proof -
  define len where "len = (of_nat (20 + length payload) :: u16)"
  have u: "unat len = 20 + length payload"
    unfolding len_def by (rule unat_of_nat_lt) (use assms(5) in simp)
  obtain s0 s1 s2 s3 d0 d1 d2 d3 where sd: "src = [s0, s1, s2, s3]" "dst = [d0, d1, d2, d3]"
    using length_4_cases [OF assms(1)] length_4_cases [OF assms(2)] by blast
  obtain c0 c1 where ck: "ck = [c0, c1]" using assms(3) by (auto simp: numeral_eq_Suc length_Suc_conv)
  show ?thesis
    unfolding len_def [symmetric] using assms(4)
    by (simp add: ipv4_parse_def net_lens ip_header_bytes_def to_be_bytes_def sd ck u
        be_bytes_inverse try_array_def)
qed

lemma ipv4_parse_eq:
  assumes "20 \<le> length buf"
  defines "stop \<equiv> min (unat (from_be_bytes (buf ! 2) (buf ! 3))) (length buf)"
  shows "ipv4_parse buf = Some (if drop_bit 4 (buf ! 0) \<noteq> 4 \<or> (buf ! 0) AND 0x0F \<noteq> 5 \<or> stop \<le> 20
     then None
     else Some (\<lparr>ip_src = take 4 (drop 12 buf), ip_dst = take 4 (drop 16 buf), protocol = buf ! 9,
       total_len = from_be_bytes (buf ! 2) (buf ! 3)\<rparr>, take (stop - 20) (drop 20 buf)))"
proof -
  have "idx buf 0 = Some (buf ! 0)" by (rule idx_lt) (use assms(1) in linarith)
  moreover have "stop \<le> length buf" by (simp add: stop_def)
  ultimately show ?thesis
    using assms(1) unfolding ipv4_parse_def IPV4_HEADER_LEN_def
    by (simp add: try_array_def Let_def flip: stop_def)
qed

lemma ipv4_parse_cases:
  obtains "ipv4_parse buf = Some None"
  | h p where "ipv4_parse buf = Some (Some (h, p))" "length (ip_src h) = 4" "length (ip_dst h) = 4"
      "0 < length p" "20 + length p \<le> length buf" "20 + length p < 65536"
proof (cases "length buf < 20")
  case True
  then show ?thesis by (intro that(1)) (simp add: ipv4_parse_def net_lens)
next
  case False
  define stop where "stop = min (unat (from_be_bytes (buf ! 2) (buf ! 3))) (length buf)"
  have stop: "stop \<le> length buf" "stop < 65536"
    using unat_u16_lt [of "from_be_bytes (buf ! 2) (buf ! 3)"] by (simp_all add: stop_def)
  show ?thesis
  proof (cases "drop_bit 4 (buf ! 0) \<noteq> 4 \<or> (buf ! 0) AND 0x0F \<noteq> 5 \<or> stop \<le> 20")
    case True
    then show ?thesis using False by (intro that(1)) (simp add: ipv4_parse_eq stop_def)
  next
    case run: False
    define h where "h = \<lparr>ip_src = take 4 (drop 12 buf), ip_dst = take 4 (drop 16 buf),
      protocol = buf ! 9, total_len = from_be_bytes (buf ! 2) (buf ! 3)\<rparr>"
    have "ipv4_parse buf = Some (Some (h, take (stop - 20) (drop 20 buf)))"
      using run False by (simp add: ipv4_parse_eq h_def flip: stop_def)
    then show ?thesis by (rule that(2)) (use run False stop in \<open>auto simp: h_def min_def\<close>)
  qed
qed

text \<open>The packet that \<^const>\<open>arp_write_reply\<close> writes.\<close>

definition arp_reply_bytes :: "mac \<Rightarrow> ipv4 \<Rightarrow> mac \<Rightarrow> ipv4 \<Rightarrow> u8 list" where
  "arp_reply_bytes our_mac our_ip target_mac target_ip =
     [0, 1, 8, 0, 6, 4, 0, 2] @ our_mac @ our_ip @ target_mac @ target_ip"

lemma length_8_cases: "length xs = 8 \<Longrightarrow> \<exists>a b c d e f g h. xs = [a, b, c, d, e, f, g, h]"
  by (auto simp: numeral_eq_Suc length_Suc_conv)

lemma first_8_cases:
  assumes "8 \<le> length b"
  obtains b0 b1 b2 b3 b4 b5 b6 b7 where "b = [b0, b1, b2, b3, b4, b5, b6, b7] @ drop 8 b"
proof -
  have "length (take 8 b) = 8" using assms by simp
  then obtain b0 b1 b2 b3 b4 b5 b6 b7 where "take 8 b = [b0, b1, b2, b3, b4, b5, b6, b7]"
    using length_8_cases by blast
  then show ?thesis using that append_take_drop_id [of 8 b] by metis
qed

lemma arp_write_reply_spec:
  assumes "offset + 28 \<le> length buf" "length buf < 2 ^ 63"
    and "length our_mac = 6" "length our_ip = 4" "length tmac = 6" "length tip = 4"
  shows "arp_write_reply buf offset our_mac our_ip tmac tip = Some (Some 28,
    take offset buf @ arp_reply_bytes our_mac our_ip tmac tip @ drop (offset + 28) buf)"
proof -
  have "8 \<le> length (drop offset buf)" using assms(1) by simp
  then obtain b0 b1 b2 b3 b4 b5 b6 b7
    where d: "drop offset buf = [b0, b1, b2, b3, b4, b5, b6, b7] @ drop 8 (drop offset buf)"
    by (rule first_8_cases)
  define r where "r = drop 8 (drop offset buf)"
  have r: "drop (offset + 28) buf = drop 20 r" "length buf - offset = 8 + length r" "20 \<le> length r"
    using assms(1) by (simp_all add: r_def add.commute)
  have sl: "slice buf offset (length buf) = Some ([b0, b1, b2, b3, b4, b5, b6, b7] @ r)"
    using assms(1) d [folded r_def] r(2) by simp
  have be: "to_be_bytes 1 = [0, 1]" "to_be_bytes 0x0800 = [8, 0]" "to_be_bytes 2 = [0, 2]"
    by (simp_all add: to_be_bytes_def)
  show ?thesis
    unfolding r(1) using assms r(2,3)
    by (simp add: arp_write_reply_def net_lens be arp_reply_bytes_def ARP_OP_REPLY_def sl
        del: slice_in_range)
qed

lemma arp_parse_reply:
  assumes "length our_mac = 6" "length our_ip = 4" "length tmac = 6" "length tip = 4"
  shows "arp_parse (arp_reply_bytes our_mac our_ip tmac tip @ rest) =
    Some (Some \<lparr>htype = 1, ptype = 0x0800, hlen = 6, plen = 4, oper = ARP_OP_REPLY,
      sha = our_mac, spa = our_ip, tha = tmac, tpa = tip\<rparr>)"
  using assms
  by (simp add: arp_parse_def net_lens arp_reply_bytes_def be_at_def from_be_bytes_def try_array_def
      ARP_OP_REPLY_def)

lemma arp_parse_eq:
  assumes "28 \<le> length data"
  shows "arp_parse data = Some
    (if from_be_bytes (data ! 0) (data ! 1) \<noteq> 1 \<or> from_be_bytes (data ! 2) (data ! 3) \<noteq> 0x0800 \<or>
        data ! 4 \<noteq> 6 \<or> data ! 5 \<noteq> 4 then None
     else Some \<lparr>htype = 1, ptype = 0x0800, hlen = 6, plen = 4,
       oper = from_be_bytes (data ! 6) (data ! 7), sha = take 6 (drop 8 data),
       spa = take 4 (drop 14 data), tha = take 6 (drop 18 data), tpa = take 4 (drop 24 data)\<rparr>)"
proof -
  have "idx data 0 = Some (data ! 0)" by (rule idx_lt) (use assms in linarith)
  then show ?thesis using assms unfolding arp_parse_def ARP_PACKET_LEN_def
    by (simp add: be_at_def try_array_def)
qed

lemma arp_parse_cases:
  obtains "arp_parse data = Some None"
  | pkt where "arp_parse data = Some (Some pkt)" "length (sha pkt) = 6" "length (spa pkt) = 4"
proof (cases "length data < 28")
  case True
  then show ?thesis by (intro that(1)) (simp add: arp_parse_def net_lens)
next
  case False
  then show ?thesis using arp_parse_eq [of data] that by (auto split: if_splits)
qed

text \<open>The message that \<^const>\<open>icmp_write_reply\<close> writes for the request \<open>req\<close>, with checksum \<open>ck\<close>.\<close>

definition echo_reply :: "u8 list \<Rightarrow> u8 list \<Rightarrow> u8 list" where
  "echo_reply req ck = [ICMP_ECHO_REPLY, 0] @ ck @ drop 4 req"

lemma icmp_fill:
  assumes "off + length req \<le> length buf" "8 \<le> length req" "length buf < 2 ^ 63"
    and "internet_checksum (echo_reply req [0, 0]) = Some c"
  shows "icmp_write_reply buf off req (length req) (drop 8 req)
    = Some (take off buf @ echo_reply req (to_be_bytes c) @ drop (off + length req) buf)"
proof -
  define pre where "pre = take off buf"
  have lp: "length pre = off" using assms by (simp add: pre_def)
  have "8 \<le> length (drop off buf)" using assms by simp
  then obtain b0 b1 b2 b3 b4 b5 b6 b7
    where d: "drop off buf = [b0, b1, b2, b3, b4, b5, b6, b7] @ drop 8 (drop off buf)"
    by (rule first_8_cases)
  define r where "r = drop 8 (drop off buf)"
  have buf: "buf = pre @ [b0, b1, b2, b3, b4, b5, b6, b7] @ r"
    using append_take_drop_id [of off buf] d unfolding r_def pre_def by metis
  obtain q0 q1 q2 q3 q4 q5 q6 q7 where q: "req = [q0, q1, q2, q3, q4, q5, q6, q7] @ drop 8 req"
    using first_8_cases [OF assms(2)] .
  define data where "data = drop 8 req"
  have req: "req = [q0, q1, q2, q3, q4, q5, q6, q7] @ data" using q by (simp add: data_def)
  have len: "length data \<le> length r" using assms(1) unfolding buf req by (simp add: lp)
  have eight: "8 + n = Suc (Suc (Suc (Suc (Suc (Suc (Suc (Suc n)))))))" for n by simp
  show ?thesis
    using assms(3,4) len lp unfolding buf req
    by (simp add: icmp_write_reply_def net_lens echo_reply_def list_update_append)
      (simp add: eight)
qed

lemma echo_checksum:
  assumes "8 \<le> length req" "length req \<le> 65536"
  obtains c where "internet_checksum (echo_reply req [0, 0]) = Some c"
    "internet_checksum (echo_reply req (to_be_bytes c)) = Some 0"
proof -
  let ?h = "[ICMP_ECHO_REPLY, 0] @ [0, 0] @ drop 4 req"
  have c: "internet_checksum ?h = Some (NOT (oc_sum ?h))"
    by (rule checksum_sum_correct) (use assms in simp)
  have "internet_checksum ([ICMP_ECHO_REPLY, 0] @ to_be_bytes (NOT (oc_sum ?h)) @ drop 4 req) = Some 0"
    by (rule checksum_self [OF _ _ c]) (use assms in simp_all)
  then show ?thesis using that c unfolding echo_reply_def by blast
qed

section \<open>Handling an echo request\<close>

lemma handle_icmp_ignores:
  "length p < 8 \<or> p ! 0 \<noteq> 8 \<or> length buf < 34 + length p \<Longrightarrow> length p < 2 ^ 63 \<Longrightarrow>
   handle_icmp smac sip our_mac our_ip p buf = Some (None, buf)"
  by (cases "length p < 8"; cases "p = []")
    (auto simp: handle_icmp_def net_lens ICMP_ECHO_REQUEST_def)

lemma handle_icmp_replies:
  assumes "8 \<le> length req" "req ! 0 = 8" "34 + length req \<le> length buf" "length req \<le> 65535"
    and "length smac = 6" "length our_mac = 6" "length sip = 4" "length our_ip = 4" "length buf < 2 ^ 63"
  obtains ck c where "length ck = 2"
    "internet_checksum (ip_header_bytes our_ip sip PROTO_ICMP (of_nat (20 + length req)) ck) = Some 0"
    "internet_checksum (echo_reply req (to_be_bytes c)) = Some 0"
    "handle_icmp smac sip our_mac our_ip req buf = Some (Some (34 + length req),
       (smac @ our_mac @ ETHERTYPE_IPV4 @
        ip_header_bytes our_ip sip PROTO_ICMP (of_nat (20 + length req)) ck @
        echo_reply req (to_be_bytes c)) @ drop (34 + length req) buf)"
proof -
  obtain c where c: "internet_checksum (echo_reply req [0, 0]) = Some c"
    "internet_checksum (echo_reply req (to_be_bytes c)) = Some 0"
    by (rule echo_checksum [of req]) (use assms(1,4) in simp_all)
  have ty: "length ETHERTYPE_IPV4 = 2" by (simp add: ETHERTYPE_IPV4_def)
  define b1 where "b1 = smac @ our_mac @ ETHERTYPE_IPV4 @ drop 14 buf"
  have e: "eth_write buf smac our_mac ETHERTYPE_IPV4 = Some (Some 14, b1)"
    unfolding b1_def by (rule eth_write_spec) (use assms ty in simp_all)
  have b1: "length b1 = length buf" using assms ty by (simp add: b1_def)
  obtain ck where ck: "length ck = 2"
    "internet_checksum (ip_header_bytes our_ip sip PROTO_ICMP (of_nat (20 + length req)) ck) = Some 0"
    and w: "ipv4_write b1 14 our_ip sip PROTO_ICMP (length req) = Some (Some (14 + 20),
      take 14 b1 @ ip_header_bytes our_ip sip PROTO_ICMP (of_nat (20 + length req)) ck @ drop (14 + 20) b1)"
    by (rule ipv4_write_spec [of 14 b1 our_ip sip "length req" PROTO_ICMP]) (use assms b1 in simp_all)
  define h where "h = ip_header_bytes our_ip sip PROTO_ICMP (of_nat (20 + length req)) ck"
  define b2 where "b2 = take 14 b1 @ h @ drop 34 b1"
  have h: "length h = 20" using assms ck(1) by (simp add: h_def length_ip_header_bytes)
  have b2: "length b2 = length buf" using assms b1 h by (simp add: b2_def)
  have r: "icmp_write_reply b2 34 req (length req) (drop 8 req)
      = Some (take 34 b2 @ echo_reply req (to_be_bytes c) @ drop (34 + length req) b2)"
    by (rule icmp_fill) (use assms b2 c in simp_all)
  have "req \<noteq> []" using assms(1) by auto
  moreover have "take 34 b2 = smac @ our_mac @ ETHERTYPE_IPV4 @ h"
    "drop (34 + length req) b2 = drop (34 + length req) buf"
    using assms(3,5,6) ty h b1 unfolding b2_def by (simp_all add: b1_def add.commute)
  ultimately have "handle_icmp smac sip our_mac our_ip req buf = Some (Some (34 + length req),
       (smac @ our_mac @ ETHERTYPE_IPV4 @ h @ echo_reply req (to_be_bytes c)) @ drop (34 + length req) buf)"
    using assms w [folded h_def, simplified, folded b2_def] r
    by (simp add: handle_icmp_def net_lens ICMP_ECHO_REQUEST_def e)
  then show ?thesis using that ck c(2) unfolding h_def by blast
qed

section \<open>The ARP table\<close>

text \<open>Sixteen slots, a valid insertion position, and at most one entry per address.\<close>

definition ips_unique :: "arp_entry option list \<Rightarrow> bool" where
  "ips_unique es \<longleftrightarrow> (\<forall>i j e e'. i < length es \<longrightarrow> j < length es \<longrightarrow>
     es ! i = Some e \<longrightarrow> es ! j = Some e' \<longrightarrow> entry_ip e = entry_ip e' \<longrightarrow> i = j)"

definition arp_inv :: "arp_table \<Rightarrow> bool" where
  "arp_inv t \<longleftrightarrow> length (entries t) = 16 \<and> next_slot t < 16 \<and> ips_unique (entries t)"

lemma ips_unique_update:
  assumes "ips_unique es" "k < length es"
    and "\<And>i e. i < length es \<Longrightarrow> es ! i = Some e \<Longrightarrow> entry_ip e = entry_ip n \<Longrightarrow> i = k"
  shows "ips_unique (es[k := Some n])"
  unfolding ips_unique_def
proof (intro allI impI)
  fix i j e e'
  assume *: "i < length (es[k := Some n])" "j < length (es[k := Some n])"
    "es[k := Some n] ! i = Some e" "es[k := Some n] ! j = Some e'" "entry_ip e = entry_ip e'"
  show "i = j"
  proof (cases "i = k"; cases "j = k")
    assume "i \<noteq> k" "j \<noteq> k"
    then show ?thesis using * assms(1) unfolding ips_unique_def by simp
  qed (use * assms(2,3) in auto)
qed

lemma arp_inv_new: "arp_inv arp_table_new"
  by (simp add: arp_inv_def ips_unique_def arp_table_new_def ARP_TABLE_SIZE_def)

lemma arp_update_None_iff:
  "arp_update es ip mac = None \<longleftrightarrow> (\<forall>i < length es. \<forall>e. es ! i = Some e \<longrightarrow> entry_ip e \<noteq> ip)"
proof (induction es ip mac rule: arp_update.induct)
  case (3 e es ip mac)
  then show ?case by (auto simp: less_Suc_eq_0_disj)
qed (auto simp: less_Suc_eq_0_disj)

lemma arp_update_Some:
  assumes "arp_update es ip mac = Some es'"
  shows "\<exists>i e. i < length es \<and> es ! i = Some e \<and> entry_ip e = ip \<and>
    es' = es[i := Some \<lparr>entry_ip = ip, entry_mac = mac\<rparr>]"
  using assms
proof (induction es ip mac arbitrary: es' rule: arp_update.induct)
  case (2 es ip mac)
  then obtain es1 where "arp_update es ip mac = Some es1" "es' = None # es1" by auto
  with 2(1) [OF this(1)] show ?case by (metis length_Cons nth_Cons_Suc list_update_code(3) Suc_less_eq)
next
  case (3 e es ip mac)
  show ?case
  proof (cases "entry_ip e = ip")
    case True
    then show ?thesis using 3(2) by (intro exI [of _ 0] exI [of _ e]) auto
  next
    case False
    then obtain es1 where "arp_update es ip mac = Some es1" "es' = Some e # es1" using 3(2) by auto
    with 3(1) [OF False this(1)] show ?thesis
      by (metis length_Cons nth_Cons_Suc list_update_code(3) Suc_less_eq)
  qed
qed simp

lemma arp_learn_spec:
  assumes "arp_inv t"
  obtains i t' where "i < 16" "arp_learn t ip mac = Some t'" "arp_inv t'"
    "entries t' = (entries t)[i := Some \<lparr>entry_ip = ip, entry_mac = mac\<rparr>]"
    "(\<exists>e. entries t ! i = Some e \<and> entry_ip e = ip) \<or> i = next_slot t"
proof (cases "arp_update (entries t) ip mac")
  case None
  let ?t = "\<lparr>entries = (entries t)[next_slot t := Some \<lparr>entry_ip = ip, entry_mac = mac\<rparr>],
    next_slot = (next_slot t + 1) mod 16\<rparr>"
  have fresh: "\<forall>i < 16. \<forall>e. entries t ! i = Some e \<longrightarrow> entry_ip e \<noteq> ip"
    using None assms by (simp add: arp_update_None_iff arp_inv_def)
  have "arp_learn t ip mac = Some ?t"
    using None assms by (simp add: arp_learn_def arp_inv_def ARP_TABLE_SIZE_def)
  moreover have "arp_inv ?t"
    using assms ips_unique_update [of "entries t" "next_slot t" "\<lparr>entry_ip = ip, entry_mac = mac\<rparr>"] fresh
    unfolding arp_inv_def by simp
  ultimately show ?thesis using that [of "next_slot t" ?t] assms by (simp add: arp_inv_def)
next
  case (Some es)
  obtain i e where i: "i < length (entries t)" "entries t ! i = Some e" "entry_ip e = ip"
    "es = (entries t)[i := Some \<lparr>entry_ip = ip, entry_mac = mac\<rparr>]"
    using arp_update_Some [OF Some] by (elim exE conjE)
  have "ips_unique es"
    unfolding i(4)
  proof (rule ips_unique_update)
    show "ips_unique (entries t)" using assms by (simp add: arp_inv_def)
    show "j = i" if "j < length (entries t)" "entries t ! j = Some e'"
      "entry_ip e' = entry_ip \<lparr>entry_ip = ip, entry_mac = mac\<rparr>" for j e'
      using assms that i(1-3) unfolding arp_inv_def ips_unique_def by simp
  qed (rule i(1))
  then have "arp_inv (t\<lparr>entries := es\<rparr>)" using assms i(4) by (simp add: arp_inv_def)
  then show ?thesis
    using that [of i "t\<lparr>entries := es\<rparr>"] assms i Some by (simp add: arp_learn_def arp_inv_def)
qed

lemma handle_arp_replies:
  assumes "arp_parse payload = Some (Some pkt)" "length (sha pkt) = 6" "length (spa pkt) = 4"
    and "oper pkt = ARP_OP_REQUEST" "tpa pkt = our_ip" "arp_learn t (spa pkt) (sha pkt) = Some t'"
    and "length our_mac = 6" "length our_ip = 4" "length buf < 2 ^ 63" "42 \<le> length buf"
  shows "handle_arp t our_ip our_mac payload buf = Some (Some 42, t',
    (sha pkt @ our_mac @ ETHERTYPE_ARP @ arp_reply_bytes our_mac our_ip (sha pkt) (spa pkt)) @ drop 42 buf)"
proof -
  define b where "b = sha pkt @ our_mac @ ETHERTYPE_ARP @ drop 14 buf"
  have b: "length b = length buf" "eth_write buf (sha pkt) our_mac ETHERTYPE_ARP = Some (Some 14, b)"
    using assms by (simp_all add: b_def ETHERTYPE_ARP_def eth_write_spec)
  have w: "arp_write_reply b 14 our_mac our_ip (sha pkt) (spa pkt) = Some (Some 28,
      take 14 b @ arp_reply_bytes our_mac our_ip (sha pkt) (spa pkt) @ drop (14 + 28) b)"
    by (rule arp_write_reply_spec) (use assms b in simp_all)
  have "take 14 b = sha pkt @ our_mac @ ETHERTYPE_ARP" "drop 42 b = drop 42 buf"
    using assms by (simp_all add: b_def ETHERTYPE_ARP_def)
  then show ?thesis using assms b w by (simp add: handle_arp_def)
qed

lemma handle_arp_total:
  assumes "arp_inv t" "length our_mac = 6" "length our_ip = 4" "length buf < 2 ^ 63" "42 \<le> length buf"
  obtains r t' buf' where "handle_arp t our_ip our_mac payload buf = Some (r, t', buf')"
    "arp_inv t'" "length buf' = length buf" "r = None \<or> r = Some 42 \<and> 28 \<le> length payload"
proof (cases rule: arp_parse_cases [of payload])
  case 1
  then show ?thesis using that [of None t buf] assms by (simp add: handle_arp_def)
next
  case (2 pkt)
  obtain i t' where l: "arp_learn t (spa pkt) (sha pkt) = Some t'" "arp_inv t'"
    using arp_learn_spec [OF assms(1)] by metis
  have long: "28 \<le> length payload"
    using 2(1) by (cases "length payload < 28") (simp_all add: arp_parse_def net_lens)
  show ?thesis
  proof (cases "oper pkt \<noteq> ARP_OP_REQUEST \<or> tpa pkt \<noteq> our_ip")
    case True
    then show ?thesis using that [of None t' buf] 2 l by (simp add: handle_arp_def)
  next
    case False
    show ?thesis
      by (rule that [OF handle_arp_replies [OF 2 _ _ l(1) assms(2-5)]])
        (use False 2 l(2) long assms in \<open>simp_all add: arp_reply_bytes_def ETHERTYPE_ARP_def\<close>)
  qed
qed

section \<open>The receive loop\<close>

definition net_inv :: "net_state \<Rightarrow> bool" where
  "net_inv s \<longleftrightarrow> length (tx_buf s) = MAX_FRAME \<and> arp_inv (arp_cache s)"

text \<open>
  The contract of \<^verbatim>\<open>NetworkDevice::recv\<close>: it fills the buffer it was given and returns the number of
  bytes it wrote to it.
\<close>

fun recv_ok :: "recv_result \<Rightarrow> bool" where
  "recv_ok (RecvOk buf n) \<longleftrightarrow> length buf = MAX_FRAME \<and> n \<le> MAX_FRAME"
| "recv_ok (RecvErr buf) \<longleftrightarrow> length buf = MAX_FRAME"

fun recv_len :: "recv_result \<Rightarrow> nat" where
  "recv_len (RecvOk buf n) = n"
| "recv_len (RecvErr buf) = 0"

lemma handle_icmp_total:
  assumes "length p \<le> 1484" "length buf = 1518" "length smac = 6" "length our_mac = 6"
    "length sip = 4" "length our_ip = 4"
  obtains r buf' where "handle_icmp smac sip our_mac our_ip p buf = Some (r, buf')"
    "length buf' = 1518" "r = None \<or> r = Some (34 + length p)"
proof (cases "8 \<le> length p \<and> p ! 0 = 8")
  case True
  obtain ck c where ck: "length ck = 2" and h: "handle_icmp smac sip our_mac our_ip p buf = Some (Some (34 + length p),
       (smac @ our_mac @ ETHERTYPE_IPV4 @
        ip_header_bytes our_ip sip PROTO_ICMP (of_nat (20 + length p)) ck @
        echo_reply p (to_be_bytes c)) @ drop (34 + length p) buf)"
    by (rule handle_icmp_replies [of p buf smac our_mac sip our_ip]) (use assms True in simp_all)
  show ?thesis
    by (rule that [OF h]) (use assms True ck in
        \<open>simp_all add: ETHERTYPE_IPV4_def ip_header_bytes_def echo_reply_def\<close>)
next
  case False
  then show ?thesis using that [of None buf] handle_icmp_ignores [of p buf smac sip our_mac our_ip] assms
    by auto
qed

lemma net_rx_step_ip:
  assumes "net_inv s" "n \<le> 1518" "length buf = 1518" "length our_mac = 6" "length our_ip = 4"
    and "14 \<le> n" "eth_parse (take n buf) = Some (Some (h, drop 14 (take n buf)))"
    and "ethertype h = ETHERTYPE_IPV4" "length (eth_src h) = 6"
  obtains out s' where "net_rx_step our_mac our_ip s (RecvOk buf n) = Some (out, s')" "net_inv s'"
    "out = None \<or> (\<exists>f. out = Some f \<and> length f \<le> n)"
proof -
  let ?s = "s\<lparr>rx_buf := buf\<rparr>" and ?p = "drop 14 (take n buf)"
  have ne: "ETHERTYPE_IPV4 \<noteq> ETHERTYPE_ARP" by (simp add: ETHERTYPE_ARP_def ETHERTYPE_IPV4_def)
  have "net_inv ?s" using assms(1) by (simp add: net_inv_def)
  note stay = that [of None, OF _ this]
  show ?thesis
  proof (cases rule: ipv4_parse_cases [of ?p])
    case 1
    then show ?thesis using assms ne by (intro stay) simp_all
  next
    case q: (2 g p)
    have p: "length p \<le> 1484" "34 + length p \<le> n" using q(5) assms(2,3,6) by simp_all
    have tx: "length (tx_buf s) = 1518" using assms(1) by (simp add: net_inv_def MAX_FRAME_def)
    obtain a tx where h: "handle_icmp (eth_src h) (ip_src g) our_mac our_ip p (tx_buf s) = Some (a, tx)"
      "length tx = 1518" "a = None \<or> a = Some (34 + length p)"
      by (rule handle_icmp_total [OF p(1) tx assms(9,4) q(2) assms(5)])
    show ?thesis
    proof (cases "ip_dst g = our_ip \<and> protocol g = PROTO_ICMP")
      case True
      then show ?thesis
        using that [of "map_option (\<lambda>l. take l tx) a" "?s\<lparr>tx_buf := tx\<rparr>"] ne assms q(1) h p
        by (auto simp: net_inv_def MAX_FRAME_def)
    next
      case False
      then have "net_rx_step our_mac our_ip s (RecvOk buf n) = Some (None, ?s)"
        using assms(2,3,7,8) ne q(1) by (cases "ip_dst g = our_ip") simp_all
      then show ?thesis by (rule stay) simp
    qed
  qed
qed

lemma net_rx_step_total:
  assumes "net_inv s" "recv_ok r" "length our_mac = 6" "length our_ip = 4"
  obtains out s' where "net_rx_step our_mac our_ip s r = Some (out, s')" "net_inv s'"
    "out = None \<or> (\<exists>f. out = Some f \<and> length f \<le> recv_len r)"
proof (cases r)
  case (RecvErr buf)
  then show ?thesis using that [of None "s\<lparr>rx_buf := buf\<rparr>"] assms by (simp add: net_inv_def)
next
  case r: (RecvOk buf n)
  let ?s = "s\<lparr>rx_buf := buf\<rparr>" and ?frame = "take n buf"
  have inv: "arp_inv (arp_cache s)" "length (tx_buf s) = 1518" and n: "n \<le> 1518" "length buf = 1518"
    using assms(1,2) r by (simp_all add: net_inv_def MAX_FRAME_def)
  have tx: "length (tx_buf s) < 2 ^ 63" "42 \<le> length (tx_buf s)" using inv(2) by simp_all
  note stay = that [of None ?s]
  show ?thesis
  proof (cases rule: eth_parse_cases [of ?frame])
    case 1
    then show ?thesis using stay assms(1) r n by (simp add: net_inv_def)
  next
    case (2 h)
    then have long: "14 \<le> n" using n by simp
    let ?p = "drop 14 ?frame"
    consider (arp) "ethertype h = ETHERTYPE_ARP" | (ip) "ethertype h = ETHERTYPE_IPV4"
      | (other) "ethertype h \<noteq> ETHERTYPE_ARP" "ethertype h \<noteq> ETHERTYPE_IPV4" by blast
    then show ?thesis
    proof cases
      case arp
      obtain q t tx where h: "handle_arp (arp_cache s) our_ip our_mac ?p (tx_buf s) = Some (q, t, tx)"
        "arp_inv t" "length tx = length (tx_buf s)" "q = None \<or> q = Some 42 \<and> 28 \<le> length ?p"
        by (rule handle_arp_total [OF inv(1) assms(3,4) tx])
      then show ?thesis
        using that [of "map_option (\<lambda>l. take l tx) q" "?s\<lparr>arp_cache := t, tx_buf := tx\<rparr>"] arp 2 r n inv
        by (auto simp: net_inv_def MAX_FRAME_def)
    next
      case ip
      show ?thesis
        using net_rx_step_ip [OF assms(1) n assms(3,4) long 2(2) ip 2(4)] that r by auto
    next
      case other
      then show ?thesis using stay assms(1) 2 r n by (simp add: net_inv_def)
    qed
  qed
qed

lemma net_rx_run_total:
  assumes "net_inv s" "list_all recv_ok rs" "length our_mac = 6" "length our_ip = 4"
  shows "\<exists>outs s'. net_rx_run our_mac our_ip s rs = Some (outs, s') \<and> net_inv s' \<and>
    length outs \<le> length rs \<and> sum_list (map length outs) \<le> sum_list (map recv_len rs)"
  using assms(1,2)
proof (induction rs arbitrary: s)
  case (Cons r rs)
  obtain out s1 where step: "net_rx_step our_mac our_ip s r = Some (out, s1)" "net_inv s1"
    "out = None \<or> (\<exists>f. out = Some f \<and> length f \<le> recv_len r)"
    by (rule net_rx_step_total [OF Cons(2) _ assms(3,4)]) (use Cons(3) in auto)
  obtain outs s' where "net_rx_run our_mac our_ip s1 rs = Some (outs, s')" "net_inv s'"
    "length outs \<le> length rs" "sum_list (map length outs) \<le> sum_list (map recv_len rs)"
    using Cons(1) [OF step(2)] Cons(3) by auto
  then show ?case using step by auto
qed simp

section \<open>Properties\<close>

text \<open>
  C20: No sequence of received frames makes the network stack panic, whatever their contents: started
  with an empty table, the receive loop processes every list of results that honour the contract of
  the device (at most the 1518 bytes of its buffer). It sends at most one frame per frame received
  and in total no more bytes than it received, and the ARP table keeps sixteen slots with at most
  one entry per address.
\<close>

theorem net_rx_never_panics:
  assumes "list_all recv_ok rs" "length our_mac = 6" "length (cfg_ip config) = 4"
  shows "\<exists>outs s. net_rx_loop our_mac config rs = Some (outs, s) \<and> length outs \<le> length rs \<and>
    sum_list (map length outs) \<le> sum_list (map recv_len rs) \<and> arp_inv (arp_cache s)"
proof -
  have "net_inv net_init" by (simp add: net_inv_def net_init_def arp_inv_new)
  from net_rx_run_total [OF this assms] show ?thesis
    by (auto simp: net_rx_loop_def net_inv_def)
qed

text \<open>
  C13: An ICMP echo request addressed to the host is answered: when the received frame is an Ethernet
  frame with an IPv4 packet for our address whose payload is an ICMP message of at least 8 bytes and
  type 8, the frame sent parses, with the same parsers, as an Ethernet frame from our address to the
  sender and an IPv4 packet from our address to the sender's; its payload is the echo reply (type
  and code 0) that carries the request's identifier, sequence number and data, and the checksums of
  the header and of the message both verify.
\<close>

theorem icmp_echo_answered:
  assumes "net_inv s" "length buf = MAX_FRAME" "n \<le> MAX_FRAME" "length our_mac = 6" "length our_ip = 4"
    and "eth_parse (take n buf) = Some (Some (eth, packet))" "ethertype eth = ETHERTYPE_IPV4"
    and "ipv4_parse packet = Some (Some (ip, req))" "ip_dst ip = our_ip" "protocol ip = PROTO_ICMP"
    and "ICMP_HEADER_LEN \<le> length req" "req ! 0 = ICMP_ECHO_REQUEST"
  shows "\<exists>frame s' packet' reply.
    net_rx_step our_mac our_ip s (RecvOk buf n) = Some (Some frame, s') \<and>
    eth_parse frame = Some (Some (\<lparr>eth_dst = eth_src eth, eth_src = our_mac,
      ethertype = ETHERTYPE_IPV4\<rparr>, packet')) \<and>
    ipv4_parse packet' = Some (Some (\<lparr>ip_src = our_ip, ip_dst = ip_src ip, protocol = PROTO_ICMP,
      total_len = of_nat (IPV4_HEADER_LEN + length req)\<rparr>, reply)) \<and>
    internet_checksum (take IPV4_HEADER_LEN packet') = Some 0 \<and> internet_checksum reply = Some 0 \<and>
    length reply = length req \<and> take 2 reply = [ICMP_ECHO_REPLY, 0] \<and> drop 4 reply = drop 4 req"
proof -
  have e: "length (eth_src eth) = 6" "packet = drop 14 (take n buf)" "14 \<le> length (take n buf)"
    using assms(6) by (cases rule: eth_parse_cases [of "take n buf"], auto)+
  have i: "length (ip_src ip) = 4" "20 + length req \<le> length packet"
    using assms(8) by (cases rule: ipv4_parse_cases [of packet], auto)+
  have len: "8 \<le> length req" "34 + length req \<le> 1518" "length (tx_buf s) = 1518"
    using i(2) e(2,3) assms(1-3,11) by (simp_all add: MAX_FRAME_def net_inv_def net_lens)
  obtain ck c where ck: "length ck = 2"
    and sum: "internet_checksum (ip_header_bytes our_ip (ip_src ip) PROTO_ICMP (of_nat (20 + length req)) ck) = Some 0"
      "internet_checksum (echo_reply req (to_be_bytes c)) = Some 0"
    and h: "handle_icmp (eth_src eth) (ip_src ip) our_mac our_ip req (tx_buf s) = Some (Some (34 + length req),
       (eth_src eth @ our_mac @ ETHERTYPE_IPV4 @
        ip_header_bytes our_ip (ip_src ip) PROTO_ICMP (of_nat (20 + length req)) ck @
        echo_reply req (to_be_bytes c)) @ drop (34 + length req) (tx_buf s))"
    by (rule handle_icmp_replies [of req "tx_buf s" "eth_src eth" our_mac "ip_src ip" our_ip])
      (use assms e i len in \<open>simp_all add: ICMP_ECHO_REQUEST_def\<close>)
  define hdr where "hdr = ip_header_bytes our_ip (ip_src ip) PROTO_ICMP (of_nat (20 + length req)) ck"
  define reply where "reply = echo_reply req (to_be_bytes c)"
  have lens: "length hdr = 20" "length reply = length req" "length ETHERTYPE_IPV4 = 2"
    using assms(5) i(1) ck len by (simp_all add: hdr_def length_ip_header_bytes reply_def echo_reply_def
        ETHERTYPE_IPV4_def)
  let ?frame = "eth_src eth @ our_mac @ ETHERTYPE_IPV4 @ hdr @ reply"
  have "ETHERTYPE_IPV4 \<noteq> ETHERTYPE_ARP" by (simp add: ETHERTYPE_ARP_def ETHERTYPE_IPV4_def)
  then obtain s' where step: "net_rx_step our_mac our_ip s (RecvOk buf n) = Some (Some ?frame, s')"
    using assms e(1) lens len h [folded hdr_def reply_def] by (simp add: MAX_FRAME_def)
  have "ipv4_parse (hdr @ reply) = Some (Some (\<lparr>ip_src = our_ip, ip_dst = ip_src ip,
      protocol = PROTO_ICMP, total_len = of_nat (IPV4_HEADER_LEN + length req)\<rparr>, reply))"
    unfolding hdr_def lens(2) [symmetric] IPV4_HEADER_LEN_def
    by (rule ipv4_parse_build) (use assms(5) i(1) ck len lens in auto)
  moreover have "take 2 reply = [ICMP_ECHO_REPLY, 0]" "drop 4 reply = drop 4 req"
    by (simp_all add: reply_def echo_reply_def)
  moreover have "take IPV4_HEADER_LEN (hdr @ reply) = hdr" using lens by (simp add: net_lens)
  ultimately show ?thesis
    using step eth_parse_build [OF e(1) assms(4) lens(3), of "hdr @ reply"] lens(2)
      sum [folded hdr_def reply_def]
    by (intro exI [of _ ?frame] exI [of _ s'] exI [of _ "hdr @ reply"] exI [of _ reply] conjI) simp_all
qed

definition ping_frame :: "u8 list" where
  "ping_frame =
     [2, 0, 0, 0, 0, 1, 2, 0, 0, 0, 0, 2, 8, 0,
      0x45, 0, 0, 32, 0, 0, 0x40, 0, 64, 1, 0, 0, 10, 0, 0, 1, 10, 0, 0, 2,
      8, 0, 0, 0, 0, 1, 0, 1, 112, 105, 110, 103] @ replicate 1472 0"

lemma ping_frame_parses:
  "length ping_frame = MAX_FRAME" "46 \<le> MAX_FRAME"
  "eth_parse (take 46 ping_frame) = Some (Some (\<lparr>eth_dst = [2, 0, 0, 0, 0, 1],
     eth_src = [2, 0, 0, 0, 0, 2], ethertype = ETHERTYPE_IPV4\<rparr>,
     [0x45, 0, 0, 32, 0, 0, 0x40, 0, 64, 1, 0, 0, 10, 0, 0, 1, 10, 0, 0, 2,
      8, 0, 0, 0, 0, 1, 0, 1, 112, 105, 110, 103]))"
  "ipv4_parse [0x45, 0, 0, 32, 0, 0, 0x40, 0, 64, 1, 0, 0, 10, 0, 0, 1, 10, 0, 0, 2,
      8, 0, 0, 0, 0, 1, 0, 1, 112, 105, 110, 103] = Some (Some (\<lparr>ip_src = [10, 0, 0, 1],
      ip_dst = [10, 0, 0, 2], protocol = PROTO_ICMP, total_len = 32\<rparr>,
      [8, 0, 0, 0, 0, 1, 0, 1, 112, 105, 110, 103]))"
  by (simp_all add: ping_frame_def MAX_FRAME_def eth_parse_def ipv4_parse_def net_lens try_array_def
      ETHERTYPE_IPV4_def from_be_bytes_def PROTO_ICMP_def)

theorem icmp_echo_answered_witness:
  "\<exists>frame s' packet' reply.
    net_rx_step [2, 0, 0, 0, 0, 1] [10, 0, 0, 2] net_init (RecvOk ping_frame 46) = Some (Some frame, s') \<and>
    eth_parse frame = Some (Some (\<lparr>eth_dst = [2, 0, 0, 0, 0, 2], eth_src = [2, 0, 0, 0, 0, 1],
      ethertype = ETHERTYPE_IPV4\<rparr>, packet')) \<and>
    ipv4_parse packet' = Some (Some (\<lparr>ip_src = [10, 0, 0, 2], ip_dst = [10, 0, 0, 1],
      protocol = PROTO_ICMP, total_len = 32\<rparr>, reply)) \<and>
    internet_checksum reply = Some 0 \<and> length reply = 12 \<and> drop 4 reply = [0, 1, 0, 1, 112, 105, 110, 103]"
proof -
  have "net_inv net_init" by (simp add: net_inv_def net_init_def arp_inv_new)
  from icmp_echo_answered [OF this ping_frame_parses(1,2) _ _ ping_frame_parses(3) _ ping_frame_parses(4),
      of "[2, 0, 0, 0, 0, 1]" "[10, 0, 0, 2]"]
  show ?thesis
    by (auto simp: net_lens ICMP_ECHO_REQUEST_def simp del: net_rx_step.simps)
qed

theorem net_rx_never_panics_witness:
  "list_all recv_ok [RecvErr ping_frame, RecvOk ping_frame 46, RecvOk ping_frame 13] \<and>
   (\<exists>outs s. net_rx_loop [2, 0, 0, 0, 0, 1] \<lparr>cfg_ip = [10, 0, 0, 2], cfg_netmask = [255, 0, 0, 0],
      cfg_gateway = [10, 0, 0, 1]\<rparr> [RecvErr ping_frame, RecvOk ping_frame 46, RecvOk ping_frame 13]
      = Some (outs, s) \<and> sum_list (map length outs) \<le> 59)"
proof -
  have ok: "list_all recv_ok [RecvErr ping_frame, RecvOk ping_frame 46, RecvOk ping_frame 13]"
    using ping_frame_parses(1) by (simp add: MAX_FRAME_def)
  from net_rx_never_panics [OF this, of "[2, 0, 0, 0, 0, 1]" "\<lparr>cfg_ip = [10, 0, 0, 2],
      cfg_netmask = [255, 0, 0, 0], cfg_gateway = [10, 0, 0, 1]\<rparr>"] ok
  show ?thesis by auto
qed

text \<open>
  C30: An ARP request for our address is answered and its sender learned: the reply parses, with the
  same parsers, as an Ethernet frame to the sender and an ARP reply that maps our address to our MAC
  and names the sender as its target. The table then maps the sender's address to its MAC and to
  nothing else, and at most one slot changed: the one that held this address, or else the next slot
  in turn.
\<close>

theorem arp_request_answered:
  assumes "arp_inv t" "length our_mac = 6" "length our_ip = 4" "42 \<le> length buf" "length buf < 2 ^ 63"
    and "arp_parse payload = Some (Some pkt)" "oper pkt = ARP_OP_REQUEST" "tpa pkt = our_ip"
  shows "\<exists>t' buf' packet i. handle_arp t our_ip our_mac payload buf = Some (Some 42, t', buf') \<and>
    eth_parse (take 42 buf') = Some (Some (\<lparr>eth_dst = sha pkt, eth_src = our_mac,
      ethertype = ETHERTYPE_ARP\<rparr>, packet)) \<and>
    arp_parse packet = Some (Some \<lparr>htype = 1, ptype = 0x0800, hlen = 6, plen = 4, oper = ARP_OP_REPLY,
      sha = our_mac, spa = our_ip, tha = sha pkt, tpa = spa pkt\<rparr>) \<and>
    arp_inv t' \<and> i < ARP_TABLE_SIZE \<and>
    entries t' = (entries t)[i := Some \<lparr>entry_ip = spa pkt, entry_mac = sha pkt\<rparr>] \<and>
    ((\<exists>e. entries t ! i = Some e \<and> entry_ip e = spa pkt) \<or> i = next_slot t)"
proof -
  have lens: "length (sha pkt) = 6" "length (spa pkt) = 4" "length ETHERTYPE_ARP = 2"
    using assms(6) by (cases rule: arp_parse_cases [of payload], auto simp: ETHERTYPE_ARP_def)+
  obtain i t' where l: "i < 16" "arp_learn t (spa pkt) (sha pkt) = Some t'" "arp_inv t'"
    "entries t' = (entries t)[i := Some \<lparr>entry_ip = spa pkt, entry_mac = sha pkt\<rparr>]"
    "(\<exists>e. entries t ! i = Some e \<and> entry_ip e = spa pkt) \<or> i = next_slot t"
    by (rule arp_learn_spec [OF assms(1)])
  define reply where "reply = arp_reply_bytes our_mac our_ip (sha pkt) (spa pkt)"
  have r: "arp_parse reply = Some (Some \<lparr>htype = 1, ptype = 0x0800, hlen = 6, plen = 4,
      oper = ARP_OP_REPLY, sha = our_mac, spa = our_ip, tha = sha pkt, tpa = spa pkt\<rparr>)"
    using arp_parse_reply [OF assms(2,3) lens(1,2), of "[]"] by (simp add: reply_def)
  let ?buf = "(sha pkt @ our_mac @ ETHERTYPE_ARP @ reply) @ drop 42 buf"
  have "handle_arp t our_ip our_mac payload buf = Some (Some 42, t', ?buf)"
    unfolding reply_def by (rule handle_arp_replies [OF assms(6) lens(1,2) assms(7,8) l(2) assms(2,3,5,4)])
  moreover have "take 42 ?buf = sha pkt @ our_mac @ ETHERTYPE_ARP @ reply"
    using assms(2,3) lens by (simp add: reply_def arp_reply_bytes_def)
  ultimately show ?thesis
    using eth_parse_build [OF lens(1) assms(2) lens(3), of reply] r l
    by (intro exI [of _ t'] exI [of _ ?buf] exI [of _ reply] exI [of _ i] conjI)
      (simp_all add: ARP_TABLE_SIZE_def)
qed

lemma arp_request_parses:
  "arp_parse [0, 1, 8, 0, 6, 4, 0, 1, 2, 0, 0, 0, 0, 2, 192, 168, 1, 20, 0, 0, 0, 0, 0, 0, 192, 168, 1, 10] =
   Some (Some \<lparr>htype = 1, ptype = 0x0800, hlen = 6, plen = 4, oper = ARP_OP_REQUEST,
     sha = [2, 0, 0, 0, 0, 2], spa = [192, 168, 1, 20], tha = [0, 0, 0, 0, 0, 0], tpa = [192, 168, 1, 10]\<rparr>)"
  by (simp add: arp_parse_def net_lens be_at_def from_be_bytes_def try_array_def ARP_OP_REQUEST_def)

theorem arp_request_answered_witness:
  "\<exists>t' buf' packet i. handle_arp arp_table_new [192, 168, 1, 10] [2, 0, 0, 0, 0, 1]
      [0, 1, 8, 0, 6, 4, 0, 1, 2, 0, 0, 0, 0, 2, 192, 168, 1, 20, 0, 0, 0, 0, 0, 0, 192, 168, 1, 10]
      (replicate 128 0) = Some (Some 42, t', buf') \<and>
    eth_parse (take 42 buf') = Some (Some (\<lparr>eth_dst = [2, 0, 0, 0, 0, 2], eth_src = [2, 0, 0, 0, 0, 1],
      ethertype = ETHERTYPE_ARP\<rparr>, packet)) \<and> i < ARP_TABLE_SIZE \<and>
    entries t' = (entries arp_table_new)[i := Some \<lparr>entry_ip = [192, 168, 1, 20], entry_mac = [2, 0, 0, 0, 0, 2]\<rparr>]"
  using arp_request_answered [OF arp_inv_new _ _ _ _ arp_request_parses,
      of "[2, 0, 0, 0, 0, 1]" "[192, 168, 1, 10]" "replicate 128 0"]
  by auto

end
