(* ===== verification/Lock_Order.thy ===== *)
theory Lock_Order
  imports Lockdep
begin

text \<open>
  What the lock-order checker promises. The abstract checker \<open>order_run\<close> keeps, per CPU, the list of
  classes held and one relation, the order in which classes were acquired while others were held; it
  accepts an acquisition if the relation stays acyclic. The lemmas relate the hooks of \<open>Lockdep\<close> to
  it: a run that does not panic respects one acyclic order, a run that respects an order does not
  panic, and the bounded stack of the search limits both to graphs of fewer than 256 edges.
\<close>

section \<open>The abstract checker\<close>

record order_checker =
  lock_order :: "(nat \<times> nat) set"
  holding :: "nat \<Rightarrow> nat list"

definition remove_last :: "'a \<Rightarrow> 'a list \<Rightarrow> 'a list" where
  "remove_last x xs = rev (remove1 x (rev xs))"

definition order_acquire :: "nat \<Rightarrow> nat \<Rightarrow> order_checker \<Rightarrow> order_checker option" where
  "order_acquire cpu c a =
     (let r = lock_order a \<union> {(h, c) | h. h \<in> set (holding a cpu) \<and> h \<noteq> c};
          hs = (if length (holding a cpu) < 32 then holding a cpu @ [c] else holding a cpu)
      in if acyclic r then Some (a\<lparr>lock_order := r, holding := (holding a)(cpu := hs)\<rparr>) else None)"

definition order_release :: "nat \<Rightarrow> nat \<Rightarrow> order_checker \<Rightarrow> order_checker" where
  "order_release cpu c a = a\<lparr>holding := (holding a)(cpu := remove_last c (holding a cpu))\<rparr>"

text \<open>The calls of the hooks, by the CPU that makes them.\<close>

datatype lock_event = Acquired nat bool lock_class_id | Released nat lock_class_id

fun order_run :: "lock_event list \<Rightarrow> order_checker \<Rightarrow> order_checker option" where
  "order_run [] a = Some a"
| "order_run (Acquired cpu irq c # es) a = do { a \<leftarrow> order_acquire cpu (unat c) a; order_run es a }"
| "order_run (Released cpu c # es) a = order_run es (order_release cpu (unat c) a)"

fun lockdep_run :: "lock_event list \<Rightarrow> lockdep \<Rightarrow> lockdep option" where
  "lockdep_run [] s = Some s"
| "lockdep_run (Acquired cpu irq c # es) s =
     do { s \<leftarrow> lock_acquired cpu False irq c s; lockdep_run es s }"
| "lockdep_run (Released cpu c # es) s =
     do { s \<leftarrow> lock_released cpu False c s; lockdep_run es s }"

fun event_class :: "lock_event \<Rightarrow> lock_class_id" where
  "event_class (Acquired cpu irq c) = c"
| "event_class (Released cpu c) = c"

section \<open>The held-lock stack\<close>

definition held_list :: "held_locks \<Rightarrow> lock_class_id list" where
  "held_list h = take (held_depth h) (held_stack h)"

definition held_wf :: "held_locks \<Rightarrow> bool" where
  "held_wf h \<longleftrightarrow> length (held_stack h) = 32 \<and> held_depth h \<le> 32"

lemma held_push_spec:
  assumes "held_wf h"
  obtains h' where "held_push h c = Some h'" "held_wf h'"
    "held_list h' = (if length (held_list h) < 32 then held_list h @ [c] else held_list h)"
proof (cases "held_depth h < 32")
  case True
  then show ?thesis
    using that [of "h\<lparr>held_stack := (held_stack h)[held_depth h := c], held_depth := held_depth h + 1\<rparr>"] assms
    by (simp add: held_push_def held_wf_def held_list_def MAX_HELD_def take_Suc_conv_app_nth)
next
  case False
  then show ?thesis using that [of h] assms by (simp add: held_push_def held_wf_def held_list_def MAX_HELD_def)
qed

lemma held_find_spec:
  assumes "d \<le> length st"
  shows "(held_find st d c = Some None \<and> c \<notin> set (take d st)) \<or>
    (\<exists>i < d. held_find st d c = Some (Some i) \<and> st ! i = c \<and> c \<notin> set (drop (Suc i) (take d st)))"
  using assms
proof (induction d)
  case (Suc d)
  show ?case
  proof (cases "st ! d = c")
    case True
    then show ?thesis using Suc(2) by (intro disjI2 exI [of _ d]) simp
  next
    case False
    have t: "take (Suc d) st = take d st @ [st ! d]" using Suc(2) by (simp add: take_Suc_conv_app_nth)
    have "drop (Suc i) (take (Suc d) st) = drop (Suc i) (take d st) @ [st ! d]" if "i < d" for i
      unfolding t using that Suc(2) by simp
    then show ?thesis using Suc False t by (auto simp: less_Suc_eq)
  qed
qed simp

lemma held_shift_spec:
  assumes "j < d" "d \<le> length st"
  obtains st' where "held_shift st j d = Some st'" "length st' = length st"
    "take (d - 1) st' = take j st @ drop (Suc j) (take d st)"
proof -
  have "\<exists>st'. held_shift st j d = Some st' \<and> length st' = length st \<and>
    take (d - 1) st' = take j st @ drop (Suc j) (take d st)"
    using assms
  proof (induction st j d rule: held_shift.induct)
    case (1 st j d)
    show ?case
    proof (cases "j + 1 < d")
      case True
      let ?st = "st[j := st ! (j + 1)]"
      have step: "held_shift st j d = held_shift ?st (j + 1) d"
        using True 1(3) by (subst held_shift.simps) simp
      have "take (j + 1) ?st = take j st @ [st ! (j + 1)]"
        using True 1(3) by (simp add: take_Suc_conv_app_nth)
      moreover have "drop (Suc (j + 1)) (take d ?st) = drop (Suc (j + 1)) (take d st)"
        by (simp add: drop_take)
      moreover have "drop (Suc j) (take d st) = st ! (j + 1) # drop (Suc (j + 1)) (take d st)"
        using True 1(3) by (simp add: Cons_nth_drop_Suc [symmetric])
      ultimately show ?thesis using 1(1) [of "st ! (j + 1)" ?st] True 1(3) step by simp
    next
      case False
      then have "d = Suc j" using 1(2) by simp
      then show ?thesis by (subst held_shift.simps) simp
    qed
  qed
  then show ?thesis using that by blast
qed

lemma remove_last_at:
  assumes "i < length xs" "xs ! i = c" "c \<notin> set (drop (Suc i) xs)"
  shows "remove_last c xs = take i xs @ drop (Suc i) xs"
proof -
  have "xs = take i xs @ c # drop (Suc i) xs"
    using id_take_nth_drop [OF assms(1)] assms(2) by simp
  from arg_cong [OF this, of rev] have "rev xs = rev (drop (Suc i) xs) @ c # rev (take i xs)" by simp
  then show ?thesis using assms(3) by (simp add: remove_last_def remove1_append)
qed

lemma held_pop_spec:
  assumes "held_wf h"
  obtains r h' where "held_pop h c = Some (r, h')" "held_wf h'" "held_list h' = remove_last c (held_list h)"
proof -
  have len: "held_depth h \<le> length (held_stack h)" using assms by (simp add: held_wf_def)
  from held_find_spec [OF len, of c] consider
    (none) "held_find (held_stack h) (held_depth h) c = Some None" "c \<notin> set (held_list h)"
    | (some) i where "i < held_depth h" "held_find (held_stack h) (held_depth h) c = Some (Some i)"
      "held_stack h ! i = c" "c \<notin> set (drop (Suc i) (held_list h))"
    unfolding held_list_def by blast
  then show ?thesis
  proof cases
    case none
    then show ?thesis using that [of None h] assms by (simp add: held_pop_def remove_last_def remove1_idem)
  next
    case some
    obtain st' where st: "held_shift (held_stack h) i (held_depth h) = Some st'"
      "length st' = length (held_stack h)"
      "take (held_depth h - 1) st' = take i (held_stack h) @ drop (Suc i) (held_list h)"
      using held_shift_spec [OF some(1) len] unfolding held_list_def .
    have "remove_last c (held_list h) = take i (held_list h) @ drop (Suc i) (held_list h)"
      by (rule remove_last_at) (use some len in \<open>simp_all add: held_list_def\<close>)
    moreover have "take i (held_list h) = take i (held_stack h)" using some(1) by (simp add: held_list_def)
    moreover have "held_depth h - 1 \<le> 32" using assms unfolding held_wf_def by linarith
    ultimately show ?thesis
      using that [of "Some (held_stack h ! i)" "h\<lparr>held_stack := st', held_depth := held_depth h - 1\<rparr>"]
        some st assms len
      by (simp add: held_pop_def held_wf_def) (simp add: held_list_def)
  qed
qed

section \<open>One hook\<close>

definition lockdep_ok :: "lockdep \<Rightarrow> bool" where
  "lockdep_ok s \<longleftrightarrow> lockdep_wf s \<and> (\<forall>cpu. held_wf (held_by s cpu) \<and> \<not> in_lockdep s cpu \<and>
     (\<forall>h \<in> set (held_list (held_by s cpu)). registered s h))"

definition lockdep_abs :: "lockdep \<Rightarrow> order_checker" where
  "lockdep_abs s = \<lparr>lock_order = deps s, holding = (\<lambda>cpu. map unat (held_list (held_by s cpu)))\<rparr>"

lemma new_edges_abs:
  "new_edges c hs = {(h, unat c) | h. h \<in> set (map unat hs) \<and> h \<noteq> unat c}"
  by (auto simp: new_edges_def word_unat_eq_iff)

lemma unat_inj: "inj (unat :: 'a::len word \<Rightarrow> nat)"
  by (auto intro: injI simp: word_unat_eq_iff)

lemma remove1_map: "inj f \<Longrightarrow> remove1 (f x) (map f xs) = map f (remove1 x xs)"
  by (induction xs) (auto dest: injD)

lemma remove_last_map: "inj f \<Longrightarrow> remove_last (f x) (map f xs) = map f (remove_last x xs)"
  by (simp add: remove_last_def remove1_map rev_map [symmetric] del: rev_map) (simp add: rev_map remove1_map)

text \<open>The state in which \<^const>\<open>lock_acquired\<close> records edges: guarded, with the usage bit set.\<close>

definition entered :: "nat \<Rightarrow> bool \<Rightarrow> lock_class_id \<Rightarrow> lockdep \<Rightarrow> lockdep" where
  "entered cpu irq c s = s\<lparr>in_lockdep := (in_lockdep s)(cpu := True),
     lock_classes := (lock_classes s)[unat c := (lock_classes s ! unat c)\<lparr>irq_usage :=
       irq_usage (lock_classes s ! unat c) OR (if irq then IRQ_USED_IN_IRQ else IRQ_USED_IN_NON_IRQ)\<rparr>]\<rparr>"

lemma entered_simps [simp]:
  "deps (entered cpu irq c s) = deps s" "held_by (entered cpu irq c s) = held_by s"
  "class_count (entered cpu irq c s) = class_count s" "registered (entered cpu irq c s) = registered s"
  "lockdep_wf (entered cpu irq c s) = lockdep_wf s"
  "in_lockdep (entered cpu irq c s) = (in_lockdep s)(cpu := True)"
  by (simp_all add: entered_def deps_def edge_def registered_def lockdep_wf_def fun_eq_iff)

lemma levels_entered: "map lock_level (lock_classes (entered cpu irq c s)) = map lock_level (lock_classes s)"
  by (cases "unat c < length (lock_classes s)")
    (simp_all add: entered_def map_update list_update_same_conv list_update_beyond)

lemma lock_acquired_eq:
  fixes cpu :: nat and irq :: bool
  assumes "lockdep_ok s" "registered s c"
  defines "e \<equiv> lock_classes s ! unat c" and "s1 \<equiv> entered cpu irq c s" and "hs \<equiv> held_list (held_by s cpu)"
  shows "lock_acquired cpu False irq c s =
    (if irq \<and> irq_usage e AND IRQ_USED_IN_NON_IRQ \<noteq> 0 \<and> lock_kind_of e \<noteq> IrqSpinLock then None
     else do {
       _ \<leftarrow> (if 0 < lock_level e then level_check s1 c (lock_level e) hs else Some ());
       s2 \<leftarrow> record_edges c hs s1;
       h \<leftarrow> held_push (held_by s2 cpu) c;
       Some (s2\<lparr>held_by := (held_by s2)(cpu := h), in_lockdep := (in_lockdep s2)(cpu := False)\<rparr>) })"
proof -
  have c: "c \<noteq> CLASS_NONE" "unat c < 256" using assms(1,2) registered_less by (auto simp: lockdep_ok_def)
  have h: "held_depth (held_by s cpu) \<le> length (held_stack (held_by s cpu))"
    using assms(1) by (auto simp: lockdep_ok_def held_wf_def)
  show ?thesis
    using assms(1) c h unfolding lock_acquired_def lockdep_ok_def lockdep_wf_def
    by (simp add: class_index_def e_def s1_def hs_def entered_def held_list_def Let_def)
qed

text \<open>The abstract state after an acquisition, accepted or not.\<close>

definition order_after :: "nat \<Rightarrow> nat \<Rightarrow> order_checker \<Rightarrow> order_checker" where
  "order_after cpu c a = a\<lparr>lock_order := lock_order a \<union> {(h, c) | h. h \<in> set (holding a cpu) \<and> h \<noteq> c},
     holding := (holding a)(cpu :=
       (if length (holding a cpu) < 32 then holding a cpu @ [c] else holding a cpu))\<rparr>"

lemma order_acquire_eq:
  "order_acquire cpu c a = (let a' = order_after cpu c a in if acyclic (lock_order a') then Some a' else None)"
  by (simp add: order_acquire_def order_after_def Let_def)

lemma finish_acquired:
  assumes "lockdep_ok s" "registered s c" "record_edges c (held_list (held_by s cpu)) (entered cpu irq c s) = Some s2"
  obtains h where "held_push (held_by s2 cpu) c = Some h"
    "lockdep_ok (s2\<lparr>held_by := (held_by s2)(cpu := h), in_lockdep := (in_lockdep s2)(cpu := False)\<rparr>)"
    "lockdep_abs (s2\<lparr>held_by := (held_by s2)(cpu := h), in_lockdep := (in_lockdep s2)(cpu := False)\<rparr>)
       = order_after cpu (unat c) (lockdep_abs s)"
    "class_count s2 = class_count s" "map lock_level (lock_classes s2) = map lock_level (lock_classes s)"
proof -
  let ?hs = "held_list (held_by s cpu)"
  have wf: "lockdep_wf s" and hs: "\<forall>h \<in> set ?hs. registered s h" "held_wf (held_by s cpu)"
    using assms(1) by (auto simp: lockdep_ok_def)
  have s2: "lockdep_wf s2" "same_locks (entered cpu irq c s) s2" "deps s2 = deps s \<union> new_edges c ?hs"
    using record_edges_deps [OF assms(3)] wf assms(2) hs(1) by simp_all
  then have f: "held_by s2 = held_by s" "class_count s2 = class_count s" "registered s2 = registered s"
    "in_lockdep s2 = (in_lockdep s)(cpu := True)"
    "map lock_level (lock_classes s2) = map lock_level (lock_classes s)"
    by (simp_all add: same_locks_def registered_def fun_eq_iff levels_entered)
  obtain h where h: "held_push (held_by s cpu) c = Some h" "held_wf h"
    "held_list h = (if length ?hs < 32 then ?hs @ [c] else ?hs)"
    using held_push_spec [OF hs(2)] .
  let ?s = "s2\<lparr>held_by := (held_by s2)(cpu := h), in_lockdep := (in_lockdep s2)(cpu := False)\<rparr>"
  have same: "deps ?s = deps s2" "registered ?s = registered s" "lockdep_wf ?s"
    using s2(1) f by (simp_all add: deps_def edge_def registered_def fun_eq_iff lockdep_wf_def)
  have "lockdep_ok ?s"
    using assms(1,2) same h f unfolding lockdep_ok_def by auto
  moreover have "lockdep_abs ?s = order_after cpu (unat c) (lockdep_abs s)"
    unfolding lockdep_abs_def order_after_def same(1) s2(3) new_edges_abs
    by (simp add: f(1) h(3) fun_eq_iff)
  ultimately show ?thesis using that h(1) f by simp
qed

lemma lock_acquired_sound:
  assumes "lock_acquired cpu False irq c s = Some s'" "lockdep_ok s" "registered s c"
  shows "lockdep_ok s' \<and> lockdep_abs s' = order_after cpu (unat c) (lockdep_abs s) \<and>
    class_count s' = class_count s \<and> map lock_level (lock_classes s') = map lock_level (lock_classes s) \<and>
    (acyclic (deps s) \<longrightarrow> card (deps s') < 256 \<longrightarrow> acyclic (deps s'))"
proof -
  let ?hs = "held_list (held_by s cpu)" and ?s1 = "entered cpu irq c s"
  obtain s2 where s2: "record_edges c ?hs ?s1 = Some s2"
    and s': "do { h \<leftarrow> held_push (held_by s2 cpu) c;
       Some (s2\<lparr>held_by := (held_by s2)(cpu := h), in_lockdep := (in_lockdep s2)(cpu := False)\<rparr>) } = Some s'"
    using assms(1) lock_acquired_eq [OF assms(2,3)] by (auto simp: bind_eq_Some_conv split: if_splits)
  obtain h where h: "held_push (held_by s2 cpu) c = Some h"
    "lockdep_ok (s2\<lparr>held_by := (held_by s2)(cpu := h), in_lockdep := (in_lockdep s2)(cpu := False)\<rparr>)"
    "lockdep_abs (s2\<lparr>held_by := (held_by s2)(cpu := h), in_lockdep := (in_lockdep s2)(cpu := False)\<rparr>)
       = order_after cpu (unat c) (lockdep_abs s)"
    "class_count s2 = class_count s" "map lock_level (lock_classes s2) = map lock_level (lock_classes s)"
    using finish_acquired [OF assms(2,3) s2] .
  have e: "s' = s2\<lparr>held_by := (held_by s2)(cpu := h), in_lockdep := (in_lockdep s2)(cpu := False)\<rparr>"
    using s' h(1) by simp
  have hs: "lockdep_wf s" "\<forall>h \<in> set ?hs. registered s h" using assms(2) by (auto simp: lockdep_ok_def)
  have d: "deps s' = deps s \<union> new_edges c ?hs"
    using arg_cong [OF h(3), of lock_order] unfolding e
    by (simp add: lockdep_abs_def order_after_def new_edges_abs)
  have "acyclic (deps s')" if "acyclic (deps s)" "card (deps s') < 256"
    using record_edges_exact [of ?s1 c ?hs] hs assms(3) that s2 d by simp
  then show ?thesis using h e by simp
qed

lemma lock_acquired_complete:
  assumes "lockdep_ok s" "registered s c" "lock_level (lock_classes s ! unat c) = 0" "acyclic (deps s)"
    and "acyclic (lock_order (order_after cpu (unat c) (lockdep_abs s)))"
    and "card (lock_order (order_after cpu (unat c) (lockdep_abs s))) < 256"
  obtains s' where "lock_acquired cpu False False c s = Some s'"
proof -
  let ?hs = "held_list (held_by s cpu)" and ?s1 = "entered cpu False c s"
  have hs: "lockdep_wf s" "\<forall>h \<in> set ?hs. registered s h" using assms(1) by (auto simp: lockdep_ok_def)
  have N: "lock_order (order_after cpu (unat c) (lockdep_abs s)) = deps s \<union> new_edges c ?hs"
    by (simp add: order_after_def lockdep_abs_def new_edges_abs)
  obtain s2 where s2: "record_edges c ?hs ?s1 = Some s2"
    using record_edges_exact [of ?s1 c ?hs] hs assms(2,4-6) N by auto
  obtain h where "held_push (held_by s2 cpu) c = Some h"
    using finish_acquired [OF assms(1,2) s2] by metis
  then show ?thesis
    using that lock_acquired_eq [OF assms(1,2), of cpu False] assms(3) s2 by simp
qed

lemma lock_released_spec:
  assumes "lockdep_ok s" "registered s c"
  obtains s' where "lock_released cpu False c s = Some s'" "lockdep_ok s'"
    "lockdep_abs s' = order_release cpu (unat c) (lockdep_abs s)" "class_count s' = class_count s"
    "lock_classes s' = lock_classes s" "deps s' = deps s"
proof -
  have c: "c \<noteq> CLASS_NONE" using assms registered_less by (auto simp: lockdep_ok_def)
  have wf: "held_wf (held_by s cpu)" "\<not> in_lockdep s cpu" using assms(1) by (auto simp: lockdep_ok_def)
  obtain r h where h: "held_pop (held_by s cpu) c = Some (r, h)" "held_wf h"
    "held_list h = remove_last c (held_list (held_by s cpu))"
    using held_pop_spec [OF wf(1)] .
  define s' where "s' = s\<lparr>held_by := (held_by s)(cpu := h), in_lockdep := in_lockdep s\<rparr>"
  have "lock_released cpu False c s = Some s'"
    using c wf(2) h(1) by (simp add: lock_released_def s'_def fun_upd_idem Let_def)
  moreover have d: "deps s' = deps s" "registered s' = registered s" "lockdep_wf s' = lockdep_wf s"
    by (simp_all add: s'_def deps_def edge_def registered_def lockdep_wf_def fun_eq_iff)
  moreover have "set (held_list h) \<subseteq> set (held_list (held_by s cpu))"
    unfolding h(3) remove_last_def using set_remove1_subset by fastforce
  then have "lockdep_ok s'"
    using assms(1) d h(2) unfolding lockdep_ok_def by (auto simp: s'_def)
  moreover have "lockdep_abs s' = order_release cpu (unat c) (lockdep_abs s)"
    using d(1) h(3) remove_last_map [of unat c] unat_inj
    by (simp add: lockdep_abs_def order_release_def s'_def fun_eq_iff)
  ultimately show ?thesis using that by (simp add: s'_def)
qed

section \<open>Runs\<close>

lemma finite_card_mono: "deps s \<subseteq> deps s' \<Longrightarrow> card (deps s') < 256 \<Longrightarrow> card (deps s) < 256"
  using card_mono [OF finite_deps, of "deps s" s'] by simp

lemma lockdep_run_deps:
  assumes "lockdep_run es s = Some s'" "lockdep_ok s" "\<forall>e \<in> set es. registered s (event_class e)"
  shows "deps s \<subseteq> deps s'"
  using assms
proof (induction es arbitrary: s)
  case (Cons e es)
  show ?case
  proof (cases e)
    case (Acquired cpu irq c)
    then obtain s1 where s1: "lock_acquired cpu False irq c s = Some s1" "lockdep_run es s1 = Some s'"
      using Cons(2) by (auto simp: bind_eq_Some_conv)
    note a = lock_acquired_sound [OF s1(1) Cons(3)]
    have r: "registered s1 = registered s" using a Cons(4) Acquired by (simp add: registered_def fun_eq_iff)
    have "deps s \<subseteq> lock_order (lockdep_abs s1)"
      using a Cons(4) Acquired by (simp add: order_after_def lockdep_abs_def)
    then show ?thesis using Cons(1) [OF s1(2)] a Cons(4) Acquired r by (auto simp: lockdep_abs_def)
  next
    case (Released cpu c)
    then have c: "registered s c" using Cons(4) by simp
    obtain s1 where s1: "lock_released cpu False c s = Some s1" "lockdep_ok s1"
      "lockdep_abs s1 = order_release cpu (unat c) (lockdep_abs s)" "class_count s1 = class_count s"
      "lock_classes s1 = lock_classes s" "deps s1 = deps s"
      using lock_released_spec [OF Cons(3) c] .
    then show ?thesis
      using Cons(1) [of s1] Cons(2,4) Released by (simp add: registered_def)
  qed
qed simp

lemma lockdep_run_sound:
  assumes "lockdep_run es s = Some s'" "lockdep_ok s" "\<forall>e \<in> set es. registered s (event_class e)"
    and "acyclic (deps s)" "card (deps s') < 256"
  shows "order_run es (lockdep_abs s) = Some (lockdep_abs s') \<and> acyclic (deps s') \<and> lockdep_ok s'"
  using assms(1-4)
proof (induction es arbitrary: s)
  case (Cons e es)
  show ?case
  proof (cases e)
    case (Acquired cpu irq c)
    then obtain s1 where s1: "lock_acquired cpu False irq c s = Some s1" "lockdep_run es s1 = Some s'"
      using Cons(2) by (auto simp: bind_eq_Some_conv)
    have a: "lockdep_ok s1" "lockdep_abs s1 = order_after cpu (unat c) (lockdep_abs s)"
      "class_count s1 = class_count s" "card (deps s1) < 256 \<Longrightarrow> acyclic (deps s1)"
      using lock_acquired_sound [OF s1(1) Cons(3)] Cons(4,5) Acquired by auto
    have r: "\<forall>e \<in> set es. registered s1 (event_class e)"
      using a(3) Cons(4) by (simp add: registered_def)
    have ac: "acyclic (deps s1)"
      using lockdep_run_deps [OF s1(2) a(1) r] finite_card_mono assms(5) by (intro a(4)) blast
    then have "order_acquire cpu (unat c) (lockdep_abs s) = Some (lockdep_abs s1)"
      unfolding order_acquire_eq a(2) [symmetric] by (simp add: lockdep_abs_def)
    then show ?thesis using Cons(1) [OF s1(2) a(1) r ac] Acquired by simp
  next
    case (Released cpu c)
    then have c: "registered s c" using Cons(4) by simp
    obtain s1 where s1: "lock_released cpu False c s = Some s1" "lockdep_ok s1"
      "lockdep_abs s1 = order_release cpu (unat c) (lockdep_abs s)" "class_count s1 = class_count s"
      "lock_classes s1 = lock_classes s" "deps s1 = deps s"
      using lock_released_spec [OF Cons(3) c] .
    then show ?thesis
      using Cons(1) [of s1] Cons(2,4,5) Released by (simp add: registered_def)
  qed
qed simp

lemma order_run_mono: "order_run es a = Some a' \<Longrightarrow> lock_order a \<subseteq> lock_order a'"
proof (induction es a rule: order_run.induct)
  case (2 cpu irq c es a)
  then obtain a1 where a1: "order_acquire cpu (unat c) a = Some a1" "order_run es a1 = Some a'"
    by (auto simp: bind_eq_Some_conv)
  then have "lock_order a \<subseteq> lock_order a1"
    by (auto simp: order_acquire_eq order_after_def Let_def split: if_splits)
  then show ?case using 2(1) [OF a1] by blast
next
  case (3 cpu c es a)
  then show ?case by (simp add: order_release_def)
qed simp

fun outside_irq :: "lock_event \<Rightarrow> bool" where
  "outside_irq (Acquired cpu irq c) = (\<not> irq)"
| "outside_irq (Released cpu c) = True"

lemma lockdep_run_complete:
  assumes "order_run es (lockdep_abs s) = Some a'" "lockdep_ok s" "\<forall>e \<in> set es. registered s (event_class e)"
    and "acyclic (deps s)" "finite (lock_order a')" "card (lock_order a') < 256"
    and "list_all outside_irq es" "set (map lock_level (lock_classes s)) \<subseteq> {0}"
  shows "\<exists>s'. lockdep_run es s = Some s' \<and> lockdep_abs s' = a'"
  using assms(1-4,7,8)
proof (induction es arbitrary: s)
  case (Cons e es)
  show ?case
  proof (cases e)
    case (Acquired cpu irq c)
    let ?a = "order_after cpu (unat c) (lockdep_abs s)"
    have c: "registered s c" using Cons(4) Acquired by simp
    have ac: "acyclic (lock_order ?a)" and run: "order_run es ?a = Some a'"
      using Cons(2) Acquired by (auto simp: order_acquire_eq Let_def split: if_splits)
    have small: "card (lock_order ?a) < 256"
      using card_mono [OF assms(5) order_run_mono [OF run]] assms(6) by simp
    have "lock_level (lock_classes s ! unat c) = 0"
      using Cons(3,7) registered_less [OF _ c] by (auto simp: lockdep_ok_def lockdep_wf_def subset_iff)
    then obtain s1 where s1: "lock_acquired cpu False False c s = Some s1"
      using lock_acquired_complete [OF Cons(3) c _ Cons(5) ac small] by blast
    note a = lock_acquired_sound [OF s1 Cons(3) c]
    have abs: "?a = lockdep_abs s1" and lv: "map lock_level (lock_classes s1) = map lock_level (lock_classes s)"
      and ok: "lockdep_ok s1" and cc: "class_count s1 = class_count s"
      using a by simp_all
    have "acyclic (deps s1)" using ac unfolding abs by (simp add: lockdep_abs_def)
    then have "\<exists>s'. lockdep_run es s1 = Some s' \<and> lockdep_abs s' = a'"
      using Cons(4,6,7) by (intro Cons(1) [OF run [unfolded abs] ok]) (simp_all add: registered_def cc lv)
    then show ?thesis using s1 Cons(6) Acquired by simp
  next
    case (Released cpu c)
    then have c: "registered s c" using Cons(4) by simp
    obtain s1 where s1: "lock_released cpu False c s = Some s1" "lockdep_ok s1"
      "lockdep_abs s1 = order_release cpu (unat c) (lockdep_abs s)" "class_count s1 = class_count s"
      "lock_classes s1 = lock_classes s" "deps s1 = deps s"
      using lock_released_spec [OF Cons(3) c] .
    then show ?thesis
      using Cons(1) [of s1] Cons(2,4-7) Released by (simp add: registered_def)
  qed
qed simp

section \<open>States with a given graph\<close>

lemma lockdep_init_ok:
  "lockdep_ok lockdep_init" "deps lockdep_init = {}" "class_count lockdep_init = 0"
proof -
  have "edge lockdep_init a b = False" if "a < 256" "b < 256" for a b
    using slot_less [OF that] by (simp add: edge_def lockdep_init_def GRAPH_WORDS_def MAX_CLASSES_def)
  then show d: "deps lockdep_init = {}" by (auto simp: deps_def)
  show "lockdep_ok lockdep_init"
    using d by (simp add: lockdep_ok_def lockdep_wf_def held_wf_def held_list_def registered_def)
      (simp add: lockdep_init_def GRAPH_WORDS_def MAX_CLASSES_def MAX_EDGES_def held_new_def MAX_HELD_def)
qed (simp add: lockdep_init_def)

lemma graph_exists:
  assumes "finite D" "D \<subseteq> {..<n} \<times> {..<n}" "n \<le> 256" "\<And>cpu. held_wf (H cpu)"
    "\<And>cpu h. h \<in> set (held_list (H cpu)) \<Longrightarrow> unat h < n"
  obtains s where "lockdep_ok s" "deps s = D" "class_count s = of_nat n" "held_by s = H"
    "lock_classes s = lock_classes lockdep_init"
proof -
  have n: "unat (of_nat n :: u16) = n" by (rule unat_of_nat_lt) (use assms(3) in simp)
  have "\<exists>s. lockdep_ok s \<and> deps s = D \<and> class_count s = of_nat n \<and> held_by s = H \<and>
      lock_classes s = lock_classes lockdep_init"
    using assms(1,2)
  proof (induction D)
    case empty
    let ?s = "lockdep_init\<lparr>class_count := of_nat n, held_by := H\<rparr>"
    have "deps ?s = {}" using lockdep_init_ok(2) by (simp add: deps_def edge_def)
    moreover from this have "lockdep_ok ?s"
      using lockdep_init_ok(1) n assms(3-5) by (simp add: lockdep_ok_def lockdep_wf_def registered_def)
    ultimately show ?case by (intro exI [of _ ?s]) simp
  next
    case (insert e D)
    then obtain s where s: "lockdep_ok s" "deps s = D" "class_count s = of_nat n" "held_by s = H"
      "lock_classes s = lock_classes lockdep_init" by auto
    obtain a b where e: "e = (a, b)" "a < n" "b < n" using insert(4) by auto
    have g: "length (dep_graph s) = 1024" using s(1) by (simp add: lockdep_ok_def lockdep_wf_def)
    obtain s' where s': "deps s' = insert (a, b) (deps s)" "length (dep_graph s') = 1024"
      "s' = s\<lparr>dep_graph := dep_graph s'\<rparr>"
      using graph_set_eq [OF g, of a b] e assms(3) by auto
    have f: "class_count s' = class_count s" "held_by s' = held_by s" "lock_classes s' = lock_classes s"
      "in_lockdep s' = in_lockdep s" "dep_edges s' = dep_edges s"
      by (subst s'(3), simp)+
    have "lockdep_ok s'"
      using s(1) s' f e s(3) n by (auto simp: lockdep_ok_def lockdep_wf_def registered_def)
    then show ?case using s s'(1) f e(1) by auto
  qed
  then show ?thesis using that by blast
qed

lemma out_deps:
  assumes "lockdep_wf s"
  shows "out s a = (if a < 256 then filter (\<lambda>b. (a, b) \<in> deps s) [0..<unat (class_count s)] else [])"
proof -
  have "b < 256" if "b < unat (class_count s)" for b using that assms by (simp add: lockdep_wf_def)
  then show ?thesis by (auto simp: out_def succs_def deps_def intro!: filter_cong)
qed

section \<open>Registration\<close>

lemma find_class_spec:
  assumes "\<forall>i \<in> set is. i < length cs"
  shows "find_class cs is key sub =
    Some (find (\<lambda>i. key_addr (cs ! i) = key \<and> lock_subclass (cs ! i) = sub) is)"
  using assms by (induction "is") auto

abbreviation class_matches :: "lockdep \<Rightarrow> usize \<Rightarrow> u8 \<Rightarrow> nat \<Rightarrow> bool" where
  "class_matches s key sub i \<equiv> key_addr (lock_classes s ! i) = key \<and> lock_subclass (lock_classes s ! i) = sub"

lemma register_known:
  assumes "lockdep_wf s" "find (class_matches s key sub) [0..<unat (class_count s)] = Some i"
  shows "get_or_register_full s key sub lv nm k = Some (of_nat i, s)"
  using assms by (simp add: get_or_register_full_def lockdep_wf_def find_class_spec Let_def)

lemma register_new:
  assumes "lockdep_ok s" "find (class_matches s key sub) [0..<unat (class_count s)] = None"
    and "unat (class_count s) < 256"
  obtains s' where "get_or_register_full s key sub lv nm k = Some (class_count s, s')" "lockdep_ok s'"
    "lockdep_abs s' = lockdep_abs s" "unat (class_count s') = Suc (unat (class_count s))"
    "\<And>i. i < unat (class_count s) \<Longrightarrow> lock_classes s' ! i = lock_classes s ! i"
    "class_matches s' key sub (unat (class_count s))"
proof -
  let ?n = "unat (class_count s)"
  define s' where "s' = s\<lparr>lock_classes := (lock_classes s)[?n := (lock_classes s ! ?n)\<lparr>key_addr := key,
    lock_subclass := sub, lock_level := lv, lock_name := nm, lock_kind_of := k\<rparr>], class_count := of_nat (?n + 1)\<rparr>"
  have wf: "length (lock_classes s) = 256" using assms(1) by (simp add: lockdep_ok_def lockdep_wf_def)
  have n: "unat (of_nat (?n + 1) :: u16) = Suc ?n" by (subst unat_of_nat_lt) (use assms(3) in simp_all)
  have d: "deps s' = deps s" by (simp add: s'_def deps_def edge_def)
  show ?thesis
  proof (rule that [of s'])
    show "get_or_register_full s key sub lv nm k = Some (class_count s, s')"
      using assms(2,3) wf by (simp add: get_or_register_full_def find_class_spec MAX_CLASSES_def Let_def s'_def)
    show "lockdep_ok s'"
      using assms(1,3) d n unfolding lockdep_ok_def lockdep_wf_def registered_def
      by (auto simp: s'_def less_Suc_eq)
    show "lockdep_abs s' = lockdep_abs s" using d by (simp add: lockdep_abs_def s'_def)
  qed (use n wf assms(3) in \<open>simp_all add: s'_def\<close>)
qed

section \<open>A graph that overflows the search\<close>

text \<open>
  Classes 1 to 25 are ordered downwards, and class 1 precedes class 0 and class 26. The search from
  class 25 fills its stack with copies of the lower classes; when it reaches class 1 only one slot is
  left, for class 0, and class 26 is dropped.
\<close>

definition crowded_succs :: "nat \<Rightarrow> nat list" where
  "crowded_succs n = (if n = 26 then [25] else if n = 0 \<or> 26 < n then [] else if n = 1 then [0, 26] else [1..<n])"

definition crowded :: "(nat \<times> nat) set" where
  "crowded = {(a, b). a \<noteq> 26 \<and> b \<in> set (crowded_succs a)}"

lemma crowded_bounds: "crowded \<subseteq> {..<27} \<times> {..<27}"
  by (auto simp: crowded_def crowded_succs_def split: if_splits)

lemma crowded_acyclic: "acyclic crowded"
  by (rule acyclicI_order [where f = "\<lambda>n :: nat. if n = 26 then 0 else n"])
    (auto simp: crowded_def crowded_succs_def split: if_splits)

lemma crowded_cycle: "\<not> acyclic (insert (26, 25) crowded)"
proof -
  have "(25, 1) \<in> insert (26, 25) crowded" "(1, 26) \<in> insert (26, 25) crowded"
    by (auto simp: crowded_def crowded_succs_def)
  then have "(26, 26) \<in> (insert (26, 25) crowded)\<^sup>+" by (meson insertI1 trancl.simps)
  then show ?thesis by (auto simp: acyclic_def)
qed

lemma crowded_filter:
  "filter (\<lambda>b. (a, b) \<in> insert (26, 25) crowded) [0..<27] = crowded_succs a" if "a < 256"
proof (cases "a < 27")
  case True
  have all: "list_all (\<lambda>a. filter (\<lambda>b. b \<in> set (crowded_succs a)) [0..<27] = crowded_succs a) [0..<27]"
    by code_simp
  have "(a, b) \<in> insert (26, 25) crowded \<longleftrightarrow> b \<in> set (crowded_succs a)" for b
    by (auto simp: crowded_def crowded_succs_def)
  then show ?thesis using all True by (simp add: list_all_iff)
next
  case False
  then show ?thesis by (auto simp: crowded_def crowded_succs_def)
qed

lemma crowded_search: "dfs 300 crowded_succs 26 [] [25] = Some False"
  by code_simp

lemma crowded_misses:
  assumes "lockdep_wf s" "class_count s = 27" "deps s = insert (26, 25) crowded"
  shows "has_path s 25 26 = Some False"
proof (rule has_path_dfs [OF assms(1)])
  have "out s a = crowded_succs a" for a
  proof (cases "a < 256")
    case True
    then show ?thesis
      using out_deps [OF assms(1), of a] crowded_filter [OF True] unfolding assms(2,3) by simp
  qed (use out_deps [OF assms(1), of a] in \<open>simp add: crowded_succs_def\<close>)
  then have "out s = crowded_succs" by (rule ext)
  then show "dfs 300 (out s) (unat (26 :: u16)) [] [unat (25 :: u16)] = Some False"
    using crowded_search by simp
qed simp

section \<open>Properties\<close>

text \<open>
  C6: A run of the hooks that does not panic respects one lock order: for every interleaving of
  acquisitions and releases of registered classes on any CPUs, if lockdep accepts it then the
  abstract checker accepts it too, with the same held locks per CPU, and the recorded relation
  (a class before every class acquired while it was held) is acyclic. This holds as long as fewer
  than 256 edges are recorded.
\<close>

theorem lockdep_detects_inversions:
  assumes "lockdep_run es s = Some s'" "lockdep_ok s" "\<forall>e \<in> set es. registered s (event_class e)"
    and "acyclic (deps s)" "card (deps s') < 256"
  shows "order_run es (lockdep_abs s) = Some (lockdep_abs s') \<and> acyclic (lock_order (lockdep_abs s'))"
  using lockdep_run_sound [OF assms] by (simp add: lockdep_abs_def)

text \<open>
  C24: Lockdep raises no false alarm: a run that the abstract checker accepts, outside interrupt
  context and with classes that have no level, does not panic, and ends in the state the abstract
  checker describes, again with fewer than 256 edges.
\<close>

theorem lockdep_no_false_alarm:
  assumes "order_run es (lockdep_abs s) = Some a" "lockdep_ok s" "\<forall>e \<in> set es. registered s (event_class e)"
    and "acyclic (deps s)" "finite (lock_order a)" "card (lock_order a) < 256"
    and "list_all outside_irq es" "set (map lock_level (lock_classes s)) \<subseteq> {0}"
  shows "\<exists>s'. lockdep_run es s = Some s' \<and> lockdep_abs s' = a"
  using lockdep_run_complete [OF assms] .

text \<open>
  C38: With 27 classes and 302 edges lockdep misses an inversion: there is a consistent state with an
  acyclic graph in which a CPU that holds class 26 acquires class 25 without a report although 26 is
  already ordered after 25, and the graph is cyclic afterwards. The search drops neighbours when its
  stack of 256 entries, which may hold a class many times, is full.
\<close>

theorem lockdep_misses_inversion:
  "\<exists>s s'. lockdep_ok s \<and> class_count s = 27 \<and> acyclic (deps s) \<and>
     lock_acquired 0 False False 25 s = Some s' \<and> \<not> acyclic (deps s')"
proof -
  define H where "H = (\<lambda>cpu :: nat. if cpu = 0 then \<lparr>held_stack = (replicate 32 CLASS_NONE)[0 := 26], held_depth = 1\<rparr>
    else held_new)"
  have H: "held_wf (H cpu)" "held_list (H cpu) = (if cpu = 0 then [26] else [])" for cpu
    by (simp_all add: H_def held_wf_def held_list_def held_new_def MAX_HELD_def take_Suc_conv_app_nth)
  have fin: "finite crowded" by (rule finite_subset [OF crowded_bounds]) simp
  obtain s where s: "lockdep_ok s" "deps s = crowded" "class_count s = of_nat 27" "held_by s = H"
    "lock_classes s = lock_classes lockdep_init"
    by (rule graph_exists [OF fin crowded_bounds, of H]) (use H in \<open>auto split: if_splits\<close>)
  let ?s1 = "entered 0 False 25 s"
  have wf: "lockdep_wf ?s1" and r: "registered ?s1 25" "registered ?s1 26" "registered s 25"
    using s(1,3) by (simp_all add: lockdep_ok_def registered_def)
  have c: "class_count s = 27" using s(3) by simp
  obtain s1 s2 where s2: "graph_set ?s1 (class_index 26) (class_index 25) = Some s1" "log_edge s1 26 25 = Some s2"
    "lockdep_wf s2" "same_locks ?s1 s2" "deps s2 = insert (unat (26 :: u16), unat (25 :: u16)) (deps ?s1)"
    using add_edge [OF wf r(2,1)] .
  have "(26, 25) \<notin> deps ?s1" by (simp add: s(2) crowded_def)
  then have "\<not> edge ?s1 26 25" unfolding deps_def by simp
  moreover have "length (dep_graph ?s1) = 1024" using wf by (simp only: lockdep_wf_def)
  ultimately have "graph_test ?s1 (class_index 26) (class_index 25) = Some False"
    using graph_test_eq [of ?s1 26 25] by (simp add: class_index_def)
  moreover have "has_path s2 25 26 = Some False"
    by (rule crowded_misses) (use s2 s(2) c in \<open>simp_all add: same_locks_def\<close>)
  ultimately have rec: "record_edges 25 (held_list (held_by s 0)) ?s1 = Some s2"
    using s2(1,2) s(4) H(2) [of 0] by (simp add: CLASS_NONE_def)
  obtain h where h: "held_push (held_by s2 0) 25 = Some h"
    using finish_acquired [OF s(1) r(3) rec] by metis
  have "lock_level (lock_classes s ! unat (25 :: u16)) = 0"
    unfolding s(5) by (simp add: lockdep_init_def MAX_CLASSES_def lock_class_entry_empty_def)
  then obtain s' where s': "lock_acquired 0 False False 25 s = Some s'" "deps s' = deps s2"
    using lock_acquired_eq [OF s(1) r(3), of 0 False] rec h by (simp add: deps_def edge_def)
  have "\<not> acyclic (deps s')" using s'(2) s2(5) s(2) crowded_cycle by simp
  then show ?thesis using s(1,2) c s'(1) crowded_acyclic by auto
qed

text \<open>Two classes, acquired in the same order by two CPUs.\<close>

definition two_classes :: lockdep where
  "two_classes = lockdep_init\<lparr>class_count := 2\<rparr>"

definition nested_run :: "lock_event list" where
  "nested_run = [Acquired 0 False 0, Acquired 0 False 1, Released 0 1, Released 0 0,
     Acquired 1 False 0, Acquired 1 False 1]"

lemma two_classes_ok:
  "lockdep_ok two_classes" "deps two_classes = {}" "\<forall>e \<in> set nested_run. registered two_classes (event_class e)"
  "set (map lock_level (lock_classes two_classes)) \<subseteq> {0}"
proof -
  show d: "deps two_classes = {}" using lockdep_init_ok(2) by (simp add: two_classes_def deps_def edge_def)
  show "lockdep_ok two_classes"
    using lockdep_init_ok(1) d by (simp add: lockdep_ok_def lockdep_wf_def registered_def two_classes_def)
      (simp add: lockdep_init_def held_list_def held_new_def)
qed (auto simp: nested_run_def registered_def two_classes_def lockdep_init_def lock_class_entry_empty_def
    MAX_CLASSES_def)

lemma nested_run_order:
  "order_run nested_run (lockdep_abs two_classes) =
     Some \<lparr>lock_order = {(0, 1)}, holding = (\<lambda>_. [])(1 := [0, 1])\<rparr>"
proof -
  have "lockdep_abs two_classes = \<lparr>lock_order = {}, holding = (\<lambda>_. [])\<rparr>"
    using two_classes_ok(2)
    by (simp add: lockdep_abs_def two_classes_def lockdep_init_def held_list_def held_new_def)
  moreover have e: "acyclic ({} :: (nat \<times> nat) set)" by (simp add: acyclic_def)
  moreover have "acyclic {(0 :: nat, Suc 0)}" by (simp add: acyclic_insert e)
  moreover have "{(h, Suc 0) | h. h = 0 \<and> h \<noteq> Suc 0} = {(0 :: nat, Suc 0)}" by auto
  ultimately show ?thesis
    by (simp add: nested_run_def order_acquire_def order_release_def remove_last_def fun_upd_def)
      (simp add: fun_eq_iff)
qed

lemma nested_run_ok:
  "acyclic (deps two_classes)" "finite {(0 :: nat, 1 :: nat)}" "card {(0 :: nat, 1 :: nat)} < 256"
  "list_all outside_irq nested_run"
  by (simp_all add: two_classes_ok(2) acyclic_def nested_run_def)

theorem lockdep_no_false_alarm_witness:
  "\<exists>s'. lockdep_run nested_run two_classes = Some s' \<and> lock_order (lockdep_abs s') = {(0, 1)}"
  using lockdep_no_false_alarm [OF nested_run_order two_classes_ok(1,3) nested_run_ok(1) _ _
      nested_run_ok(4) two_classes_ok(4)] nested_run_ok(2,3)
  by auto

theorem lockdep_detects_inversions_witness:
  "\<exists>s'. lockdep_run nested_run two_classes = Some s' \<and> acyclic (lock_order (lockdep_abs s'))"
proof -
  obtain s' where s': "lockdep_run nested_run two_classes = Some s'"
    "lockdep_abs s' = \<lparr>lock_order = {(0, 1)}, holding = (\<lambda>_. [])(1 := [0, 1])\<rparr>"
    using lockdep_run_complete [OF nested_run_order two_classes_ok(1,3) nested_run_ok(1) _ _
      nested_run_ok(4) two_classes_ok(4)] nested_run_ok(2,3) by auto
  have "deps s' = {(0, 1)}" using arg_cong [OF s'(2), of lock_order] by (simp add: lockdep_abs_def)
  then show ?thesis
    using lockdep_detects_inversions [OF s'(1) two_classes_ok(1,3) nested_run_ok(1)] s'(1) by auto
qed

text \<open>
  Registering a lock class is idempotent and disturbs nothing: it returns the id under which the
  key and subclass are in the table, entering them in the next free slot if they are not there, and
  returns \<^verbatim>\<open>NONE\<close> only when the table of 256 classes is full. Registering the same key again returns the
  same id and changes nothing; the classes registered before, the held locks and the graph stay.
\<close>

lemma class_registration:
  assumes "lockdep_ok s"
  shows "\<exists>c s'. get_or_register_full s key sub lv nm k = Some (c, s') \<and> lockdep_ok s' \<and>
    lockdep_abs s' = lockdep_abs s \<and>
    (\<forall>i < unat (class_count s). lock_classes s' ! i = lock_classes s ! i) \<and>
    (c = CLASS_NONE \<and> class_count s = 256 \<or>
     registered s' c \<and> key_addr (lock_classes s' ! unat c) = key \<and>
     lock_subclass (lock_classes s' ! unat c) = sub \<and>
     get_or_register_full s' key sub lv' nm' k' = Some (c, s'))"
proof -
  let ?n = "unat (class_count s)"
  have wf: "lockdep_wf s" "?n \<le> 256" using assms by (simp_all add: lockdep_ok_def lockdep_wf_def)
  show ?thesis
  proof (cases "find (class_matches s key sub) [0..<?n]")
    case (Some i)
    then have i: "i < ?n" "class_matches s key sub i" by (auto simp: find_Some_iff)
    have "unat (of_nat i :: u16) = i" by (rule unat_of_nat_lt) (use i(1) wf(2) in simp)
    then show ?thesis
      using register_known [OF wf(1) Some] assms i by (auto simp: registered_def)
  next
    case None
    show ?thesis
    proof (cases "?n < 256")
      case True
      obtain s' where s': "get_or_register_full s key sub lv nm k = Some (class_count s, s')" "lockdep_ok s'"
        "lockdep_abs s' = lockdep_abs s" "unat (class_count s') = Suc ?n"
        "\<And>i. i < ?n \<Longrightarrow> lock_classes s' ! i = lock_classes s ! i" "class_matches s' key sub ?n"
        by (rule register_new [OF assms None True]) blast
      have none: "\<not> class_matches s' key sub i" if "i < ?n" for i
        using None s'(5) [OF that] that by (simp add: find_None_iff)
      have "find (class_matches s' key sub) [0..<Suc ?n] = Some ?n"
        using none s'(6) by (auto simp: find_Some_iff intro!: exI [of _ ?n] simp del: upt_Suc)
      then have "get_or_register_full s' key sub lv' nm' k' = Some (class_count s, s')"
        using register_known [of s' key sub ?n] s'(2,4) by (simp add: lockdep_ok_def del: upt_Suc)
      then show ?thesis using s' by (auto simp: registered_def)
    next
      case False
      then have n: "?n = 256" using wf(2) by simp
      then have "class_count s = 256" by (simp add: word_unat_eq_iff)
      moreover have "get_or_register_full s key sub lv nm k = Some (CLASS_NONE, s)"
        using None n wf(1) by (simp add: get_or_register_full_def find_class_spec MAX_CLASSES_def Let_def lockdep_wf_def)
      ultimately show ?thesis using assms by auto
    qed
  qed
qed

end
