(* ===== verification/Sync_Locks.thy ===== *)
theory Sync_Locks
  imports Hadron_Prelude
begin

text \<open>
  The spinning locks of \<^verbatim>\<open>kernel/core/src/sync\<close>: \<^verbatim>\<open>SpinLock\<close> (\<^verbatim>\<open>spinlock.rs\<close>), \<^verbatim>\<open>RwLock\<close> (\<^verbatim>\<open>rwlock.rs\<close>) and
  \<^verbatim>\<open>SeqLock\<close> (\<^verbatim>\<open>seqlock.rs\<close>). Each operation is the sequence of its atomic accesses, one step each,
  with a program counter per thread; \<open>run\<close> interleaves the steps of \<open>n\<close> threads in every order, and a
  thread may start any operation whenever it is idle. A weak compare-exchange may fail spuriously.
  Accesses are sequentially consistent: the memory orderings of the source are not modelled. Nor are
  the two diagnostic options that the configuration turns on by default: the assertion of \<^verbatim>\<open>lock_debug\<close>
  that a caller holds no \<^verbatim>\<open>IrqSpinLock\<close>, which callers are taken to respect, and the calls into the
  lock-order checker, which do not touch the lock and are the subject of theory Lockdep. The lemmas show mutual exclusion, that
  data does not change under a reader, and that a sequence-lock read is never torn.
\<close>

section \<open>Interleaving\<close>

inductive run ::
  "(nat \<Rightarrow> 'p \<Rightarrow> 's \<Rightarrow> 'p \<Rightarrow> 's \<Rightarrow> bool) \<Rightarrow> nat \<Rightarrow> (nat \<Rightarrow> 'p) \<Rightarrow> 's \<Rightarrow> (nat \<Rightarrow> 'p) \<Rightarrow> 's \<Rightarrow> bool"
  for R n P0 s0 where
  run_refl: "run R n P0 s0 P0 s0"
| run_step: "run R n P0 s0 P s \<Longrightarrow> t < n \<Longrightarrow> R t (P t) s p s' \<Longrightarrow> run R n P0 s0 (P(t := p)) s'"

lemma run_trans: "run R n P1 s1 P2 s2 \<Longrightarrow> run R n P0 s0 P1 s1 \<Longrightarrow> run R n P0 s0 P2 s2"
  by (induction rule: run.induct) (auto intro: run_step)

lemma run_idle: "run R n P0 s0 P s \<Longrightarrow> n \<le> t \<Longrightarrow> P t = P0 t"
  by (induction rule: run.induct) auto

text \<open>
  A schedule: the tasks of a list take their next steps one after the other, by a function \<open>next\<close>
  that picks one of the steps a thread can take.
\<close>

primrec schedule ::
  "(nat \<Rightarrow> 'p \<Rightarrow> 's \<Rightarrow> ('p \<times> 's) option) \<Rightarrow> nat list \<Rightarrow> (nat \<Rightarrow> 'p) \<times> 's \<Rightarrow> ((nat \<Rightarrow> 'p) \<times> 's) option" where
  "schedule nxt [] c = Some c"
| "schedule nxt (t # ts) c = do { (p, s) \<leftarrow> nxt t (fst c t) (snd c); schedule nxt ts ((fst c)(t := p), s) }"

lemma schedule_run:
  assumes "\<And>t p s p' s'. nxt t p s = Some (p', s') \<Longrightarrow> R t p s p' s'"
  shows "run R n P0 s0 P1 s1 \<Longrightarrow> schedule nxt ts (P1, s1) = Some (P, s) \<Longrightarrow> \<forall>t \<in> set ts. t < n \<Longrightarrow> run R n P0 s0 P s"
proof (induction ts arbitrary: P1 s1)
  case (Cons t ts)
  obtain p' s' where st: "nxt t (P1 t) s1 = Some (p', s')" "schedule nxt ts (P1(t := p'), s') = Some (P, s)"
    using Cons.prems(2) by (auto simp: bind_eq_Some_conv)
  show ?case
    by (rule Cons.IH [OF run_step [OF Cons.prems(1) _ assms [OF st(1)]] st(2)]) (use Cons.prems(3) in auto)
qed simp

text \<open>\<^verbatim>\<open>compare_exchange\<close>: whether it succeeded, and the new value of the cell.\<close>

definition cas :: "bool \<Rightarrow> 'a \<Rightarrow> 'a \<Rightarrow> 'a \<Rightarrow> bool \<times> 'a" where
  "cas spurious old new cur = (if cur = old \<and> \<not> spurious then (True, new) else (False, cur))"

section \<open>SpinLock\<close>

record 'a spin_lock =
  spin_locked :: bool
  spin_data :: 'a

definition spin_lock_new :: "'a \<Rightarrow> 'a spin_lock" where
  "spin_lock_new value = \<lparr>spin_locked = False, spin_data = value\<rparr>"

datatype spin_pc = SpinIdle | SpinCas | SpinWait | SpinTry | SpinHeld

definition spin_lock_attempt :: "bool \<Rightarrow> 'a spin_lock \<Rightarrow> spin_pc \<times> 'a spin_lock" where
  "spin_lock_attempt spurious l =
     (let (ok, v) = cas spurious False True (spin_locked l)
      in (if ok then SpinHeld else SpinWait, l\<lparr>spin_locked := v\<rparr>))"

definition spin_lock_wait :: "'a spin_lock \<Rightarrow> spin_pc" where
  "spin_lock_wait l = (if spin_locked l then SpinWait else SpinCas)"

definition spin_try_lock :: "'a spin_lock \<Rightarrow> spin_pc \<times> 'a spin_lock" where
  "spin_try_lock l =
     (let (ok, v) = cas False False True (spin_locked l)
      in (if ok then SpinHeld else SpinIdle, l\<lparr>spin_locked := v\<rparr>))"

definition spin_guard_drop :: "'a spin_lock \<Rightarrow> 'a spin_lock" where
  "spin_guard_drop l = l\<lparr>spin_locked := False\<rparr>"

inductive spin_step :: "nat \<Rightarrow> spin_pc \<Rightarrow> 'a spin_lock \<Rightarrow> spin_pc \<Rightarrow> 'a spin_lock \<Rightarrow> bool" for t where
  spin_start: "pc = SpinCas \<or> pc = SpinTry \<Longrightarrow> spin_step t SpinIdle l pc l"
| spin_attempt: "spin_lock_attempt b l = (pc, l') \<Longrightarrow> spin_step t SpinCas l pc l'"
| spin_wait: "spin_step t SpinWait l (spin_lock_wait l) l"
| spin_try: "spin_try_lock l = (pc, l') \<Longrightarrow> spin_step t SpinTry l pc l'"
| spin_write: "spin_step t SpinHeld l SpinHeld (l\<lparr>spin_data := d\<rparr>)"
| spin_drop: "spin_step t SpinHeld l SpinIdle (spin_guard_drop l)"

section \<open>RwLock\<close>

definition WRITE_LOCKED :: u32 where "WRITE_LOCKED = - 1"

record 'a rw_lock =
  rw_state :: u32
  rw_data :: 'a

definition rw_lock_new :: "'a \<Rightarrow> 'a rw_lock" where
  "rw_lock_new value = \<lparr>rw_state = 0, rw_data = value\<rparr>"

datatype rw_pc = RwIdle | ReadLoad | ReadCas u32 | ReadHeld | TryReadLoad | TryReadCas u32 | WriteCas | TryWrite | WriteHeld

definition rw_read_load :: "'a rw_lock \<Rightarrow> rw_pc" where
  "rw_read_load l = (if rw_state l \<noteq> WRITE_LOCKED then ReadCas (rw_state l) else ReadLoad)"

definition rw_read_cas :: "bool \<Rightarrow> u32 \<Rightarrow> 'a rw_lock \<Rightarrow> (rw_pc \<times> 'a rw_lock) option" where
  "rw_read_cas spurious s l =
     do { s' \<leftarrow> chk_add s 1;
          let (ok, v) = cas spurious s s' (rw_state l);
          Some (if ok then ReadHeld else ReadLoad, l\<lparr>rw_state := v\<rparr>) }"

definition rw_write_cas :: "bool \<Rightarrow> 'a rw_lock \<Rightarrow> rw_pc \<times> 'a rw_lock" where
  "rw_write_cas spurious l =
     (let (ok, v) = cas spurious 0 WRITE_LOCKED (rw_state l)
      in (if ok then WriteHeld else WriteCas, l\<lparr>rw_state := v\<rparr>))"

definition rw_try_read_load :: "'a rw_lock \<Rightarrow> rw_pc" where
  "rw_try_read_load l = (if rw_state l \<noteq> WRITE_LOCKED then TryReadCas (rw_state l) else RwIdle)"

definition rw_try_read_cas :: "u32 \<Rightarrow> 'a rw_lock \<Rightarrow> (rw_pc \<times> 'a rw_lock) option" where
  "rw_try_read_cas s l =
     do { s' \<leftarrow> chk_add s 1;
          let (ok, v) = cas False s s' (rw_state l);
          Some (if ok then ReadHeld else RwIdle, l\<lparr>rw_state := v\<rparr>) }"

definition rw_try_write :: "'a rw_lock \<Rightarrow> rw_pc \<times> 'a rw_lock" where
  "rw_try_write l =
     (let (ok, v) = cas False 0 WRITE_LOCKED (rw_state l)
      in (if ok then WriteHeld else RwIdle, l\<lparr>rw_state := v\<rparr>))"

definition rw_read_guard_drop :: "'a rw_lock \<Rightarrow> 'a rw_lock" where
  "rw_read_guard_drop l = l\<lparr>rw_state := rw_state l - 1\<rparr>"

definition rw_write_guard_drop :: "'a rw_lock \<Rightarrow> 'a rw_lock" where
  "rw_write_guard_drop l = l\<lparr>rw_state := 0\<rparr>"

inductive rw_step :: "nat \<Rightarrow> rw_pc \<Rightarrow> 'a rw_lock \<Rightarrow> rw_pc \<Rightarrow> 'a rw_lock \<Rightarrow> bool" for t where
  rw_start: "pc \<in> {ReadLoad, TryReadLoad, WriteCas, TryWrite} \<Longrightarrow> rw_step t RwIdle l pc l"
| rw_load: "rw_step t ReadLoad l (rw_read_load l) l"
| rw_cas: "rw_read_cas b s l = Some (pc, l') \<Longrightarrow> rw_step t (ReadCas s) l pc l'"
| rw_try_load: "rw_step t TryReadLoad l (rw_try_read_load l) l"
| rw_try_cas: "rw_try_read_cas s l = Some (pc, l') \<Longrightarrow> rw_step t (TryReadCas s) l pc l'"
| rw_wcas: "rw_write_cas b l = (pc, l') \<Longrightarrow> rw_step t WriteCas l pc l'"
| rw_try_w: "rw_try_write l = (pc, l') \<Longrightarrow> rw_step t TryWrite l pc l'"
| rw_modify: "rw_step t WriteHeld l WriteHeld (l\<lparr>rw_data := d\<rparr>)"
| rw_rdrop: "rw_step t ReadHeld l RwIdle (rw_read_guard_drop l)"
| rw_wdrop: "rw_step t WriteHeld l RwIdle (rw_write_guard_drop l)"

section \<open>SeqLock\<close>

text \<open>
  The protected value is a list of cells that are copied and written one by one. \<open>sq_history\<close> is not
  part of the lock: it records the values that writers have published, the initial one first.
\<close>

record 'a seq_lock =
  sq_seq :: u32
  sq_cells :: "'a list"
  sq_history :: "'a list list"

definition seq_lock_new :: "'a list \<Rightarrow> 'a seq_lock" where
  "seq_lock_new value = \<lparr>sq_seq = 0, sq_cells = value, sq_history = [value]\<rparr>"

datatype 'a sq_pc = SeqIdle | SeqReadLoad | SeqCopy u32 "'a list" | SeqCheck u32 "'a list" | SeqDone "'a list"
  | SeqWriteLoad | SeqWriteCas u32 | SeqHeld

definition sq_read_load :: "'a seq_lock \<Rightarrow> 'a sq_pc" where
  "sq_read_load l = (if sq_seq l AND 1 \<noteq> 0 then SeqReadLoad else SeqCopy (sq_seq l) [])"

definition sq_copy :: "u32 \<Rightarrow> 'a list \<Rightarrow> 'a seq_lock \<Rightarrow> 'a sq_pc" where
  "sq_copy s1 value l =
     (if length value < length (sq_cells l) then SeqCopy s1 (value @ [sq_cells l ! length value])
      else SeqCheck s1 value)"

definition sq_check :: "u32 \<Rightarrow> 'a list \<Rightarrow> 'a seq_lock \<Rightarrow> 'a sq_pc" where
  "sq_check s1 value l = (if s1 = sq_seq l then SeqDone value else SeqReadLoad)"

definition sq_write_load :: "'a seq_lock \<Rightarrow> 'a sq_pc" where
  "sq_write_load l = (if sq_seq l AND 1 \<noteq> 0 then SeqWriteLoad else SeqWriteCas (sq_seq l))"

definition sq_write_cas :: "bool \<Rightarrow> u32 \<Rightarrow> 'a seq_lock \<Rightarrow> ('a sq_pc \<times> 'a seq_lock) option" where
  "sq_write_cas spurious s l =
     do { s' \<leftarrow> chk_add s 1;
          let (ok, v) = cas spurious s s' (sq_seq l);
          Some (if ok then SeqHeld else SeqWriteLoad, l\<lparr>sq_seq := v\<rparr>) }"

definition sq_guard_drop :: "'a seq_lock \<Rightarrow> 'a seq_lock" where
  "sq_guard_drop l = l\<lparr>sq_seq := sq_seq l + 1, sq_history := sq_history l @ [sq_cells l]\<rparr>"

inductive sq_step :: "nat \<Rightarrow> 'a sq_pc \<Rightarrow> 'a seq_lock \<Rightarrow> 'a sq_pc \<Rightarrow> 'a seq_lock \<Rightarrow> bool" for t where
  sq_start: "pc = SeqReadLoad \<or> pc = SeqWriteLoad \<Longrightarrow> sq_step t SeqIdle l pc l"
| sq_rload: "sq_step t SeqReadLoad l (sq_read_load l) l"
| sq_rcopy: "sq_step t (SeqCopy s v) l (sq_copy s v l) l"
| sq_rcheck: "sq_step t (SeqCheck s v) l (sq_check s v l) l"
| sq_return: "sq_step t (SeqDone v) l SeqIdle l"
| sq_wload: "sq_step t SeqWriteLoad l (sq_write_load l) l"
| sq_wcas: "sq_write_cas b s l = Some (pc, l') \<Longrightarrow> sq_step t (SeqWriteCas s) l pc l'"
| sq_modify: "sq_step t SeqHeld l SeqHeld (l\<lparr>sq_cells := (sq_cells l)[i := x]\<rparr>)"
| sq_wdrop: "sq_step t SeqHeld l SeqIdle (sq_guard_drop l)"

section \<open>Exclusive locks\<close>

text \<open>
  The contract of an exclusive lock: a thread comes to hold it only while it is free, which takes it,
  the holder frees it, and no other step changes whether it is taken. \<open>ok\<close> is what the steps of a
  thread keep about its own program counter.
\<close>

locale lock_protocol =
  fixes step :: "nat \<Rightarrow> 'p \<Rightarrow> 's \<Rightarrow> 'p \<Rightarrow> 's \<Rightarrow> bool" and ok :: "'p \<Rightarrow> bool"
    and holds :: "'p \<Rightarrow> bool" and taken :: "'s \<Rightarrow> bool"
  assumes ok_step: "step t p s p' s' \<Longrightarrow> ok p \<Longrightarrow> ok p'"
    and acquire: "step t p s p' s' \<Longrightarrow> ok p \<Longrightarrow> \<not> holds p \<Longrightarrow> holds p' \<Longrightarrow> \<not> taken s \<and> taken s'"
    and keep: "step t p s p' s' \<Longrightarrow> ok p \<Longrightarrow> taken s \<Longrightarrow> holds p = holds p' \<Longrightarrow> taken s'"
    and other: "step t p s p' s' \<Longrightarrow> ok p \<Longrightarrow> \<not> taken s \<Longrightarrow> \<not> holds p \<Longrightarrow> \<not> holds p' \<Longrightarrow> \<not> taken s'"
    and release: "step t p s p' s' \<Longrightarrow> ok p \<Longrightarrow> taken s \<Longrightarrow> holds p \<Longrightarrow> \<not> holds p' \<Longrightarrow> \<not> taken s'"
begin

lemma exclusion:
  assumes "run step n P0 s0 P s" "\<not> taken s0" "\<And>t. ok (P0 t) \<and> \<not> holds (P0 t)"
  shows "(\<forall>t. ok (P t)) \<and> (if taken s then \<exists>!t. holds (P t) else \<forall>t. \<not> holds (P t))"
  using assms(1)
proof (induction rule: run.induct)
  case (run_step P s t p s')
  have ok: "\<forall>u. ok (P u)" "\<forall>u. ok ((P(t := p)) u)" using run_step.IH ok_step [OF run_step(3)] by auto
  note IH = conjunct2 [OF run_step.IH]
  note laws = acquire [OF run_step(3)] keep [OF run_step(3)] other [OF run_step(3)] release [OF run_step(3)]
  show ?case
  proof (cases "holds (P t)")
    case True
    then have tk: "taken s" and only: "\<forall>u. holds (P u) \<longrightarrow> u = t" using IH by (auto split: if_splits)
    have "taken s' = holds p" using laws(2,4) ok(1) tk True by blast
    moreover have "holds ((P(t := p)) u) \<longleftrightarrow> holds p \<and> u = t" for u using only by auto
    ultimately show ?thesis using ok(2) by simp
  next
    case False
    show ?thesis
    proof (cases "holds p")
      case True
      then have tk: "\<not> taken s" "taken s'" using laws(1) ok(1) False by blast+
      then have "holds ((P(t := p)) u) \<longleftrightarrow> u = t" for u using IH True by simp
      then show ?thesis using tk(2) ok(2) by simp
    next
      case np: False
      then have "taken s' = taken s" using laws(2,3) ok(1) False by blast
      moreover have "holds ((P(t := p)) u) = holds (P u)" for u using np False by simp
      ultimately show ?thesis using IH ok(2) by simp
    qed
  qed
qed (use assms in simp)

end

interpretation spin: lock_protocol spin_step "\<lambda>_. True" "\<lambda>p. p = SpinHeld" spin_locked
  by unfold_locales (auto elim!: spin_step.cases simp: spin_lock_attempt_def spin_try_lock_def spin_lock_wait_def
    spin_guard_drop_def cas_def split: if_splits)

fun sq_pc_ok :: "'a sq_pc \<Rightarrow> bool" where
  "sq_pc_ok (SeqWriteCas s) = even (unat s)"
| "sq_pc_ok (SeqCopy s v) = even (unat s)"
| "sq_pc_ok (SeqCheck s v) = even (unat s)"
| "sq_pc_ok _ = True"

lemma odd_and_1: "(s AND 1 \<noteq> 0) = odd (unat s)" for s :: u32
  by (simp add: and_one_eq word_unat_eq_iff unat_mod_distrib odd_iff_mod_2_eq_one)

lemma chk_add_1_Some: "chk_add s (1 :: u32) = Some s' \<Longrightarrow> unat s' = unat s + 1"
  by (auto simp: chk_add_Some_iff)

lemma chk_add_1_eq: "chk_add s (1 :: u32) = Some s' \<Longrightarrow> s' = s + 1"
  by (auto simp: chk_add_def split: if_splits)

lemma unat_suc_even: "even (unat (s + 1)) \<longleftrightarrow> odd (unat s)" for s :: u32
  by (simp add: unat_word_ariths dvd_mod_iff)

interpretation sq: lock_protocol sq_step sq_pc_ok "\<lambda>p. p = SeqHeld" "\<lambda>l. odd (unat (sq_seq l))"
  by unfold_locales (auto elim!: sq_step.cases simp: sq_read_load_def sq_copy_def sq_check_def sq_write_load_def
    sq_write_cas_def sq_guard_drop_def cas_def odd_and_1 unat_suc_even bind_eq_Some_conv dest!: chk_add_1_Some split: if_splits)

lemma spin_lock_exclusive:
  assumes "run spin_step n (\<lambda>_. SpinIdle) (spin_lock_new v) P l"
  shows "if spin_locked l then \<exists>!t. P t = SpinHeld else \<forall>t. P t \<noteq> SpinHeld"
  using spin.exclusion [OF assms] by (simp add: spin_lock_new_def)

section \<open>Readers and writers\<close>

fun rw_pc_ok :: "rw_pc \<Rightarrow> bool" where
  "rw_pc_ok (ReadCas s) = (s \<noteq> WRITE_LOCKED)"
| "rw_pc_ok (TryReadCas s) = (s \<noteq> WRITE_LOCKED)"
| "rw_pc_ok _ = True"

definition readers :: "(nat \<Rightarrow> rw_pc) \<Rightarrow> nat set" where "readers P = {t. P t = ReadHeld}"
definition writers :: "(nat \<Rightarrow> rw_pc) \<Rightarrow> nat set" where "writers P = {t. P t = WriteHeld}"

definition rw_inv :: "nat \<Rightarrow> (nat \<Rightarrow> rw_pc) \<Rightarrow> 'a rw_lock \<Rightarrow> bool" where
  "rw_inv n P l \<longleftrightarrow> (\<forall>t. n \<le> t \<longrightarrow> P t = RwIdle) \<and> (\<forall>t. rw_pc_ok (P t)) \<and>
     (writers P = {} \<and> unat (rw_state l) = card (readers P) \<or>
      (\<exists>w. writers P = {w}) \<and> readers P = {} \<and> rw_state l = WRITE_LOCKED)"

lemma readers_upd: "readers (P(t := p)) = (if p = ReadHeld then insert t (readers P) else readers P - {t})"
  and writers_upd: "writers (P(t := p)) = (if p = WriteHeld then insert t (writers P) else writers P - {t})"
  by (auto simp: readers_def writers_def)

lemma mem_readers [simp]: "t \<in> readers P \<longleftrightarrow> P t = ReadHeld" "t \<in> writers P \<longleftrightarrow> P t = WriteHeld"
  by (simp_all add: readers_def writers_def)

lemma readers_bounded:
  assumes "\<forall>t. n \<le> t \<longrightarrow> P t = RwIdle" shows "finite (readers P)" "card (readers P) \<le> n"
proof -
  have sub: "readers P \<subseteq> {..<n}" using assms by (force simp: readers_def not_le)
  then show "finite (readers P)" by (rule finite_subset) simp
  show "card (readers P) \<le> n" using card_mono [OF _ sub] by simp
qed

text \<open>A step that neither takes nor gives up the lock, and the four that do.\<close>

lemma rw_inv_quiet:
  assumes "rw_inv n P l" "t < n" "rw_state l' = rw_state l" "rw_pc_ok p"
    and "(P t = ReadHeld) = (p = ReadHeld)" "(P t = WriteHeld) = (p = WriteHeld)"
  shows "rw_inv n (P(t := p)) l'"
proof -
  have "readers (P(t := p)) = readers P" "writers (P(t := p)) = writers P"
    using assms(5,6) by (auto simp: readers_upd writers_upd)
  then show ?thesis using assms(1-4) unfolding rw_inv_def by auto
qed

lemma rw_inv_read:
  assumes "rw_inv n P l" "t < n" "P t \<noteq> ReadHeld" "P t \<noteq> WriteHeld" "rw_state l \<noteq> WRITE_LOCKED"
    and "rw_state l' = rw_state l + 1"
  shows "rw_inv n (P(t := ReadHeld)) l'"
proof -
  have idle: "\<forall>t. n \<le> t \<longrightarrow> P t = RwIdle" and st: "writers P = {}" "unat (rw_state l) = card (readers P)"
    using assms(1,5) by (auto simp: rw_inv_def)
  have "unat (rw_state l + 1) = unat (rw_state l) + 1"
    using assms(5) by (simp add: WRITE_LOCKED_def unatSuc add.commute [of _ 1] eq_neg_iff_add_eq_0)
  then have "unat (rw_state l') = card (readers (P(t := ReadHeld)))"
    using assms(3,6) st(2) readers_bounded(1) [OF idle] by (simp add: readers_upd)
  then show ?thesis using assms(1,2,4) st(1) by (auto simp: rw_inv_def writers_upd)
qed

lemma rw_inv_write:
  assumes "rw_inv n P l" "t < n" "P t \<noteq> ReadHeld" "rw_state l = 0" "rw_state l' = WRITE_LOCKED"
  shows "rw_inv n (P(t := WriteHeld)) l'"
proof -
  have "rw_state l \<noteq> WRITE_LOCKED" using assms(4) by (simp add: WRITE_LOCKED_def)
  then have st: "writers P = {}" "card (readers P) = 0" using assms(1,4) by (auto simp: rw_inv_def)
  moreover have "finite (readers P)" using assms(1) by (intro readers_bounded) (auto simp: rw_inv_def)
  ultimately have "readers P = {}" by simp
  then show ?thesis using assms(1,2,5) st(1) by (auto simp: rw_inv_def writers_upd readers_upd)
qed

lemma rw_inv_read_drop:
  assumes "rw_inv n P l" "t < n" "P t = ReadHeld" "rw_state l' = rw_state l - 1"
  shows "rw_inv n (P(t := RwIdle)) l'"
proof -
  have ne: "t \<in> readers P" using assms(3) by simp
  then have st: "writers P = {}" "unat (rw_state l) = card (readers P)"
    using assms(1) by (auto simp: rw_inv_def)
  have fin: "finite (readers P)" using assms(1) by (intro readers_bounded) (auto simp: rw_inv_def)
  then have "0 < card (readers P)" using ne card_gt_0_iff by blast
  then have "unat (rw_state l - 1) = unat (rw_state l) - 1" using st(2) by (intro unat_minus_one) auto
  then have "unat (rw_state l') = card (readers (P(t := RwIdle)))"
    using ne st(2) fin assms(4) by (simp add: readers_upd)
  then show ?thesis using assms(1,2) st(1) by (auto simp: rw_inv_def writers_upd)
qed

lemma rw_inv_write_drop:
  assumes "rw_inv n P l" "t < n" "P t = WriteHeld" "rw_state l' = 0"
  shows "rw_inv n (P(t := RwIdle)) l'"
proof -
  have "t \<in> writers P" using assms(3) by simp
  then have "writers P = {t}" "readers P = {}" using assms(1) by (auto simp: rw_inv_def simp del: mem_readers)
  then have "writers (P(t := RwIdle)) = {}" "readers (P(t := RwIdle)) = {}"
    by (simp_all add: writers_upd readers_upd)
  then show ?thesis using assms(1,2,4) unfolding rw_inv_def by auto
qed

lemma rw_inv_step:
  assumes "rw_step t (P t) l p l'" "rw_inv n P l" "t < n"
  shows "rw_inv n (P(t := p)) l'"
  using assms(1)
proof cases
  case (rw_cas b s)
  have "rw_pc_ok (P t)" using assms(2) by (simp add: rw_inv_def)
  then have "s \<noteq> WRITE_LOCKED" using rw_cas(1) by simp
  then show ?thesis using rw_cas assms(2,3)
    by (cases "rw_state l = s \<and> \<not> b")
      (auto simp: rw_read_cas_def cas_def bind_eq_Some_conv dest!: chk_add_1_eq intro: rw_inv_read rw_inv_quiet split: if_splits)
next
  case (rw_try_cas s)
  have "rw_pc_ok (P t)" using assms(2) by (simp add: rw_inv_def)
  then have "s \<noteq> WRITE_LOCKED" using rw_try_cas(1) by simp
  then show ?thesis using rw_try_cas assms(2,3)
    by (cases "rw_state l = s")
      (auto simp: rw_try_read_cas_def cas_def bind_eq_Some_conv dest!: chk_add_1_eq intro: rw_inv_read rw_inv_quiet split: if_splits)
next
  case (rw_wcas b)
  then show ?thesis using assms(2,3)
    by (cases "rw_state l = 0 \<and> \<not> b") (auto simp: rw_write_cas_def cas_def intro: rw_inv_write rw_inv_quiet split: if_splits)
next
  case rw_try_w
  then show ?thesis using assms(2,3)
    by (cases "rw_state l = 0") (auto simp: rw_try_write_def cas_def intro: rw_inv_write rw_inv_quiet split: if_splits)
next
  case rw_rdrop
  then show ?thesis using assms(2,3) by (auto simp: rw_read_guard_drop_def intro: rw_inv_read_drop)
next
  case rw_wdrop
  then show ?thesis using assms(2,3) by (auto simp: rw_write_guard_drop_def intro: rw_inv_write_drop)
qed (use assms(2,3) in \<open>auto simp: rw_read_load_def rw_try_read_load_def intro!: rw_inv_quiet [of n P l]\<close>)

lemma not_write_locked: "s \<noteq> WRITE_LOCKED \<Longrightarrow> unat s + 1 < 2 ^ 32"
  using unsigned_less [of s, where ?'a = nat] by (auto simp: WRITE_LOCKED_def word_unat_eq_iff unsigned_minus_1_eq_mask mask_eq_exp_minus_1)

lemma rw_inv_run: "run rw_step n (\<lambda>_. RwIdle) (rw_lock_new v) P l \<Longrightarrow> rw_inv n P l"
proof (induction rule: run.induct)
  case run_refl
  then show ?case by (simp add: rw_inv_def readers_def writers_def rw_lock_new_def)
next
  case (run_step P l t p l')
  then show ?case by (intro rw_inv_step)
qed

section \<open>Sequence locks\<close>

text \<open>
  As long as fewer than \<open>2 ^ 31\<close> values have been published the counter has not wrapped around: it
  is twice the number of writes, plus one during a write.
\<close>

fun sq_reader_ok :: "'a seq_lock \<Rightarrow> 'a sq_pc \<Rightarrow> bool" where
  "sq_reader_ok l (SeqCopy s v) \<longleftrightarrow> unat s \<le> unat (sq_seq l) \<and>
     (s = sq_seq l \<longrightarrow> length v \<le> length (sq_cells l) \<and> v = take (length v) (sq_cells l))"
| "sq_reader_ok l (SeqCheck s v) \<longleftrightarrow> unat s \<le> unat (sq_seq l) \<and> (s = sq_seq l \<longrightarrow> v = sq_cells l)"
| "sq_reader_ok l (SeqDone v) \<longleftrightarrow> v \<in> set (sq_history l)"
| "sq_reader_ok l _ \<longleftrightarrow> True"

definition sq_inv :: "(nat \<Rightarrow> 'a sq_pc) \<Rightarrow> 'a seq_lock \<Rightarrow> bool" where
  "sq_inv P l \<longleftrightarrow> sq_history l \<noteq> [] \<and> (\<forall>t. sq_reader_ok l (P t)) \<and>
     (unat (sq_seq l) = 2 * (length (sq_history l) - 1) \<and> sq_cells l = last (sq_history l) \<or>
      unat (sq_seq l) = 2 * (length (sq_history l) - 1) + 1 \<and> (\<exists>t. P t = SeqHeld))"

lemma sq_reader_frame:
  assumes "sq_reader_ok l pc" "sq_pc_ok pc" "unat (sq_seq l) \<le> unat (sq_seq l')" "set (sq_history l) \<subseteq> set (sq_history l')"
    and "sq_seq l' = sq_seq l \<Longrightarrow> odd (unat (sq_seq l)) \<or> sq_cells l' = sq_cells l"
  shows "sq_reader_ok l' pc"
proof -
  have "sq_seq l' = sq_seq l" if "s = sq_seq l'" "unat s \<le> unat (sq_seq l)" for s
    using that assms(3) by (simp add: word_unat_eq_iff)
  then show ?thesis using assms by (cases pc) auto
qed

lemma sq_readers_frame:
  assumes "sq_inv P l" "\<forall>u. sq_pc_ok (P u)" "unat (sq_seq l) \<le> unat (sq_seq l')" "set (sq_history l) \<subseteq> set (sq_history l')"
    and "sq_seq l' = sq_seq l \<Longrightarrow> odd (unat (sq_seq l)) \<or> sq_cells l' = sq_cells l" "sq_reader_ok l' p"
  shows "\<forall>u. sq_reader_ok l' ((P(t := p)) u)"
proof
  fix u
  have "sq_reader_ok l (P u)" using assms(1) by (simp add: sq_inv_def)
  then have "sq_reader_ok l' (P u)" using sq_reader_frame [OF _ _ assms(3-5)] assms(2) by blast
  then show "sq_reader_ok l' ((P(t := p)) u)" using assms(6) by simp
qed

lemma sq_inv_counter:
  assumes "sq_inv P l"
  shows "even (unat (sq_seq l)) \<Longrightarrow> unat (sq_seq l) = 2 * (length (sq_history l) - 1)"
    "odd (unat (sq_seq l)) \<Longrightarrow> unat (sq_seq l) = 2 * (length (sq_history l) - 1) + 1"
    "even (unat (sq_seq l)) \<Longrightarrow> sq_cells l = last (sq_history l)" "sq_history l \<noteq> []"
  using assms unfolding sq_inv_def by (elim conjE disjE; simp)+

lemma sq_inv_quiet:
  assumes "sq_inv P l" "sq_reader_ok l p" "P t \<noteq> SeqHeld"
  shows "sq_inv (P(t := p)) l"
proof -
  have "\<forall>u. sq_reader_ok l ((P(t := p)) u)" using assms(1,2) by (simp add: sq_inv_def)
  moreover have "\<exists>u. (P(t := p)) u = SeqHeld" if "\<exists>u. P u = SeqHeld" using that assms(3) by auto
  ultimately show ?thesis using assms(1) unfolding sq_inv_def by blast
qed

lemma sq_inv_acquire:
  assumes "sq_inv P l" "\<forall>u. sq_pc_ok (P u)" "even (unat (sq_seq l))" "unat (sq_seq l') = unat (sq_seq l) + 1"
    and "sq_cells l' = sq_cells l" "sq_history l' = sq_history l"
  shows "sq_inv (P(t := SeqHeld)) l'"
proof -
  have "\<forall>u. sq_reader_ok l' ((P(t := SeqHeld)) u)"
    by (rule sq_readers_frame [OF assms(1,2)]) (use assms(4-6) in auto)
  moreover have "\<exists>u. (P(t := SeqHeld)) u = SeqHeld" by (rule exI [of _ t]) simp
  ultimately show ?thesis
    using sq_inv_counter(1,4) [OF assms(1)] assms(3,4,6) unfolding sq_inv_def by simp
qed

lemma sq_inv_modify:
  assumes "sq_inv P l" "\<forall>u. sq_pc_ok (P u)" "odd (unat (sq_seq l))"
  shows "sq_inv (P(t := SeqHeld)) (l\<lparr>sq_cells := c\<rparr>)"
proof -
  have "\<forall>u. sq_reader_ok (l\<lparr>sq_cells := c\<rparr>) ((P(t := SeqHeld)) u)"
    by (rule sq_readers_frame [OF assms(1,2)]) (use assms(3) in auto)
  moreover have "\<exists>u. (P(t := SeqHeld)) u = SeqHeld" by (rule exI [of _ t]) simp
  ultimately show ?thesis
    using sq_inv_counter(2,4) [OF assms(1)] assms(3) unfolding sq_inv_def by simp
qed

lemma sq_inv_publish:
  assumes "sq_inv P l" "\<forall>u. sq_pc_ok (P u)" "odd (unat (sq_seq l))" "length (sq_history l) < 2 ^ 31"
  shows "sq_inv (P(t := SeqIdle)) (sq_guard_drop l)"
proof -
  note q = sq_inv_counter(2,4) [OF assms(1)]
  have "unat (sq_seq l) + 1 < 2 ^ 32" using q assms(3,4) by (cases "sq_history l") auto
  then have s: "unat (sq_seq l + 1) = unat (sq_seq l) + 1" by (simp add: unat_word_ariths)
  have "\<forall>u. sq_reader_ok (sq_guard_drop l) ((P(t := SeqIdle)) u)"
    by (rule sq_readers_frame [OF assms(1,2)]) (use s assms(3) in \<open>auto simp: sq_guard_drop_def\<close>)
  moreover have "unat (sq_seq l + 1) = 2 * length (sq_history l)"
    using q assms(3) s by (cases "sq_history l") auto
  ultimately show ?thesis unfolding sq_inv_def by (simp add: sq_guard_drop_def)
qed

lemma sq_inv_step:
  assumes "sq_step t (P t) l p l'" "sq_inv P l" "\<forall>u. sq_pc_ok (P u)" "length (sq_history l') \<le> 2 ^ 31"
    and "P t = SeqHeld \<Longrightarrow> odd (unat (sq_seq l))"
  shows "sq_inv (P(t := p)) l'"
proof -
  have rd: "sq_reader_ok l (P t)" using assms(2) by (simp add: sq_inv_def)
  have pc: "sq_pc_ok (P t)" using assms(3) by blast
  from assms(1) show ?thesis
  proof cases
    case (sq_rcopy s v)
    have "take (Suc (length v)) (sq_cells l) = v @ [sq_cells l ! length v]"
      if "length v < length (sq_cells l)" "v = take (length v) (sq_cells l)"
      using take_Suc_conv_app_nth [OF that(1)] that(2) by simp
    then show ?thesis using sq_rcopy rd assms(2)
      by (auto simp: sq_copy_def intro!: sq_inv_quiet)
  next
    case (sq_rcheck s v)
    then have "sq_reader_ok l (sq_check s v l)"
      using rd pc sq_inv_counter(3,4) [OF assms(2)] by (auto simp: sq_check_def)
    then show ?thesis using sq_rcheck assms(2) by (auto intro: sq_inv_quiet)
  next
    case (sq_wcas b s)
    then show ?thesis using rd pc assms(2,3)
      by (cases "sq_seq l = s \<and> \<not> b")
        (auto simp: sq_write_cas_def cas_def bind_eq_Some_conv dest!: chk_add_1_Some intro: sq_inv_quiet sq_inv_acquire split: if_splits)
  next
    case sq_modify
    then show ?thesis using sq_inv_modify [OF assms(2,3)] assms(5) by simp
  next
    case sq_wdrop
    then have "length (sq_history l) < 2 ^ 31" using assms(4) by (simp add: sq_guard_drop_def)
    then show ?thesis using sq_inv_publish [OF assms(2,3)] assms(5) sq_wdrop by simp
  qed (use rd assms(2) in \<open>auto simp: sq_read_load_def sq_write_load_def intro!: sq_inv_quiet\<close>)
qed

lemma sq_history_grows: "sq_step t p l p' l' \<Longrightarrow> length (sq_history l) \<le> length (sq_history l')"
  by (auto elim!: sq_step.cases simp: sq_write_cas_def sq_guard_drop_def cas_def bind_eq_Some_conv split: if_splits)

lemma sq_exclusion:
  assumes "run sq_step n (\<lambda>_. SeqIdle) (seq_lock_new v) P l"
  shows "\<forall>t. sq_pc_ok (P t)" "P t = SeqHeld \<Longrightarrow> odd (unat (sq_seq l))" "P t = SeqHeld \<Longrightarrow> P u = SeqHeld \<Longrightarrow> t = u"
proof -
  note e = sq.exclusion [OF assms]
  have e: "\<forall>t. sq_pc_ok (P t)" "if odd (unat (sq_seq l)) then \<exists>!t. P t = SeqHeld else \<forall>t. P t \<noteq> SeqHeld"
    using e by (simp_all add: seq_lock_new_def)
  then show "\<forall>t. sq_pc_ok (P t)" "P t = SeqHeld \<Longrightarrow> odd (unat (sq_seq l))" "P t = SeqHeld \<Longrightarrow> P u = SeqHeld \<Longrightarrow> t = u"
    by (auto split: if_splits)
qed

lemma sq_inv_run:
  "run sq_step n (\<lambda>_. SeqIdle) (seq_lock_new v) P l \<Longrightarrow> length (sq_history l) \<le> 2 ^ 31 \<Longrightarrow> sq_inv P l"
proof (induction rule: run.induct)
  case run_refl
  then show ?case by (simp add: sq_inv_def seq_lock_new_def)
next
  case (run_step P l t p l')
  have "sq_inv P l" using run_step(4,5) sq_history_grows [OF run_step(3)] by simp
  then show ?case
    using run_step(5) sq_exclusion(1,2) [OF run_step(1)] 
    by (intro sq_inv_step [of t P l p l']) (use run_step(3) in auto)
qed

section \<open>Properties\<close>

text \<open>
  C9: the reader-writer lock. However the operations of any number of threads interleave, a writer
  excludes every other reader and writer; while a thread holds a read guard no step of any thread
  changes the data; the lock word is 0 exactly when no guard exists, so the lock is free again once
  all guards are dropped; and the increment of the reader count never overflows.
\<close>

theorem rw_lock_exclusive:
  assumes "run rw_step n (\<lambda>_. RwIdle) (rw_lock_new v) P l"
  shows "(\<forall>w t. P w = WriteHeld \<longrightarrow> t \<noteq> w \<longrightarrow> P t \<noteq> WriteHeld \<and> P t \<noteq> ReadHeld) \<and>
    (\<forall>t u p l'. P t = ReadHeld \<longrightarrow> rw_step u (P u) l p l' \<longrightarrow> rw_data l' = rw_data l) \<and>
    (rw_state l = 0 \<longleftrightarrow> (\<forall>t. P t \<noteq> ReadHeld \<and> P t \<noteq> WriteHeld)) \<and>
    (\<forall>t s b. P t = ReadCas s \<or> P t = TryReadCas s \<longrightarrow> rw_read_cas b s l \<noteq> None \<and> rw_try_read_cas s l \<noteq> None)"
proof -
  have inv: "rw_inv n P l" using assms by (rule rw_inv_run)
  have fin: "finite (readers P)" using inv by (intro readers_bounded) (auto simp: rw_inv_def)
  have ex: "P t \<noteq> WriteHeld \<and> P t \<noteq> ReadHeld" if "P w = WriteHeld" "t \<noteq> w" for w t
  proof -
    have w: "w \<in> writers P" using that(1) by simp
    then obtain w' where "writers P = {w'}" "readers P = {}"
      using inv by (auto simp: rw_inv_def simp del: mem_readers)
    then have "t \<notin> writers P" "t \<notin> readers P" using w that(2) by (auto simp del: mem_readers)
    then show ?thesis by simp
  qed
  moreover have "rw_data l' = rw_data l" if "P t = ReadHeld" "rw_step u (P u) l p l'" for t u p l'
    using that(2)
  proof cases
    case rw_modify
    then show ?thesis using ex [of u t] that(1) by (cases "u = t") auto
  qed (auto simp: rw_read_cas_def rw_try_read_cas_def rw_write_cas_def rw_try_write_def rw_read_guard_drop_def
      rw_write_guard_drop_def cas_def bind_eq_Some_conv split: if_splits)
  moreover have "rw_state l = 0 \<longleftrightarrow> readers P = {} \<and> writers P = {}"
    using inv fin by (auto simp: rw_inv_def WRITE_LOCKED_def unat_eq_0 simp del: mem_readers)
  then have "rw_state l = 0 \<longleftrightarrow> (\<forall>t. P t \<noteq> ReadHeld \<and> P t \<noteq> WriteHeld)" by (auto simp: readers_def writers_def)
  moreover have "rw_read_cas b s l \<noteq> None \<and> rw_try_read_cas s l \<noteq> None" if "P t = ReadCas s \<or> P t = TryReadCas s" for t s b
  proof -
    have "s \<noteq> WRITE_LOCKED" using inv that unfolding rw_inv_def by (metis rw_pc_ok.simps(1,2))
    then show ?thesis
      using not_write_locked [of s] by (simp add: rw_read_cas_def rw_try_read_cas_def chk_add_def split: prod.splits)
  qed
  ultimately show ?thesis by blast
qed

theorem rw_lock_exclusive_witness:
  "\<exists>P l. run rw_step 2 (\<lambda>_. RwIdle) (rw_lock_new (5 :: nat)) P l \<and> P 0 = WriteHeld \<and>
     (\<forall>t. t \<noteq> 0 \<longrightarrow> P t \<noteq> WriteHeld \<and> P t \<noteq> ReadHeld)"
proof -
  let ?l = "rw_lock_new (5 :: nat)"
  have "run rw_step 2 (\<lambda>_. RwIdle) ?l ((\<lambda>_. RwIdle)(0 := WriteCas)) ?l"
    by (rule run_step [OF run_refl]) (auto intro: rw_start)
  then have "run rw_step 2 (\<lambda>_. RwIdle) ?l ((\<lambda>_. RwIdle)(0 := WriteCas, 0 := WriteHeld)) (?l\<lparr>rw_state := WRITE_LOCKED\<rparr>)"
    by (rule run_step) (auto simp: rw_write_cas_def cas_def rw_lock_new_def intro: rw_step.rw_wcas [of False])
  then have r: "run rw_step 2 (\<lambda>_. RwIdle) ?l ((\<lambda>_. RwIdle)(0 := WriteHeld)) (?l\<lparr>rw_state := WRITE_LOCKED\<rparr>)" by simp
  show ?thesis
    by (intro exI conjI, rule r, simp) (use rw_lock_exclusive [OF r] in auto)
qed

text \<open>
  C10: the sequence lock. Readers copy the value cell by cell while writers overwrite it cell by cell.
  As long as at most \<open>2 ^ 31\<close> values have been published (the counter has not wrapped around), there is
  at most one writer, every value a read returns is a value that some writer published or the
  initial one, never a mixture, and a read that passes its final check returns the value published
  last.
\<close>

theorem seq_lock_no_torn_read:
  assumes "run sq_step n (\<lambda>_. SeqIdle) (seq_lock_new v) P l" "length (sq_history l) \<le> 2 ^ 31"
  shows "(\<forall>t u. P t = SeqHeld \<longrightarrow> P u = SeqHeld \<longrightarrow> t = u) \<and>
    (\<forall>t w. P t = SeqDone w \<longrightarrow> w \<in> set (sq_history l)) \<and>
    (\<forall>t s w. P t = SeqCheck s w \<longrightarrow> sq_check s w l = SeqDone w \<longrightarrow> w = last (sq_history l))"
proof (intro conjI allI impI)
  note inv = sq_inv_run [OF assms]
  have ok: "sq_reader_ok l (P t)" for t using inv by (simp add: sq_inv_def)
  fix t u s w
  show "P t = SeqHeld \<Longrightarrow> P u = SeqHeld \<Longrightarrow> t = u" by (rule sq_exclusion(3) [OF assms(1)])
  show "P t = SeqDone w \<Longrightarrow> w \<in> set (sq_history l)" using ok [of t] by simp
  assume c: "P t = SeqCheck s w" "sq_check s w l = SeqDone w"
  then have "s = sq_seq l" "even (unat s)"
    using sq_exclusion(1) [OF assms(1), THEN spec, of t] by (auto simp: sq_check_def split: if_splits)
  then show "w = last (sq_history l)" using ok [of t] c(1) sq_inv_counter(3) [OF inv] by simp
qed

theorem seq_lock_no_torn_read_witness:
  "\<exists>P l. run sq_step 1 (\<lambda>_. SeqIdle) (seq_lock_new [7 :: nat]) P l \<and> P 0 = SeqDone [7] \<and> [7] \<in> set (sq_history l)"
proof -
  let ?l = "seq_lock_new [7 :: nat]" and ?I = "\<lambda>_. SeqIdle"
  have "run sq_step 1 ?I ?l (?I(0 := SeqReadLoad)) ?l"
    by (rule run_step [OF run_refl]) (auto intro: sq_start)
  then have "run sq_step 1 ?I ?l (?I(0 := SeqReadLoad, 0 := sq_read_load ?l)) ?l"
    by (rule run_step) (auto intro: sq_rload)
  then have "run sq_step 1 ?I ?l (?I(0 := SeqCopy 0 [])) ?l" by (simp add: sq_read_load_def seq_lock_new_def)
  then have "run sq_step 1 ?I ?l (?I(0 := SeqCopy 0 [], 0 := sq_copy 0 [] ?l)) ?l"
    by (rule run_step) (auto intro: sq_rcopy)
  then have "run sq_step 1 ?I ?l (?I(0 := SeqCopy 0 [7])) ?l" by (simp add: sq_copy_def seq_lock_new_def)
  then have "run sq_step 1 ?I ?l (?I(0 := SeqCopy 0 [7], 0 := sq_copy 0 [7] ?l)) ?l"
    by (rule run_step) (auto intro: sq_rcopy)
  then have "run sq_step 1 ?I ?l (?I(0 := SeqCheck 0 [7])) ?l" by (simp add: sq_copy_def seq_lock_new_def)
  then have "run sq_step 1 ?I ?l (?I(0 := SeqCheck 0 [7], 0 := sq_check 0 [7] ?l)) ?l"
    by (rule run_step) (auto intro: sq_rcheck)
  then have r: "run sq_step 1 ?I ?l (?I(0 := SeqDone [7])) ?l" by (simp add: sq_check_def seq_lock_new_def)
  have "length (sq_history ?l) \<le> 2 ^ 31" by (simp add: seq_lock_new_def)
  from seq_lock_no_torn_read [OF r this, THEN conjunct2, THEN conjunct1, THEN spec, THEN spec, of 0 "[7]"]
  have "[7] \<in> set (sq_history ?l)" by simp
  then show ?thesis using r by (intro exI [of _ "?I(0 := SeqDone [7])"] exI [of _ ?l]) simp
qed

end
