(* ===== verification/Sync_Async.thy ===== *)
theory Sync_Async
  imports Noalloc Fs_Types Sync_Locks
begin

text \<open>
  The primitives of \<^verbatim>\<open>kernel/core/src/sync\<close> on which tasks of the executor sleep: \<^verbatim>\<open>WaitQueue\<close>
  (\<^verbatim>\<open>waitqueue.rs\<close>), \<^verbatim>\<open>Mutex\<close> (\<^verbatim>\<open>mutex.rs\<close>), \<^verbatim>\<open>Semaphore\<close> (\<^verbatim>\<open>semaphore.rs\<close>) and \<^verbatim>\<open>Condvar\<close> (\<^verbatim>\<open>condvar.rs\<close>).
  As for the spinning locks, an operation is the sequence of its atomic steps, and \<open>run\<close> interleaves
  them; a queue operation under the queue's spin lock is one step. Tasks are numbers and a waker is
  the number of its task. \<open>woken\<close> is the set of tasks whose waker was invoked; a task that returned
  \<^verbatim>\<open>Pending\<close> is polled again only when it is in that set. Callers are taken to hold no \<^verbatim>\<open>IrqSpinLock\<close>, which
  the option \<^verbatim>\<open>lock_debug\<close> asserts. The lemmas show mutual exclusion, that
  permits are conserved, and that a sleeping task's waker is queued until it is invoked. They also
  show what the code gets wrong: wakers that stay in a queue after their task obtained the lock
  absorb the wakeup of a task that still sleeps.
\<close>

section \<open>WaitQueue\<close>

definition MAX_WAITERS :: usize where "MAX_WAITERS = 32"

definition wq_register_waker :: "nat array_vec \<Rightarrow> nat list \<Rightarrow> nat \<Rightarrow> (bool \<times> nat list) option" where
  "wq_register_waker av waiters waker =
     (if length waiters < MAX_WAITERS
      then do { waiters \<leftarrow> av_push av waiters waker; Some (True, waiters) }
      else Some (False, waiters))"

definition wq_wake_one :: "nat array_vec \<Rightarrow> nat list \<Rightarrow> (nat list \<times> nat list) option" where
  "wq_wake_one av waiters =
     (if waiters \<noteq> [] then do { (waker, waiters) \<leftarrow> av_swap_remove av waiters 0; Some ([waker], waiters) }
      else Some ([], waiters))"

partial_function (option) wq_drain :: "nat array_vec \<Rightarrow> nat list \<Rightarrow> nat list \<Rightarrow> (nat list \<times> nat list) option" where
  "wq_drain av waiters temp =
     (case av_pop av waiters of
        (None, waiters) \<Rightarrow> Some (waiters, temp)
      | (Some w, waiters) \<Rightarrow> do { temp \<leftarrow> av_push av temp w; wq_drain av waiters temp })"

partial_function (option) wq_wake_drained :: "nat array_vec \<Rightarrow> nat list \<Rightarrow> nat list option" where
  "wq_wake_drained av temp =
     (case av_pop av temp of
        (None, temp) \<Rightarrow> Some []
      | (Some w, temp) \<Rightarrow> do { ws \<leftarrow> wq_wake_drained av temp; Some (w # ws) })"

definition wq_wake_all :: "nat array_vec \<Rightarrow> nat list \<Rightarrow> (nat list \<times> nat list) option" where
  "wq_wake_all av waiters =
     do { (waiters, temp) \<leftarrow> wq_drain av waiters [];
          ws \<leftarrow> wq_wake_drained av temp;
          Some (ws, waiters) }"

text \<open>\<^verbatim>\<open>WaitFuture::poll\<close>: whether it is ready, the flag \<^verbatim>\<open>registered\<close> and the queue afterwards.\<close>

definition wq_wait_poll :: "nat array_vec \<Rightarrow> nat list \<Rightarrow> bool \<Rightarrow> nat \<Rightarrow> (bool \<times> bool \<times> nat list) option" where
  "wq_wait_poll av waiters registered waker =
     (if registered then Some (True, True, waiters)
      else if length waiters < MAX_WAITERS
      then do { waiters \<leftarrow> av_push av waiters waker; Some (False, True, waiters) }
      else Some (False, True, waiters))"

section \<open>Mutex\<close>

record 'a mutex =
  mx_locked :: bool
  mx_waiters :: "nat list"
  mx_data :: 'a
  mx_woken :: "nat set"

definition mutex_new :: "'a \<Rightarrow> 'a mutex" where
  "mutex_new value = \<lparr>mx_locked = False, mx_waiters = [], mx_data = value, mx_woken = {}\<rparr>"

datatype mx_pc = MxIdle | MxPoll | MxRegister | MxRetry bool | MxSelfWake | MxPending | MxHeld | MxWake | MxTry | MxSync

text \<open>The three parts of \<^verbatim>\<open>MutexLockFuture::poll\<close>, and what a poll that is not ready does last.\<close>

definition mx_poll_fast :: "bool \<Rightarrow> 'a mutex \<Rightarrow> mx_pc \<times> 'a mutex" where
  "mx_poll_fast spurious m =
     (let (ok, v) = cas spurious False True (mx_locked m)
      in (if ok then MxHeld else MxRegister, m\<lparr>mx_locked := v\<rparr>))"

definition mx_poll_register :: "nat array_vec \<Rightarrow> nat \<Rightarrow> 'a mutex \<Rightarrow> (mx_pc \<times> 'a mutex) option" where
  "mx_poll_register av t m =
     do { (registered, q) \<leftarrow> wq_register_waker av (mx_waiters m) t;
          Some (MxRetry registered, m\<lparr>mx_waiters := q\<rparr>) }"

definition mx_poll_retry :: "bool \<Rightarrow> 'a mutex \<Rightarrow> mx_pc \<times> 'a mutex" where
  "mx_poll_retry registered m =
     (let (ok, v) = cas False False True (mx_locked m)
      in (if ok then MxHeld else if registered then MxPending else MxSelfWake, m\<lparr>mx_locked := v\<rparr>))"

definition mx_self_wake :: "nat \<Rightarrow> 'a mutex \<Rightarrow> 'a mutex" where
  "mx_self_wake t m = m\<lparr>mx_woken := insert t (mx_woken m)\<rparr>"

definition mx_try_lock :: "'a mutex \<Rightarrow> bool \<times> 'a mutex" where
  "mx_try_lock m = (let (ok, v) = cas False False True (mx_locked m) in (ok, m\<lparr>mx_locked := v\<rparr>))"

text \<open>\<^verbatim>\<open>lock_sync\<close> repeats \<^verbatim>\<open>try_lock\<close>.\<close>

definition mx_lock_sync :: "'a mutex \<Rightarrow> mx_pc \<times> 'a mutex" where
  "mx_lock_sync m = (let (ok, m) = mx_try_lock m in (if ok then MxHeld else MxSync, m))"

text \<open>\<^verbatim>\<open>MutexGuard::drop\<close>: the store and then the wakeup.\<close>

definition mx_unlock :: "'a mutex \<Rightarrow> 'a mutex" where
  "mx_unlock m = m\<lparr>mx_locked := False\<rparr>"

definition mx_wake_next :: "nat array_vec \<Rightarrow> 'a mutex \<Rightarrow> 'a mutex option" where
  "mx_wake_next av m =
     do { (ws, q) \<leftarrow> wq_wake_one av (mx_waiters m);
          Some (m\<lparr>mx_waiters := q, mx_woken := mx_woken m \<union> set ws\<rparr>) }"

inductive mx_step :: "nat array_vec \<Rightarrow> nat \<Rightarrow> mx_pc \<Rightarrow> 'a mutex \<Rightarrow> mx_pc \<Rightarrow> 'a mutex \<Rightarrow> bool" for av t where
  mx_start: "pc \<in> {MxPoll, MxTry, MxSync} \<Longrightarrow> mx_step av t MxIdle m pc m"
| mx_fast: "mx_poll_fast b m = (pc, m') \<Longrightarrow> mx_step av t MxPoll m pc m'"
| mx_register: "mx_poll_register av t m = Some (pc, m') \<Longrightarrow> mx_step av t MxRegister m pc m'"
| mx_retry: "mx_poll_retry r m = (pc, m') \<Longrightarrow> mx_step av t (MxRetry r) m pc m'"
| mx_selfwake: "mx_step av t MxSelfWake m MxPending (mx_self_wake t m)"
| mx_repoll: "t \<in> mx_woken m \<Longrightarrow> mx_step av t MxPending m MxPoll (m\<lparr>mx_woken := mx_woken m - {t}\<rparr>)"
| mx_try: "mx_try_lock m = (ok, m') \<Longrightarrow> mx_step av t MxTry m (if ok then MxHeld else MxIdle) m'"
| mx_sync: "mx_lock_sync m = (pc, m') \<Longrightarrow> mx_step av t MxSync m pc m'"
| mx_modify: "mx_step av t MxHeld m MxHeld (m\<lparr>mx_data := d\<rparr>)"
| mx_drop: "mx_step av t MxHeld m MxWake (mx_unlock m)"
| mx_wake: "mx_wake_next av m = Some m' \<Longrightarrow> mx_step av t MxWake m MxIdle m'"

section \<open>Semaphore\<close>

record semaphore =
  sm_permits :: u32
  sm_waiters :: "nat wait_queue"
  sm_woken :: "nat set"

definition semaphore_new :: "u32 \<Rightarrow> semaphore" where
  "semaphore_new permits = \<lparr>sm_permits = permits, sm_waiters = [], sm_woken = {}\<rparr>"

text \<open>The three calls of \<^verbatim>\<open>try_acquire\<close>: by a client, and the two of \<^verbatim>\<open>SemaphoreAcquireFuture::poll\<close>.\<close>

datatype sm_call = Direct | FirstTry | SecondTry
datatype sm_pc = SmIdle | SmLoad sm_call | SmCas sm_call u32 | SmRegister | SmPending | SmHeld | SmWake

fun sm_failed :: "sm_call \<Rightarrow> sm_pc" where
  "sm_failed Direct = SmIdle"
| "sm_failed FirstTry = SmRegister"
| "sm_failed SecondTry = SmPending"

definition sm_try_load :: "sm_call \<Rightarrow> semaphore \<Rightarrow> sm_pc" where
  "sm_try_load k s = (if sm_permits s = 0 then sm_failed k else SmCas k (sm_permits s))"

definition sm_try_cas :: "bool \<Rightarrow> sm_call \<Rightarrow> u32 \<Rightarrow> semaphore \<Rightarrow> (sm_pc \<times> semaphore) option" where
  "sm_try_cas spurious k current s =
     do { c \<leftarrow> chk_sub current 1;
          let (ok, v) = cas spurious current c (sm_permits s);
          Some (if ok then SmHeld else SmLoad k, s\<lparr>sm_permits := v\<rparr>) }"

definition sm_poll_register :: "nat \<Rightarrow> semaphore \<Rightarrow> semaphore" where
  "sm_poll_register t s = s\<lparr>sm_waiters := register_waker (sm_waiters s) t\<rparr>"

definition sm_release :: "semaphore \<Rightarrow> semaphore" where
  "sm_release s = s\<lparr>sm_permits := sm_permits s + 1\<rparr>"

definition sm_wake_next :: "semaphore \<Rightarrow> semaphore" where
  "sm_wake_next s =
     (let (ws, q) = wake_one (sm_waiters s) in s\<lparr>sm_waiters := q, sm_woken := sm_woken s \<union> set ws\<rparr>)"

inductive sm_step :: "nat \<Rightarrow> sm_pc \<Rightarrow> semaphore \<Rightarrow> sm_pc \<Rightarrow> semaphore \<Rightarrow> bool" for t where
  sm_start: "k = Direct \<or> k = FirstTry \<Longrightarrow> sm_step t SmIdle s (SmLoad k) s"
| sm_load: "sm_step t (SmLoad k) s (sm_try_load k s) s"
| sm_cas: "sm_try_cas b k c s = Some (pc, s') \<Longrightarrow> sm_step t (SmCas k c) s pc s'"
| sm_register: "sm_step t SmRegister s (SmLoad SecondTry) (sm_poll_register t s)"
| sm_repoll: "t \<in> sm_woken s \<Longrightarrow> sm_step t SmPending s (SmLoad FirstTry) (s\<lparr>sm_woken := sm_woken s - {t}\<rparr>)"
| sm_drop: "sm_step t SmHeld s SmWake (sm_release s)"
| sm_wake: "sm_step t SmWake s SmIdle (sm_wake_next s)"

section \<open>Condvar\<close>

text \<open>
  A condition variable together with the mutex its clients use. \<open>CvMutex\<close> is an operation on the
  mutex, the other program counters are the rest of \<^verbatim>\<open>wait_async\<close>: it drops the guard (the store and
  the wakeup), awaits the wait future and locks the mutex again.
\<close>

record 'a cond_sys =
  cv_mutex :: "'a mutex"
  cv_waiters :: "nat list"

datatype cv_pc = CvMutex mx_pc | CvDropWake | CvWait bool | CvPending

definition cv_notify_one :: "nat array_vec \<Rightarrow> 'a cond_sys \<Rightarrow> 'a cond_sys option" where
  "cv_notify_one av s =
     do { (ws, q) \<leftarrow> (if cv_waiters s = [] then Some ([], cv_waiters s)
                       else do { (w, q) \<leftarrow> av_swap_remove av (cv_waiters s) 0; Some ([w], q) });
          Some (s\<lparr>cv_waiters := q, cv_mutex := (cv_mutex s)\<lparr>mx_woken := mx_woken (cv_mutex s) \<union> set ws\<rparr>\<rparr>) }"

definition cv_notify_all :: "nat array_vec \<Rightarrow> 'a cond_sys \<Rightarrow> 'a cond_sys option" where
  "cv_notify_all av s =
     do { (q, temp) \<leftarrow> wq_drain av (cv_waiters s) [];
          ws \<leftarrow> wq_wake_drained av temp;
          Some (s\<lparr>cv_waiters := q, cv_mutex := (cv_mutex s)\<lparr>mx_woken := mx_woken (cv_mutex s) \<union> set ws\<rparr>\<rparr>) }"

definition cv_wait_poll :: "nat array_vec \<Rightarrow> nat \<Rightarrow> bool \<Rightarrow> 'a cond_sys \<Rightarrow> (cv_pc \<times> 'a cond_sys) option" where
  "cv_wait_poll av t registered s =
     (if registered then Some (CvMutex MxPoll, s)
      else if length (cv_waiters s) < MAX_WAITERS
      then do { q \<leftarrow> av_push av (cv_waiters s) t; Some (CvPending, s\<lparr>cv_waiters := q\<rparr>) }
      else Some (CvPending, s))"

inductive cv_step :: "nat array_vec \<Rightarrow> nat \<Rightarrow> cv_pc \<Rightarrow> 'a cond_sys \<Rightarrow> cv_pc \<Rightarrow> 'a cond_sys \<Rightarrow> bool" for av t where
  cv_mutex_op: "mx_step av t pc (cv_mutex s) pc' m \<Longrightarrow> cv_step av t (CvMutex pc) s (CvMutex pc') (s\<lparr>cv_mutex := m\<rparr>)"
| cv_wait_async: "cv_step av t (CvMutex MxHeld) s CvDropWake (s\<lparr>cv_mutex := mx_unlock (cv_mutex s)\<rparr>)"
| cv_drop_wake: "mx_wake_next av (cv_mutex s) = Some m \<Longrightarrow> cv_step av t CvDropWake s (CvWait False) (s\<lparr>cv_mutex := m\<rparr>)"
| cv_poll: "cv_wait_poll av t r s = Some (pc, s') \<Longrightarrow> cv_step av t (CvWait r) s pc s'"
| cv_repoll: "t \<in> mx_woken (cv_mutex s) \<Longrightarrow>
    cv_step av t CvPending s (CvWait True) (s\<lparr>cv_mutex := (cv_mutex s)\<lparr>mx_woken := mx_woken (cv_mutex s) - {t}\<rparr>\<rparr>)"
| cv_one: "cv_notify_one av s = Some s' \<Longrightarrow> cv_step av t (CvMutex MxIdle) s (CvMutex MxIdle) s'"
| cv_all: "cv_notify_all av s = Some s' \<Longrightarrow> cv_step av t (CvMutex MxIdle) s (CvMutex MxIdle) s'"

section \<open>Wait queues\<close>

lemma swap_remove_0:
  assumes "array_vec_ok N av" "length q \<le> N" "q \<noteq> []"
  obtains q' where "av_swap_remove av q 0 = Some (hd q, q')" "set q = insert (hd q) (set q')" "length q' < length q"
proof -
  obtain x xs where q: "q = x # xs" using assms(3) by (cases q) auto
  have "butlast (q[0 := last q]) = (if xs = [] then [] else last xs # butlast xs)" using q by simp
  moreover have "set xs = insert (last xs) (set (butlast xs))" if "xs \<noteq> []"
    using append_butlast_last_id [OF that] by (metis Un_insert_right list.set(2) list.simps(15) set_append sup_bot.right_neutral empty_set)
  ultimately show ?thesis
    using array_vec_ok_simps(9) [OF assms(1,2), of 0] q by (intro that [of "butlast (q[0 := last q])"]) auto
qed

lemma wq_drain_rev:
  "array_vec_ok N av \<Longrightarrow> length q + length temp \<le> N \<Longrightarrow> wq_drain av q temp = Some ([], temp @ rev q)"
proof (induction q arbitrary: temp rule: rev_induct)
  case Nil
  then show ?case by (subst wq_drain.simps) (simp add: array_vec_ok_simps)
next
  case (snoc w q)
  have "av_pop av (q @ [w]) = (Some w, q)" using array_vec_ok_simps(3) [OF snoc(2), of "q @ [w]"] snoc(3) by simp
  moreover have "av_push av temp w = Some (temp @ [w])" using array_vec_ok_simps(8) [OF snoc(2)] snoc(3) by simp
  ultimately show ?case using snoc(1) [of "temp @ [w]"] snoc(2,3) by (subst wq_drain.simps) simp
qed

lemma wq_wake_drained_rev: "array_vec_ok N av \<Longrightarrow> length q \<le> N \<Longrightarrow> wq_wake_drained av q = Some (rev q)"
proof (induction q rule: rev_induct)
  case Nil
  then show ?case by (subst wq_wake_drained.simps) (simp add: array_vec_ok_simps)
next
  case (snoc w q)
  have "av_pop av (q @ [w]) = (Some w, q)" using array_vec_ok_simps(3) [OF snoc(2), of "q @ [w]"] snoc(3) by simp
  then show ?case using snoc by (subst wq_wake_drained.simps) simp
qed

section \<open>Mutual exclusion\<close>

interpretation mx: lock_protocol "mx_step av" "\<lambda>_. True" "\<lambda>p. p = MxHeld" mx_locked
  by unfold_locales (auto elim!: mx_step.cases simp: mx_poll_fast_def mx_poll_register_def mx_poll_retry_def
    mx_self_wake_def mx_try_lock_def mx_lock_sync_def mx_unlock_def mx_wake_next_def cas_def bind_eq_Some_conv split: if_splits)

text \<open>A task that waits, or is about to, has its waker in the queue or was woken.\<close>

definition mx_reachable :: "'a mutex \<Rightarrow> nat set" where
  "mx_reachable m = set (mx_waiters m) \<union> mx_woken m"

definition mx_registered :: "(nat \<Rightarrow> mx_pc) \<Rightarrow> 'a mutex \<Rightarrow> bool" where
  "mx_registered P m \<longleftrightarrow> length (mx_waiters m) \<le> MAX_WAITERS \<and>
     (\<forall>t. P t = MxRetry True \<or> P t = MxPending \<longrightarrow> t \<in> mx_reachable m)"

lemma mx_registered_upd:
  assumes "mx_registered P m" "length (mx_waiters m') \<le> MAX_WAITERS" "mx_reachable m - {t} \<subseteq> mx_reachable m'"
    and "p = MxRetry True \<or> p = MxPending \<Longrightarrow> t \<in> mx_reachable m'"
  shows "mx_registered (P(t := p)) m'"
  unfolding mx_registered_def
proof (intro conjI allI impI)
  show "length (mx_waiters m') \<le> MAX_WAITERS" by (rule assms(2))
  fix u assume u: "(P(t := p)) u = MxRetry True \<or> (P(t := p)) u = MxPending"
  show "u \<in> mx_reachable m'"
  proof (cases "u = t")
    case True
    then show ?thesis using u assms(4) by simp
  next
    case False
    then have "u \<in> mx_reachable m" using u assms(1) by (auto simp: mx_registered_def)
    then show ?thesis using False assms(3) by blast
  qed
qed

lemma mx_register_Some:
  assumes "array_vec_ok MAX_WAITERS av" "length (mx_waiters m) \<le> MAX_WAITERS"
  shows "mx_poll_register av t m = Some (if length (mx_waiters m) < MAX_WAITERS
    then (MxRetry True, m\<lparr>mx_waiters := mx_waiters m @ [t]\<rparr>) else (MxRetry False, m))"
  using array_vec_ok_simps(8) [OF assms(1)] by (simp add: mx_poll_register_def wq_register_waker_def)

lemma mx_wake_Some:
  assumes "array_vec_ok MAX_WAITERS av" "length (mx_waiters m) \<le> MAX_WAITERS"
  obtains m' where "mx_wake_next av m = Some m'" "mx_reachable m' = mx_reachable m"
    "length (mx_waiters m') \<le> MAX_WAITERS"
proof (cases "mx_waiters m = []")
  case True
  then show ?thesis by (intro that [of m]) (simp_all add: mx_wake_next_def wq_wake_one_def mx_reachable_def)
next
  case False
  obtain q' where q: "av_swap_remove av (mx_waiters m) 0 = Some (hd (mx_waiters m), q')"
    "set (mx_waiters m) = insert (hd (mx_waiters m)) (set q')" "length q' < length (mx_waiters m)"
    by (rule swap_remove_0 [OF assms False])
  show ?thesis
    by (rule that [of "m\<lparr>mx_waiters := q', mx_woken := insert (hd (mx_waiters m)) (mx_woken m)\<rparr>"])
      (use q assms(2) False in \<open>auto simp: mx_wake_next_def wq_wake_one_def mx_reachable_def\<close>)
qed

lemma mx_registered_step:
  assumes "array_vec_ok MAX_WAITERS av" "mx_step av t (P t) m p m'" "mx_registered P m"
  shows "mx_registered (P(t := p)) m'"
proof -
  have len: "length (mx_waiters m) \<le> MAX_WAITERS"
    and at: "P t = MxRetry True \<or> P t = MxPending \<Longrightarrow> t \<in> mx_reachable m" using assms(3) by (auto simp: mx_registered_def)
  from assms(2) show ?thesis
  proof cases
    case mx_register
    then show ?thesis using mx_register_Some [OF assms(1) len, of t] len
      by (intro mx_registered_upd [OF assms(3)]) (auto simp: mx_reachable_def split: if_splits)
  next
    case (mx_retry r)
    then show ?thesis using at len
      by (intro mx_registered_upd [OF assms(3)])
        (auto simp: mx_poll_retry_def cas_def mx_reachable_def split: if_splits)
  next
    case mx_wake
    obtain m1 where "mx_wake_next av m = Some m1" "mx_reachable m1 = mx_reachable m" "length (mx_waiters m1) \<le> MAX_WAITERS"
      by (rule mx_wake_Some [OF assms(1) len])
    then show ?thesis using mx_wake by (intro mx_registered_upd [OF assms(3)]) auto
  qed (rule mx_registered_upd [OF assms(3)]; use len in \<open>auto simp: mx_poll_fast_def mx_self_wake_def mx_try_lock_def
      mx_lock_sync_def mx_unlock_def cas_def mx_reachable_def split: if_splits\<close>)+
qed

lemma mx_registered_run:
  assumes "array_vec_ok MAX_WAITERS av"
  shows "run (mx_step av) n (\<lambda>_. MxIdle) (mutex_new v) P m \<Longrightarrow> mx_registered P m"
proof (induction rule: run.induct)
  case run_refl
  then show ?case by (simp add: mx_registered_def mutex_new_def)
next
  case (run_step P m t p m')
  then show ?case by (intro mx_registered_step [OF assms, of t P m p m'])
qed

section \<open>Permits\<close>

definition sm_holders :: "(nat \<Rightarrow> sm_pc) \<Rightarrow> nat set" where "sm_holders P = {t. P t = SmHeld}"

fun sm_pc_ok :: "semaphore \<Rightarrow> nat \<Rightarrow> sm_pc \<Rightarrow> bool" where
  "sm_pc_ok s t (SmCas k c) \<longleftrightarrow> c \<noteq> 0 \<and> (k = SecondTry \<longrightarrow> t \<in> set (sm_waiters s) \<union> sm_woken s)"
| "sm_pc_ok s t (SmLoad k) \<longleftrightarrow> (k = SecondTry \<longrightarrow> t \<in> set (sm_waiters s) \<union> sm_woken s)"
| "sm_pc_ok s t SmPending \<longleftrightarrow> t \<in> set (sm_waiters s) \<union> sm_woken s"
| "sm_pc_ok s t _ \<longleftrightarrow> True"

definition sm_inv :: "nat \<Rightarrow> nat \<Rightarrow> (nat \<Rightarrow> sm_pc) \<Rightarrow> semaphore \<Rightarrow> bool" where
  "sm_inv k n P s \<longleftrightarrow> (\<forall>t. n \<le> t \<longrightarrow> P t = SmIdle) \<and> unat (sm_permits s) + card (sm_holders P) = k \<and>
     (\<forall>t. sm_pc_ok s t (P t))"

lemma sm_holders_finite:
  assumes "\<forall>t. n \<le> t \<longrightarrow> P t = SmIdle" shows "finite (sm_holders P)"
  by (rule finite_subset [of _ "{..<n}"]) (use assms in \<open>force simp: sm_holders_def not_le\<close>)+

lemma sm_holders_upd:
  "sm_holders (P(t := p)) = (if p = SmHeld then insert t (sm_holders P) else sm_holders P - {t})"
  by (auto simp: sm_holders_def)

definition sm_reachable :: "semaphore \<Rightarrow> nat set" where
  "sm_reachable s = set (sm_waiters s) \<union> sm_woken s"

lemma sm_pc_ok_frame: "sm_pc_ok s u pc \<Longrightarrow> u \<noteq> t \<Longrightarrow> sm_reachable s - {t} \<subseteq> sm_reachable s' \<Longrightarrow> sm_pc_ok s' u pc"
  by (cases pc) (auto simp: sm_reachable_def)

lemma sm_inv_upd:
  assumes "sm_inv k n P s" "t < n" "sm_reachable s - {t} \<subseteq> sm_reachable s'" "sm_pc_ok s' t p"
    and "unat (sm_permits s') + card (sm_holders (P(t := p))) = k"
  shows "sm_inv k n (P(t := p)) s'"
proof -
  have "sm_pc_ok s' u ((P(t := p)) u)" for u
    using assms(1,4) sm_pc_ok_frame [OF _ _ assms(3), of u "P u"] by (cases "u = t") (simp_all add: sm_inv_def)
  then show ?thesis using assms(1,2,5) by (simp add: sm_inv_def)
qed

lemma sm_inv_quiet:
  assumes "sm_inv k n P s" "t < n" "sm_reachable s - {t} \<subseteq> sm_reachable s'" "sm_pc_ok s' t p"
    and "P t \<noteq> SmHeld" "p \<noteq> SmHeld" "sm_permits s' = sm_permits s"
  shows "sm_inv k n (P(t := p)) s'"
proof -
  have "sm_holders (P(t := p)) = sm_holders P" using assms(5,6) by (auto simp: sm_holders_def)
  then show ?thesis using assms by (intro sm_inv_upd [OF assms(1-4)]) (simp add: sm_inv_def)
qed

lemma sm_inv_acquire:
  assumes "sm_inv k n P s" "t < n" "P t \<noteq> SmHeld" "sm_permits s \<noteq> 0"
  shows "sm_inv k n (P(t := SmHeld)) (s\<lparr>sm_permits := sm_permits s - 1\<rparr>)"
proof (rule sm_inv_upd [OF assms(1,2)])
  have "finite (sm_holders P)" using assms(1) by (intro sm_holders_finite [of n]) (simp add: sm_inv_def)
  moreover have "t \<notin> sm_holders P" using assms(3) by (simp add: sm_holders_def)
  moreover have "unat (sm_permits s - 1) = unat (sm_permits s) - 1" "0 < unat (sm_permits s)"
    using assms(4) by (simp_all add: unat_minus_one unat_gt_0)
  ultimately show "unat (sm_permits (s\<lparr>sm_permits := sm_permits s - 1\<rparr>)) + card (sm_holders (P(t := SmHeld))) = k"
    using assms(1) by (simp add: sm_inv_def sm_holders_upd)
qed (simp_all add: sm_reachable_def)

lemma sm_inv_release:
  assumes "sm_inv k n P s" "t < n" "P t = SmHeld" "k < 2 ^ 32"
  shows "sm_inv k n (P(t := SmWake)) (sm_release s)"
proof (rule sm_inv_upd [OF assms(1,2)])
  have fin: "finite (sm_holders P)" using assms(1) by (intro sm_holders_finite [of n]) (simp add: sm_inv_def)
  have mem: "t \<in> sm_holders P" using assms(3) by (simp add: sm_holders_def)
  then have pos: "0 < card (sm_holders P)" using fin by (auto simp: card_gt_0_iff)
  have sum: "unat (sm_permits s) + card (sm_holders P) = k" using assms(1) by (simp add: sm_inv_def)
  then have "unat (sm_permits s + 1) = unat (sm_permits s) + 1" using pos assms(4) by (simp add: unat_word_ariths)
  then show "unat (sm_permits (sm_release s)) + card (sm_holders (P(t := SmWake))) = k"
    using sum pos fin mem by (simp add: sm_release_def sm_holders_upd)
qed (simp_all add: sm_reachable_def sm_release_def)

lemma sm_inv_step:
  assumes "sm_step t (P t) s p s'" "sm_inv k n P s" "t < n" "k < 2 ^ 32"
  shows "sm_inv k n (P(t := p)) s'"
proof -
  have pc: "sm_pc_ok s t (P t)" using assms(2) by (simp add: sm_inv_def)
  note quiet = sm_inv_quiet [OF assms(2,3)]
  from assms(1) show ?thesis
  proof cases
    case (sm_load c)
    then show ?thesis using pc by (cases c) (auto intro!: quiet simp: sm_try_load_def sm_reachable_def)
  next
    case (sm_cas b c cur)
    have sub: "chk_sub cur 1 = Some (cur - 1)" using pc sm_cas(1) by (simp add: chk_sub_def word_le_nat_alt unat_gt_0 Suc_le_eq)
    show ?thesis
    proof (cases "sm_permits s = cur \<and> \<not> b")
      case True
      then show ?thesis using sm_cas sub pc sm_inv_acquire [OF assms(2,3)] by (auto simp: sm_try_cas_def cas_def)
    next
      case False
      then have "p = SmLoad c" "s' = s" using sm_cas(2) sub by (auto simp: sm_try_cas_def cas_def split: if_splits)
      then show ?thesis using sm_cas(1) pc by (intro quiet) auto
    qed
  next
    case sm_drop
    then show ?thesis using sm_inv_release [OF assms(2,3) _ assms(4)] by simp
  next
    case sm_wake
    then show ?thesis
      by (cases "sm_waiters s") (auto intro!: quiet simp: sm_wake_next_def sm_reachable_def)
  qed (auto intro!: quiet simp: sm_poll_register_def sm_reachable_def)
qed

lemma sm_inv_run:
  "run sm_step n (\<lambda>_. SmIdle) (semaphore_new k) P s \<Longrightarrow> sm_inv (unat k) n P s"
proof (induction rule: run.induct)
  case run_refl
  then show ?case by (simp add: sm_inv_def semaphore_new_def sm_holders_def)
next
  case (run_step P s t p s')
  then show ?case using unsigned_less [of k, where ?'a = nat] by (intro sm_inv_step [of t P s p s']) auto
qed

section \<open>Schedules\<close>

text \<open>
  Tasks that only ever lock and unlock, and tasks that only acquire and release a permit, without
  spurious failures.
\<close>

fun mx_next :: "nat array_vec \<Rightarrow> nat \<Rightarrow> mx_pc \<Rightarrow> 'a mutex \<Rightarrow> (mx_pc \<times> 'a mutex) option" where
  "mx_next av t MxIdle m = Some (MxPoll, m)"
| "mx_next av t MxPoll m = Some (mx_poll_fast False m)"
| "mx_next av t MxRegister m = mx_poll_register av t m"
| "mx_next av t (MxRetry r) m = Some (mx_poll_retry r m)"
| "mx_next av t MxSelfWake m = Some (MxPending, mx_self_wake t m)"
| "mx_next av t MxHeld m = Some (MxWake, mx_unlock m)"
| "mx_next av t MxWake m = map_option (Pair MxIdle) (mx_wake_next av m)"
| "mx_next av t _ m = None"

lemma mx_next_step: "mx_next av t p m = Some (p', m') \<Longrightarrow> mx_step av t p m p' m'"
  by (cases "(av, t, p, m)" rule: mx_next.cases) (auto intro: mx_step.intros)

fun sm_next :: "nat \<Rightarrow> sm_pc \<Rightarrow> semaphore \<Rightarrow> (sm_pc \<times> semaphore) option" where
  "sm_next t SmIdle s = Some (SmLoad FirstTry, s)"
| "sm_next t (SmLoad k) s = Some (sm_try_load k s, s)"
| "sm_next t (SmCas k c) s = sm_try_cas False k c s"
| "sm_next t SmRegister s = Some (SmLoad SecondTry, sm_poll_register t s)"
| "sm_next t SmPending s = None"
| "sm_next t SmHeld s = Some (SmWake, sm_release s)"
| "sm_next t SmWake s = Some (SmIdle, sm_wake_next s)"

lemma sm_next_step: "sm_next t p s = Some (p', s') \<Longrightarrow> sm_step t p s p' s'"
  by (cases "(t, p, s)" rule: sm_next.cases) (auto intro: sm_step.intros)

lemma wake_next_others:
  assumes "array_vec_ok MAX_WAITERS av" "length (mx_waiters m) \<le> MAX_WAITERS" "t \<notin> set (mx_waiters m) \<union> mx_woken m"
  shows "\<exists>m'. mx_wake_next av m = Some m' \<and> mx_locked m' = mx_locked m \<and> t \<notin> mx_woken m'"
proof (cases "mx_waiters m = []")
  case False
  then obtain q where "av_swap_remove av (mx_waiters m) 0 = Some (hd (mx_waiters m), q)"
    "set (mx_waiters m) = insert (hd (mx_waiters m)) (set q)" using swap_remove_0 [OF assms(1,2)] by metis
  then show ?thesis using assms(3) False by (auto simp: mx_wake_next_def wq_wake_one_def)
qed (use assms(3) in \<open>simp add: mx_wake_next_def wq_wake_one_def\<close>)

section \<open>Properties\<close>

text \<open>
  C11: the asynchronous mutex. However the tasks interleave, at most one holds the lock, and one does
  exactly while \<^verbatim>\<open>locked\<close> is set; the queue never holds more than 32 wakers and no queue operation
  panics; and the waker of a task that returned \<^verbatim>\<open>Pending\<close> is in the queue or has been invoked.
\<close>

theorem mutex_exclusive:
  assumes "array_vec_ok MAX_WAITERS av" "run (mx_step av) n (\<lambda>_. MxIdle) (mutex_new v) P m"
  shows "(if mx_locked m then \<exists>!t. P t = MxHeld else \<forall>t. P t \<noteq> MxHeld) \<and>
    length (mx_waiters m) \<le> MAX_WAITERS \<and> mx_poll_register av t m \<noteq> None \<and> mx_wake_next av m \<noteq> None \<and>
    (\<forall>t. P t = MxPending \<longrightarrow> t \<in> set (mx_waiters m) \<union> mx_woken m)"
proof -
  have "if mx_locked m then \<exists>!t. P t = MxHeld else \<forall>t. P t \<noteq> MxHeld"
    using mx.exclusion [OF assms(2)] by (simp add: mutex_new_def)
  moreover have reg: "mx_registered P m" by (rule mx_registered_run [OF assms])
  then have len: "length (mx_waiters m) \<le> MAX_WAITERS" by (simp add: mx_registered_def)
  moreover have "mx_wake_next av m \<noteq> None" by (rule mx_wake_Some [OF assms(1) len]) simp
  moreover have "mx_poll_register av t m \<noteq> None" by (simp add: mx_register_Some [OF assms(1) len])
  ultimately show ?thesis using reg unfolding mx_registered_def mx_reachable_def by blast
qed

theorem mutex_exclusive_witness:
  "\<exists>P m. run (mx_step (list_array_vec MAX_WAITERS)) 3 (\<lambda>_. MxIdle) (mutex_new (0 :: nat)) P m \<and> mx_locked m \<and>
     (\<exists>!t. P t = MxHeld)"
proof -
  let ?m = "mutex_new (0 :: nat)" and ?av = "list_array_vec MAX_WAITERS"
  have s: "schedule (mx_next ?av) [0, 0] (\<lambda>_. MxIdle, ?m) = Some ((\<lambda>_. MxIdle)(0 := MxHeld), ?m\<lparr>mx_locked := True\<rparr>)"
    by (simp add: mx_poll_fast_def cas_def mutex_new_def)
  have r: "run (mx_step ?av) 3 (\<lambda>_. MxIdle) ?m ((\<lambda>_. MxIdle)(0 := MxHeld)) (?m\<lparr>mx_locked := True\<rparr>)"
    by (rule schedule_run [OF mx_next_step run_refl s]) simp_all
  from mutex_exclusive [OF list_array_vec_ok r, THEN conjunct1]
  have "\<exists>!t. ((\<lambda>_. MxIdle)(0 := MxHeld)) t = MxHeld" by simp
  then show ?thesis
    using r by (intro exI [of _ "(\<lambda>_. MxIdle)(0 := MxHeld)"] exI [of _ "?m\<lparr>mx_locked := True\<rparr>"]) simp
qed

text \<open>
  C35: a wakeup of the mutex can be lost. Task 0 fails to lock while task 2 holds the lock, queues its
  waker, and obtains the lock at its second attempt because task 2 has released it in between; its
  waker stays in the queue. Task 1 then queues its waker and returns \<^verbatim>\<open>Pending\<close>. When task 0 unlocks it
  wakes itself: the mutex is free and no task will use it again, but task 1 is never woken.
\<close>

theorem mutex_lost_wakeup:
  assumes "array_vec_ok MAX_WAITERS av"
  shows "\<exists>P m. run (mx_step av) 3 (\<lambda>_. MxIdle) (mutex_new v) P m \<and> \<not> mx_locked m \<and>
    P 0 = MxIdle \<and> P 1 = MxPending \<and> P 2 = MxIdle \<and> 1 \<notin> mx_woken m"
proof -
  note av = array_vec_ok_simps(8,9) [OF assms]
  have "\<exists>P m. schedule (mx_next av) [2, 2, 0, 0, 2, 2, 0, 0, 1, 1, 1, 1, 0, 0] (\<lambda>_. MxIdle, mutex_new v) = Some (P, m) \<and>
    \<not> mx_locked m \<and> P 0 = MxIdle \<and> P 1 = MxPending \<and> P 2 = MxIdle \<and> 1 \<notin> mx_woken m"
    by (simp add: mutex_new_def mx_poll_fast_def mx_poll_register_def mx_poll_retry_def mx_unlock_def mx_wake_next_def
      wq_register_waker_def wq_wake_one_def cas_def MAX_WAITERS_def av)
  then obtain P m where s: "schedule (mx_next av) [2, 2, 0, 0, 2, 2, 0, 0, 1, 1, 1, 1, 0, 0] (\<lambda>_. MxIdle, mutex_new v) = Some (P, m)"
    and r: "\<not> mx_locked m \<and> P 0 = MxIdle \<and> P 1 = MxPending \<and> P 2 = MxIdle \<and> 1 \<notin> mx_woken m" by blast
  have "run (mx_step av) 3 (\<lambda>_. MxIdle) (mutex_new v) P m"
    by (rule schedule_run [OF mx_next_step run_refl s]) simp_all
  then show ?thesis using r by blast
qed

theorem mutex_lost_wakeup_witness:
  "\<exists>P m. run (mx_step (list_array_vec MAX_WAITERS)) 3 (\<lambda>_. MxIdle) (mutex_new (0 :: nat)) P m \<and> \<not> mx_locked m \<and>
    P 0 = MxIdle \<and> P 1 = MxPending \<and> P 2 = MxIdle \<and> 1 \<notin> mx_woken m"
  by (rule mutex_lost_wakeup [OF list_array_vec_ok])

text \<open>
  C27: the semaphore conserves permits. In every reachable state the available permits and the permits
  held add up to the initial number, so at most that many tasks hold one; taking a permit never
  underflows; and the waker of a task that returned \<^verbatim>\<open>Pending\<close> is in the queue or has been invoked.
\<close>

theorem semaphore_permits:
  assumes "run sm_step n (\<lambda>_. SmIdle) (semaphore_new k) P s"
  shows "unat (sm_permits s) + card {t. P t = SmHeld} = unat k \<and>
    (\<forall>t c cur b. P t = SmCas c cur \<longrightarrow> sm_try_cas b c cur s \<noteq> None) \<and>
    (\<forall>t. P t = SmPending \<longrightarrow> t \<in> set (sm_waiters s) \<union> sm_woken s)"
proof (intro conjI allI impI)
  have inv: "sm_inv (unat k) n P s" using assms by (rule sm_inv_run)
  then have pc: "sm_pc_ok s t (P t)" for t by (simp add: sm_inv_def)
  show "unat (sm_permits s) + card {t. P t = SmHeld} = unat k"
    using inv by (simp add: sm_inv_def sm_holders_def)
  fix t c cur b
  show "sm_try_cas b c cur s \<noteq> None" if "P t = SmCas c cur"
    using pc [of t] that by (simp add: sm_try_cas_def chk_sub_def word_le_nat_alt unat_gt_0 Suc_le_eq split: prod.splits)
  show "t \<in> set (sm_waiters s) \<union> sm_woken s" if "P t = SmPending" using pc [of t] that by simp
qed

theorem semaphore_permits_witness:
  "\<exists>P s. run sm_step 2 (\<lambda>_. SmIdle) (semaphore_new 3) P s \<and> P 0 = SmHeld \<and> unat (sm_permits s) + card {t. P t = SmHeld} = 3"
proof -
  let ?s = "semaphore_new 3"
  have s: "schedule sm_next [0, 0, 0] (\<lambda>_. SmIdle, ?s) = Some ((\<lambda>_. SmIdle)(0 := SmHeld), ?s\<lparr>sm_permits := 2\<rparr>)"
    by (simp add: sm_try_load_def sm_try_cas_def chk_sub_def cas_def semaphore_new_def)
  have r: "run sm_step 2 (\<lambda>_. SmIdle) ?s ((\<lambda>_. SmIdle)(0 := SmHeld)) (?s\<lparr>sm_permits := 2\<rparr>)"
    by (rule schedule_run [OF sm_next_step run_refl s]) simp_all
  from semaphore_permits [OF r, THEN conjunct1]
  show ?thesis using r by (intro exI [of _ "(\<lambda>_. SmIdle)(0 := SmHeld)"] exI [of _ "?s\<lparr>sm_permits := 2\<rparr>"]) simp
qed

text \<open>
  C36: the semaphore loses a wakeup in the same way: task 0 obtains its permit at the second attempt
  and leaves its waker in the queue, so that its release wakes itself. A permit is available and
  every other task is idle, but task 1 sleeps and is never woken.
\<close>

theorem semaphore_lost_wakeup:
  "\<exists>P s. run sm_step 3 (\<lambda>_. SmIdle) (semaphore_new 1) P s \<and> sm_permits s = 1 \<and>
    P 0 = SmIdle \<and> P 1 = SmPending \<and> P 2 = SmIdle \<and> 1 \<notin> sm_woken s"
proof -
  let ?ts = "[2, 2, 2, 0, 0, 2, 2, 0, 0, 0, 1, 1, 1, 1, 0, 0]"
  have "\<exists>P s. schedule sm_next ?ts (\<lambda>_. SmIdle, semaphore_new 1) = Some (P, s) \<and> sm_permits s = 1 \<and>
    P 0 = SmIdle \<and> P 1 = SmPending \<and> P 2 = SmIdle \<and> 1 \<notin> sm_woken s"
    by (simp add: semaphore_new_def sm_try_load_def sm_try_cas_def sm_poll_register_def sm_release_def sm_wake_next_def
      register_waker_def chk_sub_def cas_def)
  then obtain P s where s: "schedule sm_next ?ts (\<lambda>_. SmIdle, semaphore_new 1) = Some (P, s)"
    and r: "sm_permits s = 1 \<and> P 0 = SmIdle \<and> P 1 = SmPending \<and> P 2 = SmIdle \<and> 1 \<notin> sm_woken s" by blast
  have "run sm_step 3 (\<lambda>_. SmIdle) (semaphore_new 1) P s"
    by (rule schedule_run [OF sm_next_step run_refl s]) simp_all
  then show ?thesis using r by blast
qed

text \<open>
  C37: \<^verbatim>\<open>Condvar::wait_async\<close> misses notifications. The waker is queued only when the wait future is first
  polled, after the guard was dropped, although the comment in the code says that it is registered
  before. Let task \<open>t\<close> hold the mutex while no waker is queued at the condition variable. It calls
  \<^verbatim>\<open>wait_async\<close>, which releases the mutex; other tasks then use the mutex, for instance to set the flag
  that \<open>t\<close> waits for, and leave it in any state \<open>m'\<close> without waking \<open>t\<close>. Whether they notify one or all
  waiters now, the notification does not reach \<open>t\<close>: its next poll returns \<^verbatim>\<open>Pending\<close> and it cannot run
  again. Only a notification after that poll wakes it.
\<close>

theorem condvar_lost_notification:
  assumes "array_vec_ok MAX_WAITERS av" "cv_waiters s = []" "length (mx_waiters (cv_mutex s)) \<le> MAX_WAITERS"
    and "t \<notin> set (mx_waiters (cv_mutex s)) \<union> mx_woken (cv_mutex s) \<union> mx_woken m'"
  shows "\<exists>s1 s2 s3 s4 s5. cv_step av t (CvMutex MxHeld) s CvDropWake s1 \<and> cv_step av t CvDropWake s1 (CvWait False) s2 \<and>
    \<not> mx_locked (cv_mutex s2) \<and> t \<notin> mx_woken (cv_mutex s2) \<and>
    cv_notify_one av (s2\<lparr>cv_mutex := m'\<rparr>) = Some s3 \<and> cv_notify_all av (s2\<lparr>cv_mutex := m'\<rparr>) = Some s3 \<and>
    cv_step av t (CvWait False) s3 CvPending s4 \<and> (\<forall>pc s'. \<not> cv_step av t CvPending s4 pc s') \<and>
    cv_notify_all av s4 = Some s5 \<and> t \<in> mx_woken (cv_mutex s5)"
proof -
  note av = assms(1)
  let ?s1 = "s\<lparr>cv_mutex := mx_unlock (cv_mutex s)\<rparr>"
  obtain m where m: "mx_wake_next av (mx_unlock (cv_mutex s)) = Some m" "\<not> mx_locked m" "t \<notin> mx_woken m"
    using wake_next_others [OF av, of "mx_unlock (cv_mutex s)" t] assms(3,4) by (auto simp: mx_unlock_def)
  let ?s2 = "s\<lparr>cv_mutex := m\<rparr>" and ?s3 = "s\<lparr>cv_mutex := m'\<rparr>"
  let ?s4 = "?s3\<lparr>cv_waiters := [t]\<rparr>" and ?s5 = "?s3\<lparr>cv_waiters := [], cv_mutex := m'\<lparr>mx_woken := insert t (mx_woken m')\<rparr>\<rparr>"
  have "cv_step av t CvDropWake ?s1 (CvWait False) ?s2" using cv_drop_wake [of av ?s1 m t] m(1) by simp
  moreover have "cv_notify_one av ?s3 = Some ?s3" "cv_notify_all av ?s3 = Some ?s3"
    using assms(2) wq_drain_rev [OF av, of "[]" "[]"] wq_wake_drained_rev [OF av, of "[]"]
    by (simp_all add: cv_notify_one_def cv_notify_all_def)
  moreover have "cv_wait_poll av t False ?s3 = Some (CvPending, ?s4)"
    using assms(2) array_vec_ok_simps(8) [OF av, of "[]"] by (simp add: cv_wait_poll_def MAX_WAITERS_def)
  then have "cv_step av t (CvWait False) ?s3 CvPending ?s4" by (rule cv_poll)
  moreover have "\<forall>pc s'. \<not> cv_step av t CvPending ?s4 pc s'" using assms(4) by (auto elim: cv_step.cases)
  moreover have "cv_notify_all av ?s4 = Some ?s5"
    using wq_drain_rev [OF av, of "[t]" "[]"] wq_wake_drained_rev [OF av, of "[t]"]
    by (simp add: cv_notify_all_def MAX_WAITERS_def)
  ultimately show ?thesis using m(2,3) cv_wait_async [of av t s]
    by (intro exI [of _ ?s1] exI [of _ ?s2] exI [of _ ?s3] exI [of _ ?s4] exI [of _ ?s5]) simp
qed

theorem condvar_lost_notification_witness:
  "\<exists>P s s1 s2 s3 s4. run (cv_step (list_array_vec MAX_WAITERS)) 2 (\<lambda>_. CvMutex MxIdle)
      \<lparr>cv_mutex = mutex_new False, cv_waiters = []\<rparr> P s \<and> P 0 = CvMutex MxHeld \<and>
    cv_step (list_array_vec MAX_WAITERS) 0 (CvMutex MxHeld) s CvDropWake s1 \<and>
    cv_step (list_array_vec MAX_WAITERS) 0 CvDropWake s1 (CvWait False) s2 \<and>
    cv_notify_one (list_array_vec MAX_WAITERS) (s2\<lparr>cv_mutex := mutex_new True\<rparr>) = Some s3 \<and>
    cv_step (list_array_vec MAX_WAITERS) 0 (CvWait False) s3 CvPending s4 \<and>
    (\<forall>pc s'. \<not> cv_step (list_array_vec MAX_WAITERS) 0 CvPending s4 pc s')"
proof -
  let ?av = "list_array_vec MAX_WAITERS" and ?s = "\<lparr>cv_mutex = mutex_new False, cv_waiters = []\<rparr>"
  let ?s' = "?s\<lparr>cv_mutex := (mutex_new False)\<lparr>mx_locked := True\<rparr>\<rparr>"
  have "cv_step ?av 0 (CvMutex MxIdle) ?s (CvMutex MxPoll) ?s"
    using cv_mutex_op [OF mx_start, of MxPoll ?av 0 ?s] by simp
  moreover have "cv_step ?av 0 (CvMutex MxPoll) ?s (CvMutex MxHeld) ?s'"
    by (intro cv_mutex_op mx_fast [where b = False]) (simp add: mx_poll_fast_def cas_def mutex_new_def)
  ultimately have "run (cv_step ?av) 2 (\<lambda>_. CvMutex MxIdle) ?s ((\<lambda>_. CvMutex MxIdle)(0 := CvMutex MxPoll, 0 := CvMutex MxHeld)) ?s'"
    by (intro run_step [OF run_step [OF run_refl]]) simp_all
  moreover from condvar_lost_notification [OF list_array_vec_ok, of ?s' 0 "mutex_new True"]
  have "\<exists>s1 s2 s3 s4. cv_step ?av 0 (CvMutex MxHeld) ?s' CvDropWake s1 \<and> cv_step ?av 0 CvDropWake s1 (CvWait False) s2 \<and>
    cv_notify_one ?av (s2\<lparr>cv_mutex := mutex_new True\<rparr>) = Some s3 \<and> cv_step ?av 0 (CvWait False) s3 CvPending s4 \<and>
    (\<forall>pc s'. \<not> cv_step ?av 0 CvPending s4 pc s')" by (auto simp: mutex_new_def)
  ultimately show ?thesis by fastforce
qed

text \<open>
  Wait queues. Up to 32 wakers are registered, in order; \<^verbatim>\<open>wake_all\<close> invokes all of them in that
  order and empties the queue, and \<^verbatim>\<open>wake_one\<close> invokes the first one. It then moves the last waker to
  the front: three tasks that queued as 1, 2, 3 are woken as 1, 3, 2 and not first in, first out.
\<close>

lemma wait_queue_wakes:
  assumes "array_vec_ok MAX_WAITERS av" "length q \<le> MAX_WAITERS"
  shows "wq_register_waker av q w = Some (if length q < MAX_WAITERS then (True, q @ [w]) else (False, q)) \<and>
    wq_wake_all av q = Some (q, []) \<and>
    (q \<noteq> [] \<longrightarrow> (\<exists>q'. wq_wake_one av q = Some ([hd q], q') \<and> set q = insert (hd q) (set q'))) \<and>
    wq_wake_one av [1, 2, 3] = Some ([1], [3, 2]) \<and> wq_wake_one av [3, 2] = Some ([3], [2])"
proof (intro conjI impI)
  show "wq_register_waker av q w = Some (if length q < MAX_WAITERS then (True, q @ [w]) else (False, q))"
    using array_vec_ok_simps(8) [OF assms(1)] by (simp add: wq_register_waker_def)
  show "wq_wake_all av q = Some (q, [])"
    using wq_drain_rev [OF assms(1), of q "[]"] wq_wake_drained_rev [OF assms(1), of "rev q"] assms(2)
    by (simp add: wq_wake_all_def)
  show "\<exists>q'. wq_wake_one av q = Some ([hd q], q') \<and> set q = insert (hd q) (set q')" if "q \<noteq> []"
    by (rule swap_remove_0 [OF assms that]) (use that in \<open>simp add: wq_wake_one_def\<close>)
  show "wq_wake_one av [1, 2, 3] = Some ([1], [3, 2])" "wq_wake_one av [3, 2] = Some ([3], [2])"
    using array_vec_ok_simps(9) [OF assms(1)] by (simp_all add: wq_wake_one_def MAX_WAITERS_def)
qed

end
