(* ===== verification/Spec2Isabelle.thy ===== *)
theory Spec2Isabelle
  imports Kernel_Heap Address_Space Pipe Channel Net Lock_Order Sync_Async
begin

text \<open>
  A verification library for the Hadron kernel, a 64-bit kernel written in Rust (all paths are under
  \<^verbatim>\<open>src/\<close>).

  \<^bold>\<open>The program and its parts.\<close> Hadron builds its memory management in layers. The boot loader's
  memory map initialises a bitmap allocator of physical frames (the PMM). The page-table mapper
  takes frames from it for the tables it creates. The virtual memory manager (VMM) draws address
  ranges of the kernel's half from region allocators and backs them with frames through the mapper;
  the heap allocator asks the VMM for more pages when no free block fits; a user address space has
  its own root table whose upper half is copied from the kernel's. Tasks and CPUs synchronise with
  spinning and sleeping locks, which report to a lock-order checker. User programs communicate
  through pipes and message channels, and a receive loop answers ARP and ICMP on the network.

  \<^bold>\<open>Theories and sources.\<close> Each theory models the files named, function by function and under the
  names of the source.

  \<^item> Hadron\_Prelude: machine words, checked arithmetic and slices as the default profile runs them, and
    the lemmas on words and lists the other theories share.
  \<^item> Noalloc: \<^verbatim>\<open>ArrayVec\<close> of the third-party crate \<^verbatim>\<open>planck_noalloc\<close>, as a parameter with its documented
    laws (\<open>array_vec_ok\<close>) and an implementation that meets them.
  \<^item> Addr: \<^verbatim>\<open>kernel/core/src/addr.rs\<close>, \<^verbatim>\<open>paging.rs\<close>. The value and the panic condition of
    every operation on addresses; a range iterator visits exactly the pages of its range (locale
    \<open>page_iterator\<close>, for page ranges and frame ranges).
  \<^item> Pmm: \<^verbatim>\<open>kernel/mm/src/pmm.rs\<close>. The state \<open>bitmap_allocator\<close> is the struct; its invariant relates the
    bitmap words, the free count and the search hint to a set of free frames. The word-level scan is
    first fit on that set; what clients rely on is the locale \<open>frame_allocator\<close>.
  \<^item> Region: \<^verbatim>\<open>kernel/mm/src/layout.rs\<close>, \<^verbatim>\<open>region.rs\<close>. The coalescing allocator manages the set of free
    addresses of its region exactly (locale \<open>range_allocator\<close>, for both allocators).
  \<^item> Page\_Tables and Page\_Mapping: \<^verbatim>\<open>kernel/kernel/src/arch/x86_64/structures/paging.rs\<close>,
    \<^verbatim>\<open>kernel/kernel/src/arch/x86_64/paging/mapper.rs\<close>, \<^verbatim>\<open>kernel/mm/src/mapper.rs\<close>. The first has the entries, the
    walker and the builder over a store of tables and shows that the tables stay a tree; the second
    proves the contract of the trait \<^verbatim>\<open>PageMapper\<close>: each operation changes the translation of exactly
    one page of 4 KiB, 2 MiB or 1 GiB.
  \<^item> Vmm: \<^verbatim>\<open>kernel/mm/src/vmm.rs\<close>, \<^verbatim>\<open>kernel/kernel/src/mm/vmm.rs\<close>. Heap growth, guarded kernel stacks and
    device mappings, proved from the contracts of the three layers below.
  \<^item> Address\_Space: \<^verbatim>\<open>kernel/mm/src/address_space.rs\<close>. Isolation of user address spaces.
  \<^item> Heap: \<^verbatim>\<open>kernel/mm/src/heap.rs\<close>. The list operations on headers in memory refine operations on a
    sorted list of intervals; allocation and deallocation move exactly their bytes.
  \<^item> Kernel\_Heap: \<^verbatim>\<open>kernel/kernel/src/mm/heap.rs\<close>. Joins Heap and Vmm; the theorem of this theory is about
    the whole stack from \<^verbatim>\<open>alloc\<close> down to the bitmap.
  \<^item> Fs\_Types: \<^verbatim>\<open>kernel/fs/src/lib.rs\<close>, \<^verbatim>\<open>kernel/core/src/sync/heap_waitqueue.rs\<close> and the constants of
    \<^verbatim>\<open>kernel/syscall/src/lib.rs\<close>, as far as the theories below use them.
  \<^item> Circular\_Buffer, Pipe, Channel: \<^verbatim>\<open>kernel/ipc/src/\<close>. The buffer refines a bounded queue (locale
    \<open>byte_queue\<close>); pipes run as interleaved tasks, for which delivery in order, and the presence or
    absence of lost wakeups, are invariants of the step relation; channels deliver whole messages.
  \<^item> Checksum, Net: \<^verbatim>\<open>kernel/net/src/\<close>. Parsers invert builders, no frame makes the stack panic, and
    echo and ARP requests are answered correctly.
  \<^item> Sync\_Locks, Sync\_Async: \<^verbatim>\<open>kernel/core/src/sync/\<close>. Each operation is its sequence of atomic
    accesses, interleaved in every order; the locale \<open>lock_protocol\<close> proves exclusion once for the spin
    lock, the writers of the sequence lock and the asynchronous mutex.
  \<^item> Lockdep, Lock\_Order: \<^verbatim>\<open>kernel/core/src/sync/lockdep.rs\<close>. The first has the hooks and the graph
    search, the second their equivalence with an abstract checker of an acyclic order.

  \<^bold>\<open>Conventions.\<close> A panic is \<^const>\<open>None\<close> of the option monad, so every theorem that gives a
  \<^const>\<open>Some\<close> says that the code does not panic; an error result is a value. State behind a global
  lock is passed explicitly. Loops of the source are structural recursion, functions with a
  termination proof, or, where the loop follows pointers or pops a work list, functions of the option
  monad, for which not returning is \<^const>\<open>None\<close> too: the lemmas show that they return. No definition
  takes fuel. Atomic accesses are sequentially consistent.

  \<^bold>\<open>Not modelled.\<close> The translation lookaside buffer and the processor itself: a flush is a value. The
  memory orderings of atomic accesses. The optional instrumentation of the heap and of the locks (red
  zones, statistics, stress delays), off in the default configuration, and the assertion of the
  option \<^verbatim>\<open>lock_debug\<close>, on by default, that a lock is not taken under an \<^verbatim>\<open>IrqSpinLock\<close>. The warn-only mode
  of the lock-order checker. The window in which the heap lock is released while the heap grows.
  The executor, whose tasks are futures of types the compiler generates. Processes, signals and
  system call entry, which switch processor context in assembly. The file systems behind trait
  objects, the terminal, the drivers and the bus code, which are device I/O. Boot protocol
  structures, the readers of ACPI, ELF, DWARF and device trees, the host-side build tools, and the
  programs of user space.
\<close>

section \<open>The kernel heap on the VMM\<close>

text \<open>
  C1: the allocator, the VMM, the page tables, the region allocator and the frame allocator together.
  Let the free blocks of the heap be mapped writable and lie outside the free part of the heap
  region. Then an allocation of \<open>sz\<close> bytes aligned to at most a page, with room in the region and four
  free frames per page in case the heap must grow, does not panic and does not fail. The result is
  aligned; its bytes are mapped writable, were free in the heap or fresh from the region, and are not
  free any more; and the same holds again of the heap, the VMM and the frame allocator.
\<close>

theorem kernel_alloc_mapped:
  fixes sz j :: nat
  defines "n \<equiv> max sz 32" and "k \<equiv> pages_up (max (max sz 32) 65536)"
  assumes "kernel_heap_inv avs avm h bs v m s" "j \<le> 12" "allocated_bytes h + n < 2 ^ 64"
    and "k \<le> 2 ^ 44" "{q..<q + k} \<subseteq> heap_free v" "k div 1024 \<le> card (pmm_avail s)"
  shows "\<exists>p h' bs' v' m' s'.
    kernel_heap_alloc (pmm_alloc False) h (Some v, m) s sz (2 ^ j) = Some (p, h', (Some v', m'), s') \<and>
    kernel_heap_inv avs avm h' bs' v' m' s' \<and> 0 < p \<and> 2 ^ j dvd p \<and> heap_mapped v' m' {p..<p + n} \<and>
    {p..<p + n} \<subseteq> Heap.span bs \<union> (heap_free v - heap_free v') \<and> {p..<p + n} \<inter> Heap.span bs' = {}"
proof (cases "\<exists>b \<in> set bs. fits n (2 ^ max j 4) b")
  case True
  obtain p h' bs' where a: "kernel_heap_alloc (pmm_alloc False) h (Some v, m) s sz (2 ^ j) = Some (p, h', (Some v, m), s)"
    "kernel_heap_inv avs avm h' bs' v m s" "carved (Heap.span bs) n (2 ^ max j 4) p (Heap.span bs')"
    unfolding n_def by (rule kernel_heap_alloc_fits [OF assms(3-5) [unfolded n_def] True [unfolded n_def]])
  have "heap_mapped v m (Heap.span bs)" using assms(3) by (simp add: kernel_heap_inv_def)
  then have "heap_mapped v m {p..<p + n}" by (rule heap_mapped_mono) (use a(3) in \<open>simp add: carved_def\<close>)
  moreover have "2 ^ j dvd p" using a(3) power_le_dvd [of 2 "max j 4" p j] by (simp add: carved_def)
  ultimately show ?thesis using a by (fastforce simp: carved_def)
next
  case False
  then have nofit: "\<forall>b \<in> set bs. \<not> fits n (2 ^ max j 4) b" by blast
  obtain p h' bs' v' m' s' b where
    a: "kernel_heap_alloc (pmm_alloc False) h (Some v, m) s sz (2 ^ j) = Some (p, h', (Some v', m'), s')"
      "kernel_heap_inv avs avm h' bs' v' m' s'" "heap_free v' = heap_free v - {b..<b + k}" "{b..<b + k} \<subseteq> heap_free v"
      "carved (Heap.span bs \<union> {b..<b + k}) n (2 ^ max j 4) p (Heap.span bs')" "heap_mapped v' m' (Heap.span bs \<union> {b..<b + k})"
    unfolding n_def k_def
    by (rule kernel_heap_alloc_grows [OF assms(3-8) [unfolded n_def k_def] nofit [unfolded n_def]])
  have "heap_mapped v' m' {p..<p + n}" by (rule heap_mapped_mono [OF a(6)]) (use a(5) in \<open>simp add: carved_def\<close>)
  moreover have "2 ^ j dvd p" using a(5) power_le_dvd [of 2 "max j 4" p j] by (simp add: carved_def)
  moreover have "{p..<p + n} \<subseteq> Heap.span bs \<union> (heap_free v - heap_free v')"
    using a(3-5) unfolding carved_def by blast
  moreover have "0 < p" "{p..<p + n} \<inter> Heap.span bs' = {}" using a(5) unfolding carved_def by blast+
  ultimately show ?thesis using a(1,2) by blast
qed

theorem kernel_alloc_mapped_witness:
  "\<exists>p h' v' m' s'. kernel_heap_alloc (pmm_alloc False) (heap_new (\<lambda>_. \<lparr>fb_size = 0, fb_next = 0\<rparr>))
      (Some small_vmm, no_tables) (small_pmm, \<lambda>_. 0) 5000 (2 ^ 6) = Some (p, h', (Some v', m'), s') \<and>
    0 < p \<and> 64 dvd p \<and> heap_mapped v' m' {p..<p + 5000}"
proof -
  let ?h = "heap_new (\<lambda>_. \<lparr>fb_size = 0, fb_next = 0\<rparr>)"
  have "kernel_heap_inv (list_array_vec STACKS_FREE_LIST_CAP) (list_array_vec MMIO_FREE_LIST_CAP) ?h []
      small_vmm no_tables (small_pmm, \<lambda>_. 0)"
    using small_vmm_inv(1) by (simp add: kernel_heap_inv_def heap_inv_def heap_new_def headroom_def heap_mapped_def
        small_vmm_def vmm_new_free)
  note * = kernel_alloc_mapped [OF this, where sz = 5000 and j = 6 and q = "0xFFFFC00000000000"]
  have k: "pages_up (max (max 5000 32) 65536) = 65536" by (simp add: pages_up_def)
  have "{0xFFFFC00000000000..<0xFFFFC00000000000 + 65536} \<subseteq> heap_free small_vmm"
    unfolding small_vmm_def vmm_new_free by simp
  then show ?thesis using * unfolding k small_vmm_inv(2) by (auto simp: heap_new_def)
qed

end
